(* ===== verification/Fs_Prelude.thy ===== *)
theory Fs_Prelude
  imports Main "HOL-Library.Word" "HOL-Library.Multiset"
begin

text \<open>
  Shared vocabulary of the development: the three-way comparison results of
  \<^verbatim>\<open>util/comparison.h\<close>, the contract every comparator handed to a sorted
  container has to meet (locale \<open>comparator\<close>), the failure values that stand for the
  process-ending assertions of \<^verbatim>\<open>util/hard_assert.h\<close>, and generic lemmas on lists that are
  sorted by a comparator.
\<close>

named_theorems fs_defs "definitions unfolded by the component proofs"

section \<open>Failures\<close>

text \<open>
  \<^verbatim>\<open>HARD_ASSERT\<close> and \<^verbatim>\<open>HARD_FAIL\<close> end in a no-return helper. A function that may reach
  one returns a value of a sum type whose left summand names the way it failed. Reading a member of
  a union that is not the active one, other undefined behaviour and a thrown invalid-argument
  exception are failures as well.
\<close>

datatype failure =
    HardAssert
  | HardFail
  | InactiveMember
  | UndefinedBehaviour
  | ThrownInvalidArgument

type_synonym 'a res = "failure + 'a"

definition bind_res :: "'a res \<Rightarrow> ('a \<Rightarrow> 'b res) \<Rightarrow> 'b res" where
  "bind_res m f = (case m of Inl e \<Rightarrow> Inl e | Inr x \<Rightarrow> f x)"

definition hard_assert :: "bool \<Rightarrow> 'a res \<Rightarrow> 'a res" where
  "hard_assert b m = (if b then m else Inl HardAssert)"

lemma bind_res_simps [simp]:
  "bind_res (Inl e) f = Inl e"
  "bind_res (Inr x) f = f x"
  by (simp_all add: bind_res_def)

lemma bind_res_eq_Inr [simp]:
  "bind_res m f = Inr y \<longleftrightarrow> (\<exists>x. m = Inr x \<and> f x = Inr y)"
  by (cases m) simp_all

lemma hard_assert_simps [simp]:
  "hard_assert True m = m"
  "hard_assert False m = Inl HardAssert"
  by (simp_all add: hard_assert_def)

lemma hard_assert_eq_Inr [simp]:
  "hard_assert b m = Inr y \<longleftrightarrow> b \<and> m = Inr y"
  by (simp add: hard_assert_def)

section \<open>Default constructors\<close>

text \<open>
  The values C++ value-initialisation gives: zero, false, the empty container. Containers that
  keep a spare entry (\<^verbatim>\<open>std::pair<K, V>{}\<close>) need them.
\<close>

instantiation nat :: default
begin

definition default_nat :: nat where "default_nat = 0"

instance ..

end

instantiation int :: default
begin

definition default_int :: int where "default_int = 0"

instance ..

end

instantiation bool :: default
begin

definition default_bool :: bool where "default_bool = False"

instance ..

end

instantiation list :: (type) default
begin

definition default_list :: "'a list" where "default_list = []"

instance ..

end

instantiation option :: (type) default
begin

definition default_option :: "'a option" where "default_option = None"

instance ..

end

instantiation prod :: (default, default) default
begin

definition default_prod :: "'a \<times> 'b" where "default_prod = (default, default)"

instance ..

end

section \<open>Three-way comparison\<close>

datatype ComparisonResult = Ascending | Same | Descending

type_synonym 'a cmp = "'a \<Rightarrow> 'a \<Rightarrow> ComparisonResult"

definition ComparisonResultFromInt :: "int \<Rightarrow> ComparisonResult" where
  "ComparisonResultFromInt value =
     (if value < 0 then Ascending else if value > 0 then Descending else Same)"

fun ReverseOrder :: "ComparisonResult \<Rightarrow> ComparisonResult" where
  "ReverseOrder Ascending = Descending"
| "ReverseOrder Same = Same"
| "ReverseOrder Descending = Ascending"

definition DefaultComparator :: "'a::linorder cmp" where
  "DefaultComparator left right =
     (if left < right then Ascending else if right < left then Descending else Same)"

text \<open>\<^verbatim>\<open>CompareContainer\<close>: lexicographic comparison of two ranges by an element comparison.\<close>

fun CompareContainer :: "'a cmp \<Rightarrow> 'a list cmp" where
  "CompareContainer c (x # xs) (y # ys) =
     (if c x y \<noteq> Same then c x y else CompareContainer c xs ys)"
| "CompareContainer c [] (y # ys) = Ascending"
| "CompareContainer c (x # xs) [] = Descending"
| "CompareContainer c [] [] = Same"

text \<open>The relational operators of the mixin \<^verbatim>\<open>Comparable\<close>, over a \<^verbatim>\<open>CompareTo\<close>.\<close>

definition cmp_lt :: "'a cmp \<Rightarrow> 'a \<Rightarrow> 'a \<Rightarrow> bool" where
  "cmp_lt c x y \<longleftrightarrow> c x y = Ascending"

definition cmp_le :: "'a cmp \<Rightarrow> 'a \<Rightarrow> 'a \<Rightarrow> bool" where
  "cmp_le c x y \<longleftrightarrow> \<not> cmp_lt c y x"

lemma ReverseOrder_ReverseOrder [simp]: "ReverseOrder (ReverseOrder r) = r"
  by (cases r) simp_all

lemma ReverseOrder_eq [simp]:
  "ReverseOrder r = Ascending \<longleftrightarrow> r = Descending"
  "ReverseOrder r = Same \<longleftrightarrow> r = Same"
  "ReverseOrder r = Descending \<longleftrightarrow> r = Ascending"
  "Ascending = ReverseOrder r \<longleftrightarrow> r = Descending"
  "Same = ReverseOrder r \<longleftrightarrow> r = Same"
  "Descending = ReverseOrder r \<longleftrightarrow> r = Ascending"
  by (cases r; simp)+

text \<open>
  The contract of a comparator: a total preorder. \<open>Same\<close> need not mean equality: two
  documents that agree on all sort keys compare the same without being equal.
\<close>

locale comparator =
  fixes cmp :: "'a cmp"
  assumes cmp_refl [simp]: "cmp x x = Same"
    and cmp_sym: "cmp y x = ReverseOrder (cmp x y)"
    and cmp_trans: "\<lbrakk>cmp x y \<noteq> Descending; cmp y z \<noteq> Descending\<rbrakk> \<Longrightarrow> cmp x z \<noteq> Descending"
begin

lemma Descending_iff: "cmp x y = Descending \<longleftrightarrow> cmp y x = Ascending"
  using cmp_sym[of x y] by (cases "cmp x y") simp_all

lemma Same_sym: "cmp x y = Same \<Longrightarrow> cmp y x = Same"
  using cmp_sym[of y x] by simp

lemma not_Descending_iff: "cmp x y \<noteq> Descending \<longleftrightarrow> cmp y x \<noteq> Ascending"
  by (simp add: Descending_iff)

lemma Ascending_trans: "cmp x y = Ascending \<Longrightarrow> cmp y z = Ascending \<Longrightarrow> cmp x z = Ascending"
  using cmp_trans[of z x y] cmp_trans[of y z x] cmp_sym[of x z] cmp_sym[of x y] cmp_sym[of y z]
  by (cases "cmp x z"; simp)

lemma Ascending_Same: "cmp x y = Ascending \<Longrightarrow> cmp y z = Same \<Longrightarrow> cmp x z = Ascending"
  using cmp_trans[of y z x] cmp_sym[of x z] cmp_sym[of x y] cmp_sym[of y z]
  by (cases "cmp x z"; simp)

lemma Same_Ascending: "cmp x y = Same \<Longrightarrow> cmp y z = Ascending \<Longrightarrow> cmp x z = Ascending"
  using cmp_trans[of z x y] cmp_sym[of x z] cmp_sym[of y z] cmp_sym[of x y]
  by (cases "cmp x z"; simp)

lemma Same_trans: "cmp x y = Same \<Longrightarrow> cmp y z = Same \<Longrightarrow> cmp x z = Same"
  using cmp_trans[of x y z] cmp_trans[of z y x] cmp_sym[of x z] cmp_sym[of y z] cmp_sym[of x y]
  by (cases "cmp x z"; simp)

lemma Ascending_asym: "cmp x y = Ascending \<Longrightarrow> cmp y x \<noteq> Ascending"
  using cmp_sym[of x y] by simp

lemmas cmp_chain = Ascending_trans Ascending_Same Same_Ascending Same_trans

lemma Same_left: "cmp x y = Same \<Longrightarrow> cmp x z = cmp y z"
  using Same_trans[of y x z] Same_Ascending[of y x z] Ascending_Same[of z x y]
    Same_sym[of x y] Descending_iff[of x z] Descending_iff[of y z]
  by (cases "cmp x z") simp_all

lemma Same_right: "cmp x y = Same \<Longrightarrow> cmp z x = cmp z y"
  using Same_left[of x y z] cmp_sym[of z x] cmp_sym[of z y] by simp

end

text \<open>A comparator that only identifies equal values.\<close>

locale strong_comparator = comparator +
  assumes cmp_Same_eq: "cmp x y = Same \<Longrightarrow> x = y"
begin

lemma cmp_Same_iff [simp]: "cmp x y = Same \<longleftrightarrow> x = y"
  by (auto intro: cmp_Same_eq)

end

lemma strong_comparator_DefaultComparator: "strong_comparator DefaultComparator"
  by unfold_locales (auto simp: DefaultComparator_def split: if_splits)

interpretation default_cmp: strong_comparator DefaultComparator
  by (rule strong_comparator_DefaultComparator)

lemma CompareContainer_refl: "(\<And>x. c x x = Same) \<Longrightarrow> CompareContainer c xs xs = Same"
  by (induction xs) simp_all

lemma CompareContainer_rev:
  "(\<And>x y. c y x = ReverseOrder (c x y)) \<Longrightarrow>
   CompareContainer c ys xs = ReverseOrder (CompareContainer c xs ys)"
proof (induction c xs ys rule: CompareContainer.induct)
  case (1 c x xs y ys)
  then show ?case by (metis CompareContainer.simps(1) ReverseOrder_eq(2))
qed simp_all

text \<open>Lexicographic comparison keeps the contract.\<close>

context comparator
begin

lemma CompareContainer_trans:
  "\<lbrakk>CompareContainer cmp xs ys \<noteq> Descending; CompareContainer cmp ys zs \<noteq> Descending\<rbrakk>
   \<Longrightarrow> CompareContainer cmp xs zs \<noteq> Descending"
proof (induction xs arbitrary: ys zs)
  case Nil
  show ?case by (cases zs) simp_all
next
  case (Cons x xs)
  from Cons.prems(1) obtain y ys' where ys: "ys = y # ys'" by (cases ys) auto
  from Cons.prems(2) ys obtain z zs' where zs: "zs = z # zs'" by (cases zs) auto
  have xy: "cmp x y \<noteq> Descending" and yz: "cmp y z \<noteq> Descending"
    using Cons.prems ys zs by (auto split: if_splits)
  show ?case
  proof (cases "cmp x z = Same")
    case True
    have "cmp x y = Same"
      using xy yz True Same_left[OF True, of y] Descending_iff[of y z] Descending_iff[of x y]
        cmp_sym[of y z] by (cases "cmp x y") auto
    moreover have "cmp y z = Same"
      using Same_left[OF calculation, of z] True by simp
    ultimately show ?thesis
      using Cons.prems Cons.IH[of ys' zs'] True unfolding ys zs by simp
  next
    case False
    then show ?thesis using cmp_trans[OF xy yz] zs by simp
  qed
qed

lemma CompareContainer_comparator: "comparator (CompareContainer cmp)"
proof
  show "CompareContainer cmp x x = Same" for x
    by (rule CompareContainer_refl) simp
  show "CompareContainer cmp y x = ReverseOrder (CompareContainer cmp x y)" for x y
    by (rule CompareContainer_rev) (rule cmp_sym)
  show "\<lbrakk>CompareContainer cmp x y \<noteq> Descending; CompareContainer cmp y z \<noteq> Descending\<rbrakk>
    \<Longrightarrow> CompareContainer cmp x z \<noteq> Descending" for x y z
    by (rule CompareContainer_trans)
qed

end

lemma CompareContainer_Same_eq:
  "(\<And>x y. c x y = Same \<Longrightarrow> x = y) \<Longrightarrow> CompareContainer c xs ys = Same \<Longrightarrow> xs = ys"
  by (induction c xs ys rule: CompareContainer.induct) (auto split: if_splits)

context strong_comparator
begin

lemma CompareContainer_strong: "strong_comparator (CompareContainer cmp)"
  by (simp add: strong_comparator_def strong_comparator_axioms_def CompareContainer_comparator)
     (blast intro: CompareContainer_Same_eq cmp_Same_eq)

end

section \<open>Entry lists sorted by a comparator\<close>

text \<open>
  The abstract value of a sorted map is its list of entries in ascending key order. The
  specification of every map operation is a function on that list.
\<close>

type_synonym ('k, 'v) entry = "'k \<times> 'v"

definition sorted_entries :: "'k cmp \<Rightarrow> ('k \<times> 'v) list \<Rightarrow> bool" where
  "sorted_entries cmp = sorted_wrt (\<lambda>p q. cmp (fst p) (fst q) = Ascending)"

fun upd_entries :: "'k cmp \<Rightarrow> 'k \<Rightarrow> 'v \<Rightarrow> ('k \<times> 'v) list \<Rightarrow> ('k \<times> 'v) list" where
  "upd_entries cmp k v [] = [(k, v)]"
| "upd_entries cmp k v ((a, b) # xs) =
     (case cmp a k of
        Ascending \<Rightarrow> (a, b) # upd_entries cmp k v xs
      | Same \<Rightarrow> (a, v) # xs
      | Descending \<Rightarrow> (k, v) # (a, b) # xs)"

definition del_entries :: "'k cmp \<Rightarrow> 'k \<Rightarrow> ('k \<times> 'v) list \<Rightarrow> ('k \<times> 'v) list" where
  "del_entries cmp k xs = filter (\<lambda>p. cmp (fst p) k \<noteq> Same) xs"

fun get_entries :: "'k cmp \<Rightarrow> ('k \<times> 'v) list \<Rightarrow> 'k \<Rightarrow> 'v option" where
  "get_entries cmp [] k = None"
| "get_entries cmp ((a, b) # xs) k = (if cmp a k = Same then Some b else get_entries cmp xs k)"

definition entries_below :: "'k cmp \<Rightarrow> ('k \<times> 'v) list \<Rightarrow> 'k \<Rightarrow> bool" where
  "entries_below cmp xs k \<longleftrightarrow> (\<forall>p \<in> set xs. cmp (fst p) k = Ascending)"

definition entries_above :: "'k cmp \<Rightarrow> ('k \<times> 'v) list \<Rightarrow> 'k \<Rightarrow> bool" where
  "entries_above cmp xs k \<longleftrightarrow> (\<forall>p \<in> set xs. cmp k (fst p) = Ascending)"

lemma entries_below_simps [simp]:
  "entries_below cmp [] k"
  "entries_below cmp (p # xs) k \<longleftrightarrow> cmp (fst p) k = Ascending \<and> entries_below cmp xs k"
  "entries_below cmp (xs @ ys) k \<longleftrightarrow> entries_below cmp xs k \<and> entries_below cmp ys k"
  by (auto simp: entries_below_def)

lemma entries_above_simps [simp]:
  "entries_above cmp [] k"
  "entries_above cmp (p # xs) k \<longleftrightarrow> cmp k (fst p) = Ascending \<and> entries_above cmp xs k"
  "entries_above cmp (xs @ ys) k \<longleftrightarrow> entries_above cmp xs k \<and> entries_above cmp ys k"
  by (auto simp: entries_above_def)

lemma del_entries_simps [simp]:
  "del_entries cmp k [] = []"
  "del_entries cmp k (p # xs) =
     (if cmp (fst p) k = Same then del_entries cmp k xs else p # del_entries cmp k xs)"
  "del_entries cmp k (xs @ ys) = del_entries cmp k xs @ del_entries cmp k ys"
  by (simp_all add: del_entries_def)

lemma get_entries_append:
  "get_entries cmp (xs @ ys) k =
     (case get_entries cmp xs k of None \<Rightarrow> get_entries cmp ys k | Some v \<Rightarrow> Some v)"
  by (induction xs) auto

lemma sorted_entries_simps [simp]:
  "sorted_entries cmp []"
  "sorted_entries cmp (p # xs) \<longleftrightarrow> entries_above cmp xs (fst p) \<and> sorted_entries cmp xs"
  by (auto simp: sorted_entries_def entries_above_def)

lemma sorted_entries_append:
  "sorted_entries cmp (xs @ ys) \<longleftrightarrow> sorted_entries cmp xs \<and> sorted_entries cmp ys \<and>
     (\<forall>p \<in> set xs. \<forall>q \<in> set ys. cmp (fst p) (fst q) = Ascending)"
  by (auto simp: sorted_entries_def sorted_wrt_append)

context comparator
begin

lemma entries_below_trans:
  "entries_below cmp xs a \<Longrightarrow> cmp a k \<noteq> Descending \<Longrightarrow> entries_below cmp xs k"
  by (cases "cmp a k") (auto simp: entries_below_def intro: Ascending_trans Ascending_Same)

lemma entries_above_trans:
  "entries_above cmp xs a \<Longrightarrow> cmp k a \<noteq> Descending \<Longrightarrow> entries_above cmp xs k"
  by (cases "cmp k a") (auto simp: entries_above_def intro: Ascending_trans Same_Ascending)

lemma sorted_entries_mid:
  "sorted_entries cmp (xs @ p # ys) \<longleftrightarrow>
     sorted_entries cmp xs \<and> entries_below cmp xs (fst p) \<and>
     entries_above cmp ys (fst p) \<and> sorted_entries cmp ys"
  by (auto simp: sorted_entries_append entries_below_def entries_above_def intro: Ascending_trans)

lemma del_entries_below [simp]: "entries_below cmp xs k \<Longrightarrow> del_entries cmp k xs = xs"
  by (auto simp: del_entries_def entries_below_def filter_id_conv)

lemma del_entries_above [simp]: "entries_above cmp xs k \<Longrightarrow> del_entries cmp k xs = xs"
  by (induction xs) (auto dest: Same_sym)

lemma upd_entries_below:
  "entries_below cmp xs k \<Longrightarrow> upd_entries cmp k v (xs @ ys) = xs @ upd_entries cmp k v ys"
  by (induction xs) auto

lemma upd_entries_above:
  "cmp a k = Descending \<Longrightarrow> upd_entries cmp k v (xs @ (a, b) # ys) = upd_entries cmp k v xs @ (a, b) # ys"
  by (induction xs) (auto split: ComparisonResult.split)

lemma set_upd_entries_above:
  "entries_above cmp xs a \<Longrightarrow> cmp a k = Ascending \<Longrightarrow> entries_above cmp (upd_entries cmp k v xs) a"
  by (induction xs) (auto split: ComparisonResult.split)

lemma sorted_upd_entries: "sorted_entries cmp xs \<Longrightarrow> sorted_entries cmp (upd_entries cmp k v xs)"
proof (induction xs)
  case (Cons p xs)
  obtain a b where p: "p = (a, b)" by force
  show ?case
  proof (cases "cmp a k")
    case Ascending
    with Cons p show ?thesis by (simp add: set_upd_entries_above)
  next
    case Same
    with Cons p show ?thesis by simp
  next
    case Descending
    then have "cmp k a = Ascending" by (simp add: Descending_iff)
    with Cons p Descending show ?thesis by (auto intro: entries_above_trans)
  qed
qed simp

lemma sorted_del_entries: "sorted_entries cmp xs \<Longrightarrow> sorted_entries cmp (del_entries cmp k xs)"
  by (auto simp: sorted_entries_def del_entries_def intro: sorted_wrt_filter)

lemma get_upd_entries:
  "get_entries cmp (upd_entries cmp k v xs) k' =
     (if cmp k k' = Same then Some v else get_entries cmp xs k')"
proof (induction xs)
  case (Cons p xs)
  obtain a b where p: "p = (a, b)" by force
  have "cmp a k = Same \<Longrightarrow> cmp a k' = cmp k k'" by (rule Same_left)
  moreover have "cmp k k' = Same \<Longrightarrow> cmp a k = cmp a k'" by (rule Same_right)
  ultimately show ?case using Cons p by (cases "cmp a k") auto
qed simp

lemma get_entries_above [simp]: "entries_above cmp xs k \<Longrightarrow> get_entries cmp xs k = None"
  by (induction xs) (auto dest: Same_sym simp: cmp_sym[of _ k])

lemma get_entries_below [simp]: "entries_below cmp xs k \<Longrightarrow> get_entries cmp xs k = None"
  by (induction xs) auto

lemma get_del_entries:
  "get_entries cmp (del_entries cmp k xs) k' =
     (if cmp k k' = Same then None else get_entries cmp xs k')"
proof (induction xs)
  case (Cons p xs)
  obtain a b where p: "p = (a, b)" by force
  show ?case
    using Cons Same_left[of a k k'] Same_trans[of a k' k] Same_sym[of k k'] p by auto
qed simp

lemma length_upd_entries: "length (upd_entries cmp k v xs) \<le> Suc (length xs)"
  by (induction xs) (auto split: ComparisonResult.split)

lemma length_del_entries: "length (del_entries cmp k xs) \<le> length xs"
  by (simp add: del_entries_def)

lemma get_entries_dropWhile:
  "sorted_entries cmp xs \<Longrightarrow> get_entries cmp xs k =
     (case dropWhile (\<lambda>p. cmp (fst p) k = Ascending) xs of
        [] \<Rightarrow> None | p # _ \<Rightarrow> if cmp k (fst p) = Same then Some (snd p) else None)"
proof (induction xs)
  case (Cons p xs)
  show ?case
  proof (cases "cmp (fst p) k")
    case Ascending
    then show ?thesis using Cons by (cases p) simp
  next
    case Same
    then show ?thesis using Same_sym[OF Same] by (cases p) simp
  next
    case Descending
    then have k: "cmp k (fst p) = Ascending" by (simp add: Descending_iff)
    then have "entries_above cmp xs k" using Cons.prems by (auto intro: entries_above_trans)
    then show ?thesis using Descending k by (cases p) simp
  qed
qed simp

end

section \<open>Sorting entries by key\<close>

text \<open>
  \<^verbatim>\<open>std::sort\<close> with a comparison of keys. The standard leaves the order of entries whose keys
  compare the same open; insertion into sorted position is one of the allowed results.
\<close>

fun std_sort_insert :: "'k cmp \<Rightarrow> 'k \<times> 'v \<Rightarrow> ('k \<times> 'v) list \<Rightarrow> ('k \<times> 'v) list" where
  "std_sort_insert cmp x [] = [x]"
| "std_sort_insert cmp x (y # ys) =
     (if cmp (fst y) (fst x) = Ascending then y # std_sort_insert cmp x ys else x # y # ys)"

definition std_sort_entries :: "'k cmp \<Rightarrow> ('k \<times> 'v) list \<Rightarrow> ('k \<times> 'v) list" where
  "std_sort_entries cmp es = foldr (std_sort_insert cmp) es []"

lemma std_sort_entries_simps [simp]:
  "std_sort_entries cmp [] = []"
  "std_sort_entries cmp (e # es) = std_sort_insert cmp e (std_sort_entries cmp es)"
  by (simp_all add: std_sort_entries_def)

lemma mset_std_sort_insert [simp]: "mset (std_sort_insert cmp x ys) = add_mset x (mset ys)"
  by (induction ys) auto

lemma mset_std_sort_entries [simp]: "mset (std_sort_entries cmp es) = mset es"
  by (induction es) simp_all

lemma set_std_sort_entries [simp]: "set (std_sort_entries cmp es) = set es"
  using mset_std_sort_entries[of cmp es] by (metis set_mset_mset)

lemma length_std_sort_entries [simp]: "length (std_sort_entries cmp es) = length es"
  using mset_std_sort_entries[of cmp es] by (metis size_mset)

context comparator
begin

lemma std_sort_insert_sorted:
  assumes "sorted_entries cmp ys" "\<forall>y \<in> set ys. cmp (fst y) (fst x) \<noteq> Same"
  shows "sorted_entries cmp (std_sort_insert cmp x ys)"
  using assms
proof (induction ys)
  case (Cons y ys)
  show ?case
  proof (cases "cmp (fst y) (fst x) = Ascending")
    case True
    have "set (std_sort_insert cmp x ys) = insert x (set ys)"
      using mset_std_sort_insert[of cmp x ys] by (metis set_mset_add_mset_insert set_mset_mset)
    then have "entries_above cmp (std_sort_insert cmp x ys) (fst y)"
      using Cons.prems(1) True by (auto simp: entries_above_def)
    then show ?thesis using Cons True by simp
  next
    case False
    then have "cmp (fst x) (fst y) = Ascending"
      using Cons.prems(2) Descending_iff by (cases "cmp (fst y) (fst x)") auto
    then show ?thesis using Cons.prems(1) False by (auto intro: entries_above_trans)
  qed
qed simp

end

context comparator
begin

lemma std_sort_entries_id: "sorted_entries cmp es \<Longrightarrow> std_sort_entries cmp es = es"
proof (induction es)
  case (Cons e es)
  then show ?case by (cases es) (auto dest: Ascending_asym)
qed simp

end

context strong_comparator
begin

lemma std_sort_entries_sorted:
  "distinct (map fst es) \<Longrightarrow> sorted_entries cmp (std_sort_entries cmp es)"
proof (induction es)
  case (Cons e es)
  then have "\<forall>y \<in> set (std_sort_entries cmp es). cmp (fst y) (fst e) \<noteq> Same"
    by (metis cmp_Same_iff distinct.simps(2) image_eqI list.map(2) list.set_map set_std_sort_entries)
  then show ?case using Cons by (simp add: std_sort_insert_sorted)
qed simp

end

end
