(* ===== verification/Llrb_Node.thy ===== *)
theory Llrb_Node
  imports Fs_Prelude
begin

text \<open>
  The left-leaning red-black tree of \<^verbatim>\<open>immutable/llrb_node.h\<close>: the node representation with
  its 31-bit size field, insertion and removal with their rebalancing steps, and the proofs that
  both keep the tree ordered, balanced and correctly sized and act on the in-order entry list as
  the specification says.

  An empty node is a shared \<^verbatim>\<open>Rep\<close> whose size is zero and whose children are itself. Cloning it
  and flipping its colour gives an empty node that is red, so \<open>EmptyRep\<close> carries a colour. Its
  entry is the value-initialised pair \<^verbatim>\<open>std::pair<K, V>{}\<close>; the type class \<open>default\<close> stands for
  the default constructors this needs.
\<close>

section \<open>The node\<close>

datatype Color = Black | Red

datatype ('k, 'v) LlrbNode =
    EmptyRep Color
  | Rep "'k \<times> 'v" Color nat "('k, 'v) LlrbNode" "('k, 'v) LlrbNode"

abbreviation Empty :: "('k, 'v) LlrbNode" where
  "Empty \<equiv> EmptyRep Black"

fun node_size :: "('k, 'v) LlrbNode \<Rightarrow> nat" where
  "node_size (EmptyRep c) = 0"
| "node_size (Rep e c s l r) = s"

definition node_empty :: "('k, 'v) LlrbNode \<Rightarrow> bool" where
  "node_empty n \<longleftrightarrow> node_size n = 0"

fun color :: "('k, 'v) LlrbNode \<Rightarrow> Color" where
  "color (EmptyRep c) = c"
| "color (Rep e c s l r) = c"

definition red :: "('k, 'v) LlrbNode \<Rightarrow> bool" where
  "red n \<longleftrightarrow> color n = Red"

fun node_entry :: "('k::default, 'v::default) LlrbNode \<Rightarrow> 'k \<times> 'v" where
  "node_entry (EmptyRep c) = (default, default)"
| "node_entry (Rep e c s l r) = e"

definition node_key :: "('k::default, 'v::default) LlrbNode \<Rightarrow> 'k" where
  "node_key n = fst (node_entry n)"

fun left :: "('k, 'v) LlrbNode \<Rightarrow> ('k, 'v) LlrbNode" where
  "left (EmptyRep c) = Empty"
| "left (Rep e c s l r) = l"

fun right :: "('k, 'v) LlrbNode \<Rightarrow> ('k, 'v) LlrbNode" where
  "right (EmptyRep c) = Empty"
| "right (Rep e c s l r) = r"

text \<open>The bit field \<^verbatim>\<open>size_ : 31\<close> keeps the low 31 bits of what is stored in it.\<close>

definition size_field :: "nat \<Rightarrow> nat" where
  "size_field n = n mod 2 ^ 31"

text \<open>The four-argument constructor of \<^verbatim>\<open>Rep\<close>, which computes the size.\<close>

definition make_Rep :: "'k \<times> 'v \<Rightarrow> Color \<Rightarrow> ('k, 'v) LlrbNode \<Rightarrow> ('k, 'v) LlrbNode
    \<Rightarrow> ('k, 'v) LlrbNode" where
  "make_Rep e c l r = Rep e c (size_field (node_size l + 1 + node_size r)) l r"

subsection \<open>Setters on a cloned node\<close>

definition set_size :: "('k::default, 'v::default) LlrbNode \<Rightarrow> nat \<Rightarrow> ('k, 'v) LlrbNode" where
  "set_size n s = Rep (node_entry n) (color n) (size_field s) (left n) (right n)"

definition set_entry :: "('k::default, 'v::default) LlrbNode \<Rightarrow> 'k \<times> 'v \<Rightarrow> ('k, 'v) LlrbNode" where
  "set_entry n e = Rep e (color n) (node_size n) (left n) (right n)"

definition set_value :: "('k::default, 'v::default) LlrbNode \<Rightarrow> 'v \<Rightarrow> ('k, 'v) LlrbNode" where
  "set_value n v = Rep (fst (node_entry n), v) (color n) (node_size n) (left n) (right n)"

fun set_color :: "('k, 'v) LlrbNode \<Rightarrow> Color \<Rightarrow> ('k, 'v) LlrbNode" where
  "set_color (EmptyRep c') c = EmptyRep c"
| "set_color (Rep e c' s l r) c = Rep e c s l r"

definition set_left :: "('k::default, 'v::default) LlrbNode \<Rightarrow> ('k, 'v) LlrbNode
    \<Rightarrow> ('k, 'v) LlrbNode" where
  "set_left n l = Rep (node_entry n) (color n) (node_size n) l (right n)"

definition set_right :: "('k::default, 'v::default) LlrbNode \<Rightarrow> ('k, 'v) LlrbNode
    \<Rightarrow> ('k, 'v) LlrbNode" where
  "set_right n r = Rep (node_entry n) (color n) (node_size n) (left n) r"

definition OppositeColor :: "('k, 'v) LlrbNode \<Rightarrow> Color" where
  "OppositeColor n = (if color n = Red then Black else Red)"

section \<open>Rotations and colour flips\<close>

definition RotateLeft :: "('k::default, 'v::default) LlrbNode \<Rightarrow> ('k, 'v) LlrbNode" where
  "RotateLeft n =
     (let new_left = make_Rep (node_entry n) Red (left n) (left (right n));
          n1 = set_entry n (node_entry (right n));
          n2 = set_left n1 new_left
      in set_right n2 (right (right n2)))"

definition RotateRight :: "('k::default, 'v::default) LlrbNode \<Rightarrow> ('k, 'v) LlrbNode" where
  "RotateRight n =
     (let new_right = make_Rep (node_entry n) Red (right (left n)) (right n);
          n1 = set_entry n (node_entry (left n));
          n2 = set_left n1 (left (left n1))
      in set_right n2 new_right)"

definition FlipColor :: "('k::default, 'v::default) LlrbNode \<Rightarrow> ('k, 'v) LlrbNode" where
  "FlipColor n =
     (let new_left = set_color (left n) (OppositeColor (left n));
          new_right = set_color (right n) (OppositeColor (right n));
          n1 = set_color n (OppositeColor n)
      in set_right (set_left n1 new_left) new_right)"

definition FixUp :: "('k::default, 'v::default) LlrbNode \<Rightarrow> ('k, 'v) LlrbNode" where
  "FixUp n =
     (let n0 = set_size n (node_size (left n) + 1 + node_size (right n));
          n1 = (if red (right n0) \<and> \<not> red (left n0) then RotateLeft n0 else n0);
          n2 = (if red (left n1) \<and> red (left (left n1)) then RotateRight n1 else n1)
      in if red (left n2) \<and> red (right n2) then FlipColor n2 else n2)"

definition FixRootColor :: "('k, 'v) LlrbNode \<Rightarrow> ('k, 'v) LlrbNode" where
  "FixRootColor n = (if red n then set_color n Black else n)"

definition MoveRedLeft :: "('k::default, 'v::default) LlrbNode \<Rightarrow> ('k, 'v) LlrbNode" where
  "MoveRedLeft n =
     (let n1 = FlipColor n
      in if red (left (right n1))
         then FlipColor (RotateLeft (set_right n1 (RotateRight (right n1))))
         else n1)"

definition MoveRedRight :: "('k::default, 'v::default) LlrbNode \<Rightarrow> ('k, 'v) LlrbNode" where
  "MoveRedRight n =
     (let n1 = FlipColor n
      in if red (left (left n1)) then FlipColor (RotateRight n1) else n1)"

section \<open>Minimum, maximum, insertion\<close>

fun node_min :: "('k, 'v) LlrbNode \<Rightarrow> ('k, 'v) LlrbNode" where
  "node_min (EmptyRep c) = EmptyRep c"
| "node_min (Rep e c s l r) = (if node_empty l then Rep e c s l r else node_min l)"

fun node_max :: "('k, 'v) LlrbNode \<Rightarrow> ('k, 'v) LlrbNode" where
  "node_max (EmptyRep c) = EmptyRep c"
| "node_max (Rep e c s l r) = (if node_empty r then Rep e c s l r else node_max r)"

fun InnerInsert :: "'k cmp \<Rightarrow> ('k::default, 'v::default) LlrbNode \<Rightarrow> 'k \<Rightarrow> 'v
    \<Rightarrow> ('k, 'v) LlrbNode" where
  "InnerInsert cmp (EmptyRep c) k v = make_Rep (k, v) Red Empty Empty"
| "InnerInsert cmp (Rep e c s l r) k v =
     (if node_empty (Rep e c s l r) then make_Rep (k, v) Red Empty Empty
      else case cmp (fst e) k of
             Descending \<Rightarrow> FixUp (set_left (Rep e c s l r) (InnerInsert cmp l k v))
           | Ascending \<Rightarrow> FixUp (set_right (Rep e c s l r) (InnerInsert cmp r k v))
           | Same \<Rightarrow> set_value (Rep e c s l r) v)"

definition LlrbNode_insert :: "'k cmp \<Rightarrow> ('k::default, 'v::default) LlrbNode \<Rightarrow> 'k \<Rightarrow> 'v
    \<Rightarrow> ('k, 'v) LlrbNode" where
  "LlrbNode_insert cmp n k v = FixRootColor (InnerInsert cmp n k v)"

section \<open>Removal\<close>

text \<open>
  Removal recurses on children that the rotations have just rebuilt, so the recursion is not
  structural. The weight counts the nodes and the red empty nodes; it falls in every recursive
  call, for every tree whatever its shape.
\<close>

fun weight :: "('k, 'v) LlrbNode \<Rightarrow> nat" where
  "weight (EmptyRep c) = (if c = Red then 1 else 0)"
| "weight (Rep e c s l r) = Suc (weight l + weight r)"

definition flip :: "('k, 'v) LlrbNode \<Rightarrow> ('k, 'v) LlrbNode" where
  "flip n = set_color n (OppositeColor n)"

lemma flip_Rep: "flip (Rep e c s l r) = Rep e (if c = Red then Black else Red) s l r"
  by (simp add: flip_def OppositeColor_def)

lemma flip_Empty: "flip (EmptyRep c) = EmptyRep (if c = Red then Black else Red)"
  by (simp add: flip_def OppositeColor_def)

lemma flip_access [simp]:
  "left (flip n) = left n" "right (flip n) = right n" "node_size (flip n) = node_size n"
  "color (flip n) = (if color n = Red then Black else Red)"
  by (cases n; simp add: flip_Rep flip_Empty)+

lemma node_entry_flip [simp]: "node_entry (flip n) = node_entry n"
  by (cases n) (simp_all add: flip_Rep flip_Empty)

lemma make_Rep_access [simp]:
  "left (make_Rep e c l r) = l" "right (make_Rep e c l r) = r" "color (make_Rep e c l r) = c"
  "node_size (make_Rep e c l r) = size_field (node_size l + 1 + node_size r)"
  by (simp_all add: make_Rep_def)

lemma set_color_access [simp]:
  "left (set_color n c) = left n" "right (set_color n c) = right n" "color (set_color n c) = c"
  "node_size (set_color n c) = node_size n"
  by (cases n; simp)+

lemma RotateLeft_Rep:
  "RotateLeft (Rep e c s l r) = Rep (node_entry r) c s (make_Rep e Red l (left r)) (right r)"
  by (simp add: RotateLeft_def set_entry_def set_left_def set_right_def)

lemma RotateRight_Rep:
  "RotateRight (Rep e c s l r) = Rep (node_entry l) c s (left l) (make_Rep e Red (right l) r)"
  by (simp add: RotateRight_def set_entry_def set_left_def set_right_def)

lemma FlipColor_Rep:
  "FlipColor (Rep e c s l r) = Rep e (if c = Red then Black else Red) s (flip l) (flip r)"
  by (simp add: FlipColor_def set_left_def set_right_def flip_def OppositeColor_def Let_def)

lemmas llrb_ops = RotateLeft_Rep RotateRight_Rep FlipColor_Rep set_size_def set_entry_def
  set_value_def set_left_def set_right_def red_def

lemma not_node_empty_Rep: "\<not> node_empty n \<Longrightarrow> \<exists>e c s l r. n = Rep e c s l r"
  by (cases n) (auto simp: node_empty_def)

lemma weight_make_Rep [simp]: "weight (make_Rep e c l r) = Suc (weight l + weight r)"
  by (simp add: make_Rep_def)

lemma weight_flip: "n = Rep e c s l r \<Longrightarrow> weight (flip n) = weight n"
  by (simp add: flip_Rep)

lemma red_left_Rep: "color (left n) = Red \<Longrightarrow> \<exists>e c s l r. n = Rep e c s l r"
  by (cases n) auto

lemma weight_left_le: "weight (left n) \<le> weight n"
  by (cases n) auto

lemma weight_right_le: "weight (right n) \<le> weight n"
  by (cases n) auto

lemma weight_MoveRedLeft:
  assumes "\<not> node_empty (left n)"
  shows "weight (left (MoveRedLeft n)) < weight n"
proof -
  obtain e c s l r where n: "n = Rep e c s l r"
    using assms by (cases n) (auto simp: node_empty_def)
  then obtain e1 c1 s1 l1 r1 where l: "l = Rep e1 c1 s1 l1 r1"
    using assms not_node_empty_Rep by force
  show ?thesis
  proof (cases "color (left r) = Red")
    case True
    then obtain e2 c2 s2 l2 r2 where r: "r = Rep e2 c2 s2 l2 r2" using red_left_Rep by blast
    show ?thesis using weight_left_le[of l2] True
      by (simp add: n l r MoveRedLeft_def llrb_ops flip_Rep) (simp add: make_Rep_def flip_Rep)
  next
    case False
    then show ?thesis by (simp add: n l MoveRedLeft_def llrb_ops flip_Rep)
  qed
qed

lemma weight_RotateRight:
  "red (left n) \<Longrightarrow> weight (right (RotateRight n)) < weight n"
proof -
  assume "red (left n)"
  then obtain e c s l r where n: "n = Rep e c s l r" and l: "color l = Red"
    by (cases n) (auto simp: red_def)
  show ?thesis using l weight_right_le
    by (cases l) (auto simp: n llrb_ops)
qed

lemma weight_MoveRedRight:
  assumes "\<not> node_empty (right n)"
  shows "weight (right (MoveRedRight n)) < weight n"
proof -
  obtain e c s l r where n: "n = Rep e c s l r"
    using assms by (cases n) (auto simp: node_empty_def)
  then obtain e1 c1 s1 l1 r1 where r: "r = Rep e1 c1 s1 l1 r1"
    using assms not_node_empty_Rep by force
  show ?thesis
  proof (cases "color (left l) = Red")
    case True
    then obtain e2 c2 s2 l2 r2 where l: "l = Rep e2 c2 s2 l2 r2" using red_left_Rep by blast
    show ?thesis using True
      by (simp add: n l r MoveRedRight_def llrb_ops flip_Rep) (simp add: make_Rep_def flip_Rep)
  next
    case False
    then show ?thesis by (simp add: n r MoveRedRight_def llrb_ops flip_Rep)
  qed
qed

lemma weight_left_less: "\<not> node_empty n \<Longrightarrow> weight (left n) < weight n"
  by (cases n) (auto simp: node_empty_def)

lemma weight_right_less: "\<not> node_empty n \<Longrightarrow> weight (right n) < weight n"
  by (cases n) (auto simp: node_empty_def)

lemma weight_RemoveMin_step:
  "\<not> node_empty (left n) \<Longrightarrow> weight (left (if P then MoveRedLeft n else n)) < weight n"
  using weight_MoveRedLeft[of n] by (cases n) (auto simp: node_empty_def)

lemma weight_InnerErase_left:
  "\<not> node_empty n \<Longrightarrow>
   weight (left (if \<not> node_empty (left n) \<and> P then MoveRedLeft n else n)) < weight n"
  using weight_MoveRedLeft[of n] weight_left_less[of n] by simp

lemma weight_InnerErase_right:
  assumes "\<not> node_empty n" and "n1 = (if red (left n) then RotateRight n else n)"
  shows "weight (right (if \<not> node_empty (right n1) \<and> \<not> red (right n1) \<and> P
                        then MoveRedRight n1 else n1)) < weight n"
proof (cases "red (left n)")
  case True
  then have "red (right n1)" using assms by (cases n) (simp_all add: llrb_ops)
  then show ?thesis using True weight_RotateRight[of n] assms by simp
next
  case False
  then show ?thesis using weight_right_less[of n] weight_MoveRedRight[of n] assms by simp
qed

text \<open>\<^verbatim>\<open>RemoveMin\<close> mutates a fresh clone, so it is a function on nodes.\<close>

function RemoveMin :: "('k::default, 'v::default) LlrbNode \<Rightarrow> ('k, 'v) LlrbNode" where
  "RemoveMin n =
     (if node_empty (left n) then Empty
      else let n1 = (if \<not> red (left n) \<and> \<not> red (left (left n)) then MoveRedLeft n else n)
           in FixUp (set_left n1 (RemoveMin (left n1))))"
  by pat_completeness auto
termination
  by (relation "measure weight") (simp_all only: wf_measure in_measure weight_RemoveMin_step not_False_eq_True)

declare RemoveMin.simps [simp del]

function InnerErase :: "'k cmp \<Rightarrow> ('k::default, 'v::default) LlrbNode \<Rightarrow> 'k \<Rightarrow> ('k, 'v) LlrbNode"
where
  "InnerErase cmp n k =
     (if node_empty n then Empty
      else if cmp k (node_key n) = Ascending then
        let n1 = (if \<not> node_empty (left n) \<and> \<not> red (left n) \<and> \<not> red (left (left n))
                  then MoveRedLeft n else n)
        in FixUp (set_left n1 (InnerErase cmp (left n1) k))
      else
        let n1 = (if red (left n) then RotateRight n else n);
            n2 = (if \<not> node_empty (right n1) \<and> \<not> red (right n1) \<and> \<not> red (left (right n1))
                  then MoveRedRight n1 else n1)
        in if cmp k (node_key n2) = Same then
             if node_empty (right n2) then Empty
             else FixUp (set_right (set_entry n2 (node_entry (node_min (right n2))))
                          (RemoveMin (right n2)))
           else FixUp (set_right n2 (InnerErase cmp (right n2) k)))"
  by pat_completeness auto
termination
  by (relation "measure (\<lambda>(cmp, n, k). weight n)")
     (simp_all only: wf_measure in_measure prod.case weight_InnerErase_left weight_InnerErase_right
       not_False_eq_True)

declare InnerErase.simps [simp del]

definition LlrbNode_erase :: "'k cmp \<Rightarrow> ('k::default, 'v::default) LlrbNode \<Rightarrow> 'k
    \<Rightarrow> ('k, 'v) LlrbNode" where
  "LlrbNode_erase cmp n k = FixRootColor (InnerErase cmp n k)"

section \<open>Abstraction and invariant\<close>

text \<open>The entries of a tree in iteration order.\<close>

fun entries :: "('k, 'v) LlrbNode \<Rightarrow> ('k \<times> 'v) list" where
  "entries (EmptyRep c) = []"
| "entries (Rep e c s l r) = entries l @ e # entries r"

text \<open>
  Every size field is the number of entries below it and fits its 31 bits; every empty node is
  the black shared one.
\<close>

fun sized :: "('k, 'v) LlrbNode \<Rightarrow> bool" where
  "sized (EmptyRep c) \<longleftrightarrow> c = Black"
| "sized (Rep e c s l r) \<longleftrightarrow>
     s = length (entries l) + 1 + length (entries r) \<and> s < 2 ^ 31 \<and> sized l \<and> sized r"

fun black_height :: "('k, 'v) LlrbNode \<Rightarrow> nat" where
  "black_height (EmptyRep c) = 0"
| "black_height (Rep e c s l r) = (if c = Black then 1 else 0) + black_height l"

fun balanced :: "('k, 'v) LlrbNode \<Rightarrow> bool" where
  "balanced (EmptyRep c) \<longleftrightarrow> True"
| "balanced (Rep e c s l r) \<longleftrightarrow> black_height l = black_height r \<and> balanced l \<and> balanced r"

text \<open>No red right child and no red node with a red left child.\<close>

fun left_leaning :: "('k, 'v) LlrbNode \<Rightarrow> bool" where
  "left_leaning (EmptyRep c) \<longleftrightarrow> c = Black"
| "left_leaning (Rep e c s l r) \<longleftrightarrow>
     left_leaning l \<and> left_leaning r \<and> \<not> red r \<and> (c = Red \<longrightarrow> \<not> red l)"

definition good :: "('k, 'v) LlrbNode \<Rightarrow> bool" where
  "good n \<longleftrightarrow> left_leaning n \<and> balanced n \<and> sized n"

definition llrb_inv :: "'k cmp \<Rightarrow> ('k, 'v) LlrbNode \<Rightarrow> bool" where
  "llrb_inv cmp n \<longleftrightarrow> good n \<and> \<not> red n \<and> sorted_entries cmp (entries n)"

lemma sized_node_size [simp]: "sized n \<Longrightarrow> node_size n = length (entries n)"
  by (cases n) simp_all

lemma sized_node_empty: "sized n \<Longrightarrow> node_empty n \<longleftrightarrow> n = Empty"
  by (cases n) (simp_all add: node_empty_def)

lemma sized_red_Rep: "sized n \<Longrightarrow> red n \<Longrightarrow> \<exists>e s l r. n = Rep e Red s l r"
  by (cases n) (simp_all add: red_def)

lemma goodD: assumes "good n" shows "left_leaning n" "balanced n" "sized n"
  using assms by (simp_all add: good_def)

lemma good_Empty [simp]: "good (EmptyRep c) \<longleftrightarrow> c = Black"
  by (auto simp: good_def)

lemma good_Rep:
  "good (Rep e c s l r) \<longleftrightarrow>
     good l \<and> good r \<and> black_height l = black_height r \<and> \<not> red r \<and> (c = Red \<longrightarrow> \<not> red l) \<and>
     s = length (entries l) + 1 + length (entries r) \<and> s < 2 ^ 31"
  by (auto simp: good_def)

lemma size_field_id [simp]: "n < 2 ^ 31 \<Longrightarrow> size_field n = n"
  by (simp add: size_field_def)

lemma entries_flip [simp]: "entries (flip n) = entries n"
  by (cases n) (simp_all add: flip_Rep flip_Empty)

lemma entries_set_color [simp]: "entries (set_color n c) = entries n"
  by (cases n) simp_all

lemma entries_make_Rep [simp]: "entries (make_Rep e c l r) = entries l @ e # entries r"
  by (simp add: make_Rep_def)

lemma good_make_Rep:
  "good l \<Longrightarrow> good r \<Longrightarrow> length (entries l) + 1 + length (entries r) < 2 ^ 31 \<Longrightarrow>
   make_Rep e c l r = Rep e c (length (entries l) + 1 + length (entries r)) l r"
  by (simp add: make_Rep_def goodD)

lemma red_Rep [simp]: "red (Rep e c s l r) \<longleftrightarrow> c = Red"
  by (simp add: red_def)

lemma red_EmptyRep [simp]: "red (EmptyRep c) \<longleftrightarrow> c = Red"
  by (simp add: red_def)

lemma not_Red [simp]: "c \<noteq> Red \<longleftrightarrow> c = Black"
  by (cases c) simp_all

lemma good_red_ex:
  "good n \<Longrightarrow> red n \<Longrightarrow> \<exists>e s l r. n = Rep e Red s l r \<and> \<not> red l \<and> \<not> red r \<and> good l \<and> good r \<and>
     black_height l = black_height r"
  by (cases n) (auto simp: good_Rep)

section \<open>FixUp\<close>

text \<open>
  What \<open>FixUp\<close> does to a node whose children are good but may both be red: a black node becomes
  good again; a red node becomes good once its colour is set to black.
\<close>

lemma FixUp_cases:
  "FixUp (Rep e c s l r) =
     (let n0 = Rep e c (size_field (node_size l + 1 + node_size r)) l r;
          n1 = (if red r \<and> \<not> red l then RotateLeft n0 else n0);
          n2 = (if red (left n1) \<and> red (left (left n1)) then RotateRight n1 else n1)
      in if red (left n2) \<and> red (right n2) then FlipColor n2 else n2)"
  by (simp add: FixUp_def set_size_def)

lemma FixUp_good:
  assumes l: "good l" and r: "good r" and bh: "black_height l = black_height r"
    and len: "length (entries l) + 1 + length (entries r) < 2 ^ 31"
    and t: "t = FixUp (Rep e c s l r)"
  shows "entries t = entries l @ e # entries r" "balanced t" "sized t"
    "c = Black \<or> \<not> red l \<or> \<not> red r \<Longrightarrow>
       black_height t = (if c = Black then 1 else 0) + black_height l"
    "c = Black \<Longrightarrow> good t" "c = Black \<Longrightarrow> \<not> red l \<or> \<not> red r \<Longrightarrow> \<not> red t"
    "\<not> red l \<Longrightarrow> \<not> red r \<Longrightarrow> good t"
    "left_leaning (set_color t Black)"
proof -
  have eqs: "node_size l = length (entries l)" "node_size r = length (entries r)"
    using l r by (simp_all add: goodD)
  consider (none) "\<not> red l" "\<not> red r" | (l) "red l" "\<not> red r" | (r) "\<not> red l" "red r" | (lr) "red l" "red r"
    by blast
  then have "entries t = entries l @ e # entries r \<and> balanced t \<and> sized t \<and>
    (c = Black \<or> \<not> red l \<or> \<not> red r \<longrightarrow>
      black_height t = (if c = Black then 1 else 0) + black_height l) \<and>
    (c = Black \<longrightarrow> good t) \<and> (c = Black \<longrightarrow> \<not> red l \<or> \<not> red r \<longrightarrow> \<not> red t) \<and>
    (\<not> red l \<longrightarrow> \<not> red r \<longrightarrow> good t) \<and> left_leaning (set_color t Black)"
  proof cases
    case none
    then have "t = Rep e c (length (entries l) + 1 + length (entries r)) l r"
      using t len eqs by (simp add: FixUp_cases)
    then show ?thesis using none l r bh len by (simp add: good_Rep goodD)
  next
    case l
    then obtain e1 s1 l1 r1 where L: "l = Rep e1 Red s1 l1 r1" "\<not> red l1"
      using good_red_ex[OF assms(1)] by blast
    then have "t = Rep e c (length (entries l) + 1 + length (entries r)) l r"
      using t len eqs l by (simp add: FixUp_cases Let_def)
    then show ?thesis using l L assms(1) r bh len by (simp add: good_Rep goodD)
  next
    case r
    then obtain e1 s1 l1 r1 where R: "r = Rep e1 Red s1 l1 r1" "\<not> red l1" "\<not> red r1" "good l1" "good r1"
      "black_height l1 = black_height r1"
      using good_red_ex[OF assms(2)] by blast
    then have "t = Rep e1 c (length (entries l) + 1 + length (entries r))
        (Rep e Red (length (entries l) + 1 + length (entries l1)) l l1) r1"
      using t len eqs r l by (simp add: FixUp_cases Let_def llrb_ops make_Rep_def goodD)
    then show ?thesis using r R l assms(2) bh len by (simp add: good_Rep goodD)
  next
    case lr
    obtain e1 s1 l1 r1 where L: "l = Rep e1 Red s1 l1 r1" "\<not> red l1"
      using good_red_ex[OF assms(1)] lr by blast
    obtain e2 s2 l2 r2 where R: "r = Rep e2 Red s2 l2 r2"
      using good_red_ex[OF assms(2)] lr by blast
    have "t = Rep e (if c = Red then Black else Red) (length (entries l) + 1 + length (entries r))
        (Rep e1 Black s1 l1 r1) (Rep e2 Black s2 l2 r2)"
      using t len eqs L R by (simp add: FixUp_cases Let_def llrb_ops flip_Rep)
    then show ?thesis using L R assms(1,2) bh len by (cases c) (simp_all add: good_Rep goodD)
  qed
  then show "entries t = entries l @ e # entries r" "balanced t" "sized t"
    "c = Black \<or> \<not> red l \<or> \<not> red r \<Longrightarrow>
       black_height t = (if c = Black then 1 else 0) + black_height l"
    "c = Black \<Longrightarrow> good t" "c = Black \<Longrightarrow> \<not> red l \<or> \<not> red r \<Longrightarrow> \<not> red t"
    "\<not> red l \<Longrightarrow> \<not> red r \<Longrightarrow> good t"
    "left_leaning (set_color t Black)"
    by blast+
qed

text \<open>
  During insertion a red node may get a red left child: it is good once painted black. The black
  node above it repairs this.
\<close>

definition almost_good :: "('k, 'v) LlrbNode \<Rightarrow> bool" where
  "almost_good n \<longleftrightarrow> left_leaning (set_color n Black) \<and> balanced n \<and> sized n"

lemma almost_good_cases:
  assumes "almost_good n"
  shows "good n \<or> (\<exists>e s e1 s1 l1 r1 r. n = Rep e Red s (Rep e1 Red s1 l1 r1) r \<and>
     good (Rep e1 Red s1 l1 r1) \<and> good r \<and> \<not> red r \<and>
     black_height l1 = black_height r \<and> s = length (entries n) \<and> s < 2 ^ 31)"
proof (cases n)
  case (Rep e c s l r)
  show ?thesis
  proof (cases "good n")
    case False
    then have c: "c = Red" and l: "red l" "left_leaning l" "balanced l" "sized l"
      using assms Rep by (auto simp: almost_good_def good_def)
    obtain e1 s1 l1 r1 where "l = Rep e1 Red s1 l1 r1" using l sized_red_Rep by blast
    then show ?thesis using assms c l Rep by (auto simp: almost_good_def good_def)
  qed simp
qed (use assms in \<open>simp add: almost_good_def\<close>)

lemma FixUp_almost_good:
  assumes l: "l = Rep e1 Red s1 (Rep e2 Red s2 l2 r2) r1" "good (Rep e2 Red s2 l2 r2)" "good r1"
      "\<not> red r1" "black_height l2 = black_height r1"
      "s1 = length (entries l)" "s1 < 2 ^ 31"
    and r: "good r" "\<not> red r" and bh: "black_height l = black_height r"
    and len: "length (entries l) + 1 + length (entries r) < 2 ^ 31"
    and t: "t = FixUp (Rep e Black s l r)"
  shows "good t" "entries t = entries l @ e # entries r" "black_height t = 1 + black_height l"
proof -
  have b: "s1 + 1 + length (entries r) < 2 ^ 31" using len l(6) by simp
  have b': "length (entries r1) + 1 + length (entries r) < 2 ^ 31" using len l(1) by simp
  have "t = Rep e1 Red (s1 + 1 + length (entries r))
      (Rep e2 Black s2 l2 r2) (Rep e Black (length (entries r1) + 1 + length (entries r)) r1 r)"
    unfolding t l(1) using l(3,4) r b b'
    by (simp add: FixUp_cases llrb_ops flip_Rep make_Rep_def goodD)
  moreover have "s1 = length (entries (Rep e2 Red s2 l2 r2)) + 1 + length (entries r1)"
    using l(6) unfolding l(1) by simp
  ultimately show "good t" "entries t = entries l @ e # entries r"
    "black_height t = 1 + black_height l"
    using l(2-5) r bh b b' unfolding l(1) by (simp_all add: good_Rep)
qed

section \<open>Insertion is correct\<close>

lemma almost_goodD: "almost_good n \<Longrightarrow> balanced n \<and> sized n"
  by (simp add: almost_good_def)

lemma good_almost_good: "good n \<Longrightarrow> almost_good n"
  by (cases n) (auto simp: almost_good_def good_def)

lemma FixUp_almost_good_left:
  assumes l: "almost_good l" and r: "good r" "\<not> red r" and bh: "black_height l = black_height r"
    and len: "length (entries l) + 1 + length (entries r) < 2 ^ 31"
    and c: "c = Red \<Longrightarrow> good l"
    and t: "t = FixUp (Rep e c s l r)"
  shows "almost_good t" "entries t = entries l @ e # entries r"
    "black_height t = (if c = Black then 1 else 0) + black_height l" "c = Black \<Longrightarrow> good t"
proof -
  have "almost_good t \<and> entries t = entries l @ e # entries r \<and>
    black_height t = (if c = Black then 1 else 0) + black_height l \<and> (c = Black \<longrightarrow> good t)"
  proof (cases "good l")
    case True
    note F = FixUp_good[OF True r(1) bh len t]
    show ?thesis using F r(2) by (auto simp: almost_good_def)
  next
    case False
    then have c: "c = Black" using c by (cases c) auto
    obtain e1 s1 e2 s2 l2 r2 r1 where L: "l = Rep e1 Red s1 (Rep e2 Red s2 l2 r2) r1"
      "good (Rep e2 Red s2 l2 r2)" "good r1" "\<not> red r1" "black_height l2 = black_height r1"
      "s1 = length (entries l)" "s1 < 2 ^ 31"
      using almost_good_cases[OF l] False by blast
    note F = FixUp_almost_good[OF L r bh len t[unfolded c]]
    show ?thesis using F c by (simp add: good_almost_good)
  qed
  then show "almost_good t" "entries t = entries l @ e # entries r"
    "black_height t = (if c = Black then 1 else 0) + black_height l" "c = Black \<Longrightarrow> good t" by blast+
qed

section \<open>The moves of a removal\<close>

text \<open>
  A removal only descends into a subtree whose root, or whose left child, is red; after
  \<open>MoveRedRight\<close> the red node may also be the right child, but then the key lies on its side.
\<close>

definition erasable :: "'k cmp \<Rightarrow> ('k, 'v) LlrbNode \<Rightarrow> 'k \<Rightarrow> bool" where
  "erasable cmp n k \<longleftrightarrow> n = Empty \<or>
     (\<exists>e c s l r. n = Rep e c s l r \<and> good l \<and> good r \<and> black_height l = black_height r \<and>
        s = length (entries l) + 1 + length (entries r) \<and> s < 2 ^ 31 \<and>
        (c = Red \<and> \<not> red l \<and> \<not> red r \<or>
         c = Black \<and> red l \<and> \<not> red r \<or>
         c = Black \<and> \<not> red l \<and> red r \<and> cmp k (fst e) \<noteq> Ascending))"

lemma erasable_good: "good n \<Longrightarrow> red n \<or> red (left n) \<Longrightarrow> erasable cmp n k"
  by (cases n) (auto simp: erasable_def good_Rep)

lemma erasable_goodI: "good n \<Longrightarrow> n = Empty \<or> red n \<or> red (left n) \<Longrightarrow> erasable cmp n k"
  using erasable_good[of n cmp k] by (auto simp: erasable_def)

lemma good_black_height_0: "good n \<Longrightarrow> \<not> red n \<Longrightarrow> black_height n = 0 \<longleftrightarrow> n = Empty"
  by (cases n) auto

lemma good_flip_black:
  "good n \<Longrightarrow> n \<noteq> Empty \<Longrightarrow> \<not> red n \<Longrightarrow> \<not> red (left n) \<Longrightarrow>
   good (flip n) \<and> red (flip n) \<and> Suc (black_height (flip n)) = black_height n"
  by (cases n) (auto simp: good_Rep flip_Rep)

lemma MoveRedLeft_spec:
  assumes g: "good l" "good r" "black_height l = black_height r" "\<not> red l" "\<not> red r"
      "\<not> red (left l)" "l \<noteq> Empty"
    and len: "length (entries l) + 1 + length (entries r) < 2 ^ 31"
  shows "\<exists>e1 c1 l1 r1. MoveRedLeft (Rep e c s l r) = Rep e1 c1 s l1 r1 \<and>
    entries l1 @ e1 # entries r1 = entries l @ e # entries r \<and> (e1 = e \<or> e \<in> set (entries l1)) \<and>
    good l1 \<and> good r1 \<and> black_height l1 = black_height r1 \<and>
    (red l1 \<or> red (left l1) \<and> \<not> red l1 \<and> \<not> red r1) \<and>
    (if red l1 then c1 \<noteq> c \<and> red r1 \<and> Suc (black_height l1) = black_height l
     else c1 = c \<and> black_height l1 = black_height l)"
proof -
  have r: "r \<noteq> Empty" using g good_black_height_0[of l] good_black_height_0[of r] by auto
  note fl = good_flip_black[OF g(1,7,4,6)]
  have l: "\<exists>e1 s1 l1 r1. l = Rep e1 Black s1 l1 r1" using g(1,4,7) by (cases l) auto
  show ?thesis
  proof (cases "red (left r)")
    case False
    then have "MoveRedLeft (Rep e c s l r) = Rep e (if c = Red then Black else Red) s (flip l) (flip r)"
      using r by (simp add: MoveRedLeft_def FlipColor_Rep Let_def)
    then show ?thesis using fl good_flip_black[OF g(2) r g(5) False] g(3) by (auto split: if_splits)
  next
    case True
    obtain e2 s2 e3 s3 l3 r3 r2 where R: "r = Rep e2 Black s2 (Rep e3 Red s3 l3 r3) r2"
      using g(2,5) r True good_red_ex by (cases r) (force simp: good_Rep)+
    obtain e1 s1 l1 r1 where L: "l = Rep e1 Black s1 l1 r1" using l by blast
    have sz: "length (entries l) + 1 + length (entries l3) < 2 ^ 31"
      "length (entries r3) + 1 + length (entries r2) < 2 ^ 31"
      using len R by simp_all
    have gs: "good l3" "good r3" "good r2" "\<not> red l3" "\<not> red r3" "\<not> red r2"
      "black_height l3 = black_height r3" "black_height l3 = black_height r2"
      "black_height l = Suc (black_height r2)"
      using g(2,3) by (auto simp: R good_Rep)
    have "MoveRedLeft (Rep e c s l r) = Rep e3 c s
       (Rep e Black (length (entries l) + 1 + length (entries l3)) (flip l) l3)
       (Rep e2 Black (length (entries r3) + 1 + length (entries r2)) r3 r2)"
      using sz gs goodD(3)[OF g(1)]
      by (cases c)
         (simp_all add: MoveRedLeft_def R llrb_ops flip_Rep make_Rep_def goodD)
    then show ?thesis using gs fl sz by (auto simp: R good_Rep)
  qed
qed

lemma MoveRedRight_spec:
  assumes g: "good l" "good r" "black_height l = black_height r" "\<not> red l" "\<not> red r"
      "\<not> red (left r)" "r \<noteq> Empty"
    and len: "length (entries l) + 1 + length (entries r) < 2 ^ 31"
  shows "\<exists>e1 c1 l1 r1. MoveRedRight (Rep e c s l r) = Rep e1 c1 s l1 r1 \<and>
    entries l1 @ e1 # entries r1 = entries l @ e # entries r \<and> good l1 \<and>
    (if c1 = c
     then (\<exists>s2 l2 r2. r1 = Rep e Black s2 l2 r2 \<and> good l2 \<and> good r2 \<and> \<not> red l2 \<and> red r2 \<and>
            s2 = length (entries l2) + 1 + length (entries r2) \<and> s2 < 2 ^ 31 \<and> black_height l2 = black_height r2 \<and>
            (\<exists>ys. entries l = ys @ e1 # entries l2)) \<and>
          \<not> red l1 \<and> black_height l1 = black_height l \<and> black_height r1 = black_height l
     else e1 = e \<and> good r1 \<and> red l1 \<and> red r1 \<and> black_height l1 = black_height r1 \<and>
          Suc (black_height l1) = black_height l)"
proof -
  have l: "l \<noteq> Empty" using g good_black_height_0[of l] good_black_height_0[of r] by auto
  note fr = good_flip_black[OF g(2,7,5,6)]
  show ?thesis
  proof (cases "red (left l)")
    case False
    then have "MoveRedRight (Rep e c s l r) = Rep e (if c = Red then Black else Red) s (flip l) (flip r)"
      using l by (simp add: MoveRedRight_def FlipColor_Rep Let_def)
    then show ?thesis using fr good_flip_black[OF g(1) l g(4) False] g(3) by (auto split: if_splits)
  next
    case True
    obtain e2 s2 e3 s3 l3 r3 r2 where L: "l = Rep e2 Black s2 (Rep e3 Red s3 l3 r3) r2"
      using g(1,4) l True good_red_ex by (cases l) (force simp: good_Rep)+
    have sz: "length (entries r2) + 1 + length (entries r) < 2 ^ 31"
      "length (entries l3) + 1 + length (entries r3) < 2 ^ 31"
      using len L by simp_all
    have gs: "good l3" "good r3" "good r2" "\<not> red l3" "\<not> red r3" "\<not> red r2"
      "black_height l3 = black_height r3" "black_height l3 = black_height r2"
      "black_height r = Suc (black_height r2)" "s3 = length (entries l3) + 1 + length (entries r3)"
      using g(1,3) by (auto simp: L good_Rep)
    have "MoveRedRight (Rep e c s l r) = Rep e2 c s (Rep e3 Black s3 l3 r3)
       (Rep e Black (length (entries r2) + 1 + length (entries r)) r2 (flip r))"
      using sz gs goodD(3)[OF g(2)]
      by (cases c)
         (simp_all add: MoveRedRight_def L llrb_ops flip_Rep make_Rep_def goodD)
    then show ?thesis using gs fr sz by (auto simp: L good_Rep)
  qed
qed

lemma entries_eq_Nil: "entries n = [] \<longleftrightarrow> (\<exists>c. n = EmptyRep c)"
  by (cases n) simp_all

lemma good_entries_Nil: "good n \<Longrightarrow> entries n = [] \<longleftrightarrow> n = Empty"
  by (cases n) simp_all

lemma node_min_entry: "good n \<Longrightarrow> n \<noteq> Empty \<Longrightarrow> node_entry (node_min n) = hd (entries n)"
proof (induction n)
  case (Rep e c s l r)
  then have "good l" by (simp add: good_Rep)
  then show ?case using Rep.IH
    by (cases "l = Empty") (auto simp: sized_node_empty goodD good_entries_Nil hd_append)
qed simp

lemma node_max_entry: "good n \<Longrightarrow> n \<noteq> Empty \<Longrightarrow> node_entry (node_max n) = last (entries n)"
proof (induction n)
  case (Rep e c s l r)
  then have "good r" by (simp add: good_Rep)
  then show ?case using Rep.IH
    by (cases "r = Empty") (auto simp: sized_node_empty goodD good_entries_Nil)
qed simp

text \<open>One level of the descent to the left, shared by \<open>RemoveMin\<close> and \<open>InnerErase\<close>.\<close>

lemma left_step:
  assumes n: "n = Rep e c s l r" "good l" "good r" "black_height l = black_height r" "\<not> red r"
      "s = length (entries l) + 1 + length (entries r)" "s < 2 ^ 31"
    and c: "c = Red \<and> \<not> red l \<or> c = Black \<and> red l"
    and n1: "n1 = (if \<not> node_empty (left n) \<and> \<not> red (left n) \<and> \<not> red (left (left n))
                   then MoveRedLeft n else n)"
    and len: "length (entries l') \<le> length (entries (left n1))"
    and l': "good l'" "black_height l' = black_height (left n1)" "\<not> red (left n1) \<longrightarrow> \<not> red l'"
    and t: "t = FixUp (set_left n1 l')"
  shows "good t \<and> black_height t = black_height n \<and> (\<not> red n \<longrightarrow> \<not> red t) \<and>
    (\<exists>e1 r1. entries (left n1) @ e1 # r1 = entries n \<and> entries t = entries l' @ e1 # r1 \<and>
       (e1 = e \<or> e \<in> set (entries (left n1))))"
proof (cases "\<not> node_empty l \<and> \<not> red l \<and> \<not> red (left l)")
  case True
  then have c: "c = Red" and l: "l \<noteq> Empty" "\<not> red l" "\<not> red (left l)"
    using c by (auto simp: node_empty_def)
  obtain e1 c1 l1 r1 where M: "MoveRedLeft n = Rep e1 c1 s l1 r1"
    "entries l1 @ e1 # entries r1 = entries l @ e # entries r" "good l1" "good r1"
    "black_height l1 = black_height r1" "red l1 \<or> red (left l1) \<and> \<not> red l1 \<and> \<not> red r1"
    "if red l1 then c1 \<noteq> c \<and> red r1 \<and> Suc (black_height l1) = black_height l
     else c1 = c \<and> black_height l1 = black_height l" "e1 = e \<or> e \<in> set (entries l1)"
    using MoveRedLeft_spec[OF n(2-4) l(2) n(5) l(3,1), of e c s] n(1,6,7) by auto
  have n1': "n1 = Rep e1 c1 s l1 r1" using n1 True M(1) n(1) by simp
  have L: "length (entries l') + 1 + length (entries r1) < 2 ^ 31"
    using arg_cong[OF M(2), of length] len n(6,7) n1' by simp
  have t': "t = FixUp (Rep e1 c1 s l' r1)" using t n1' by (simp add: set_left_def)
  have bh: "black_height l' = black_height r1" using l' n1' M(5) by simp
  note F = FixUp_good[OF l'(1) M(4) bh L t']
  have "\<exists>e1 r1. entries (left n1) @ e1 # r1 = entries n \<and> entries t = entries l' @ e1 # r1 \<and>
      (e1 = e \<or> e \<in> set (entries (left n1)))"
    using F(1) M(2,8) n1' n(1) by (intro exI[of _ e1] exI[of _ "entries r1"]) simp
  moreover have "good t \<and> black_height t = black_height n \<and> (\<not> red n \<longrightarrow> \<not> red t)"
    using F M l' n1' c n(1) by (cases "red l1") (auto simp: n)
  ultimately show ?thesis by blast
next
  case False
  then have n1': "n1 = n" using n1 n(1) by auto
  have L: "length (entries l') + 1 + length (entries r) < 2 ^ 31" using n len n1' by simp
  have t': "t = FixUp (Rep e c s l' r)" using t n1' n by (simp add: set_left_def)
  have bh: "black_height l' = black_height r" using l' n n1' by simp
  note F = FixUp_good[OF l'(1) n(3) bh L t']
  have "\<exists>e1 r1. entries (left n1) @ e1 # r1 = entries n \<and> entries t = entries l' @ e1 # r1 \<and>
      (e1 = e \<or> e \<in> set (entries (left n1)))"
    using F(1) n1' n(1) by (intro exI[of _ e] exI[of _ "entries r"]) simp
  moreover have "good t \<and> black_height t = black_height n \<and> (\<not> red n \<longrightarrow> \<not> red t)"
    using F c l' n n1' by auto
  ultimately show ?thesis by blast
qed

lemma left_step_child:
  assumes n: "n = Rep e c s l r" "good l" "good r" "black_height l = black_height r" "\<not> red r"
      "s = length (entries l) + 1 + length (entries r)" "s < 2 ^ 31"
    and c: "c = Red \<and> \<not> red l \<or> c = Black \<and> red l"
    and n1: "n1 = (if \<not> node_empty (left n) \<and> \<not> red (left n) \<and> \<not> red (left (left n))
                   then MoveRedLeft n else n)"
  shows "good (left n1) \<and> (left n1 = Empty \<or> red (left n1) \<or> red (left (left n1))) \<and>
    (left n1 = Empty \<longleftrightarrow> l = Empty) \<and> (\<exists>e1 r1. entries (left n1) @ e1 # r1 = entries n)"
proof (cases "\<not> node_empty l \<and> \<not> red l \<and> \<not> red (left l)")
  case True
  then have l: "l \<noteq> Empty" "\<not> red l" "\<not> red (left l)" by (auto simp: node_empty_def)
  obtain e1 c1 l1 r1 where "MoveRedLeft n = Rep e1 c1 s l1 r1" "good l1"
    "red l1 \<or> red (left l1)" "entries l1 @ e1 # entries r1 = entries l @ e # entries r"
    using MoveRedLeft_spec[OF n(2-4) l(2) n(5) l(3,1), of e c s] n(1,6,7) by auto
  then show ?thesis using n1 n(1) True l by (auto simp del: split_paired_Ex)
next
  case False
  then have "n1 = n" using n1 n by auto
  then show ?thesis using False n by (auto simp: sized_node_empty goodD simp del: split_paired_Ex)
qed

lemma RemoveMin_correct:
  assumes "good n" "n \<noteq> Empty" "red n \<or> red (left n)"
  shows "good (RemoveMin n) \<and> black_height (RemoveMin n) = black_height n \<and>
    (\<not> red n \<longrightarrow> \<not> red (RemoveMin n)) \<and> entries (RemoveMin n) = tl (entries n)"
  using assms
proof (induction n rule: RemoveMin.induct)
  case (1 n)
  obtain e c s l r where n: "n = Rep e c s l r" using 1 by (cases n) auto
  have g: "good l" "good r" "black_height l = black_height r" "\<not> red r"
    "s = length (entries l) + 1 + length (entries r)" "s < 2 ^ 31"
    "c = Red \<and> \<not> red l \<or> c = Black \<and> red l"
    using "1.prems" by (auto simp: n good_Rep)
  show ?case
  proof (cases "l = Empty")
    case True
    then have "r = Empty" using g good_black_height_0[of r] by auto
    then show ?thesis using True n g by (simp add: RemoveMin.simps node_empty_def)
  next
    case False
    then have ne: "\<not> node_empty (left n)" using g n by (simp add: sized_node_empty goodD)
    define n1 where "n1 = (if \<not> node_empty (left n) \<and> \<not> red (left n) \<and> \<not> red (left (left n))
                           then MoveRedLeft n else n)"
    note ch = left_step_child[OF n g n1_def]
    have ch: "good (left n1)" "left n1 \<noteq> Empty" "red (left n1) \<or> red (left (left n1))"
      using ch False by auto
    have IH: "good (RemoveMin (left n1)) \<and> black_height (RemoveMin (left n1)) = black_height (left n1) \<and>
      (\<not> red (left n1) \<longrightarrow> \<not> red (RemoveMin (left n1))) \<and>
      entries (RemoveMin (left n1)) = tl (entries (left n1))"
      using "1.IH"[OF ne, of n1] ch ne n1_def by simp
    define t where "t = FixUp (set_left n1 (RemoveMin (left n1)))"
    have t: "RemoveMin n = t"
      using ne by (subst RemoveMin.simps) (simp add: t_def n1_def Let_def)
    have "length (entries (RemoveMin (left n1))) \<le> length (entries (left n1))" using IH by simp
    from left_step[OF n g n1_def this _ _ _ t_def] IH
    obtain e1 r1 where "good t" "black_height t = black_height n" "\<not> red n \<longrightarrow> \<not> red t"
      "entries (left n1) @ e1 # r1 = entries n" "entries t = tl (entries (left n1)) @ e1 # r1"
      by auto
    then show ?thesis unfolding t using ch good_entries_Nil[OF ch(1)]
      by (metis tl_append2)
  qed
qed

text \<open>A comparator on keys that have a default constructor.\<close>

locale key_comparator = comparator cmp
  for cmp :: "'k::default cmp"
begin

lemma InnerInsert_correct:
  assumes "good n" "sorted_entries cmp (entries n)" "Suc (length (entries n)) < 2 ^ 31"
  shows "almost_good (InnerInsert cmp n k v) \<and> (\<not> red n \<longrightarrow> good (InnerInsert cmp n k v)) \<and>
    black_height (InnerInsert cmp n k v) = black_height n \<and>
    entries (InnerInsert cmp n k v) = upd_entries cmp k v (entries n)"
  using assms
proof (induction n)
  case (EmptyRep c)
  then show ?case by (simp add: make_Rep_def almost_good_def good_Rep)
next
  case (Rep e c s l r)
  obtain a b where e: "e = (a, b)" by force
  from Rep.prems have g: "good l" "good r" "black_height l = black_height r" "\<not> red r"
    "c = Red \<Longrightarrow> \<not> red l" and s: "s = length (entries l) + 1 + length (entries r)" "s < 2 ^ 31"
    by (simp_all add: good_Rep)
  from Rep.prems have so: "sorted_entries cmp (entries l)" "sorted_entries cmp (entries r)"
    "entries_below cmp (entries l) a" "entries_above cmp (entries r) a"
    by (simp_all add: sorted_entries_mid e)
  have ne: "\<not> node_empty (Rep e c s l r)" by (simp add: node_empty_def s)
  have len: "Suc (Suc (length (entries l) + length (entries r))) < 2 ^ 31"
    using Rep.prems by simp
  show ?case
  proof (cases "cmp a k")
    case Ascending
    define r' where "r' = InnerInsert cmp r k v"
    have IH: "good r'" "black_height r' = black_height r" "entries r' = upd_entries cmp k v (entries r)"
      using Rep.IH(2)[OF g(2) so(2)] len g(4) unfolding r'_def by simp_all
    have len': "length (entries l) + 1 + length (entries r') < 2 ^ 31"
      using len length_upd_entries[of k v "entries r"] IH by simp
    have bh: "black_height l = black_height r'" using g IH by simp
    define t where "t = FixUp (Rep e c s l r')"
    have t: "InnerInsert cmp (Rep e c s l r) k v = t"
      using ne Ascending e by (simp add: t_def r'_def set_right_def)
    note F = FixUp_good[OF g(1) IH(1) bh len' t_def]
    have "entries_below cmp (entries l) k"
      using so(3) entries_below_trans[of _ a k] Ascending by simp
    then have "upd_entries cmp k v (entries l @ e # entries r) = entries l @ e # entries r'"
      using Ascending IH by (simp add: upd_entries_below e)
    then show ?thesis unfolding t using F g(5) by (cases c) (auto simp: almost_good_def)
  next
    case Same
    then have t: "InnerInsert cmp (Rep e c s l r) k v = Rep (a, v) c s l r"
      using ne e by (simp add: set_value_def)
    have "entries_below cmp (entries l) k"
      using so(3) entries_below_trans[of _ a k] Same by simp
    then have "upd_entries cmp k v (entries l @ e # entries r) = entries l @ (a, v) # entries r"
      using Same by (simp add: upd_entries_below e)
    moreover have "good (Rep (a, v) c s l r)" using Rep.prems by (simp add: good_Rep)
    ultimately show ?thesis unfolding t by (auto simp: good_almost_good)
  next
    case Descending
    define l' where "l' = InnerInsert cmp l k v"
    have IH: "almost_good l'" "\<not> red l \<Longrightarrow> good l'" "black_height l' = black_height l"
      "entries l' = upd_entries cmp k v (entries l)"
      using Rep.IH(1)[OF g(1) so(1)] len unfolding l'_def by simp_all
    have len': "length (entries l') + 1 + length (entries r) < 2 ^ 31"
      using len length_upd_entries[of k v "entries l"] IH by simp
    have bh: "black_height l' = black_height r" using g IH by simp
    define t where "t = FixUp (Rep e c s l' r)"
    have t: "InnerInsert cmp (Rep e c s l r) k v = t"
      using ne Descending e by (simp add: t_def l'_def set_left_def)
    note F = FixUp_almost_good_left[OF IH(1) g(2,4) bh len' _ t_def]
    have "upd_entries cmp k v (entries l @ e # entries r) = entries l' @ e # entries r"
      using Descending IH by (simp add: upd_entries_above e)
    then show ?thesis unfolding t using F IH g(5) by (cases c) auto
  qed
qed

lemma LlrbNode_insert_entries:
  assumes "llrb_inv cmp n" "Suc (length (entries n)) < 2 ^ 31"
  shows "llrb_inv cmp (LlrbNode_insert cmp n k v)"
    "entries (LlrbNode_insert cmp n k v) = upd_entries cmp k v (entries n)"
proof -
  let ?t = "InnerInsert cmp n k v"
  have n: "good n" "\<not> red n" "sorted_entries cmp (entries n)"
    using assms by (simp_all add: llrb_inv_def)
  have t: "good ?t" "entries ?t = upd_entries cmp k v (entries n)"
    using InnerInsert_correct[OF n(1,3) assms(2), of k v] n(2) by simp_all
  have "good (FixRootColor ?t)" "\<not> red (FixRootColor ?t)"
    using t(1) by (cases ?t; simp add: FixRootColor_def good_Rep)+
  moreover show e: "entries (LlrbNode_insert cmp n k v) = upd_entries cmp k v (entries n)"
    using t by (simp add: LlrbNode_insert_def FixRootColor_def)
  ultimately show "llrb_inv cmp (LlrbNode_insert cmp n k v)"
    using n(3) by (simp add: llrb_inv_def LlrbNode_insert_def[symmetric] e sorted_upd_entries)
qed

text \<open>The descent to the right from a node with two black children.\<close>

lemma right_shape:
  assumes g: "good l" "good r" "black_height l = black_height r" "\<not> red l" "\<not> red r"
      "s = length (entries l) + 1 + length (entries r)" "s < 2 ^ 31"
    and so: "sorted_entries cmp (entries l @ e # entries r)" and k: "cmp k (fst e) \<noteq> Ascending"
    and n2: "n2 = (if \<not> node_empty r \<and> \<not> red r \<and> \<not> red (left r)
                   then MoveRedRight (Rep e c s l r) else Rep e c s l r)"
  shows "\<exists>e2 c2 l2 r2. n2 = Rep e2 c2 s l2 r2 \<and>
    entries l2 @ e2 # entries r2 = entries l @ e # entries r \<and> (e2 = e \<or> e \<in> set (entries r2)) \<and>
    good l2 \<and> erasable cmp r2 k \<and> black_height l2 = black_height r2 \<and> (r2 = Empty \<longrightarrow> l2 = Empty) \<and>
    (cmp k (fst e2) = Same \<longrightarrow> r2 \<noteq> Empty \<longrightarrow> good r2 \<and> (red r2 \<or> red (left r2))) \<and>
    (if c2 = c then \<not> red l2 \<and> \<not> red r2 \<and> black_height l2 = black_height l
     else red l2 \<and> red r2 \<and> Suc (black_height l2) = black_height l)"
proof (cases "\<not> node_empty r \<and> \<not> red r \<and> \<not> red (left r)")
  case True
  then have r: "\<not> red (left r)" "r \<noteq> Empty" by (auto simp: node_empty_def)
  obtain e1 c1 l1 r1 where M: "MoveRedRight (Rep e c s l r) = Rep e1 c1 s l1 r1"
    "entries l1 @ e1 # entries r1 = entries l @ e # entries r" "good l1"
    "if c1 = c
     then (\<exists>s2 l2 r2. r1 = Rep e Black s2 l2 r2 \<and> good l2 \<and> good r2 \<and> \<not> red l2 \<and> red r2 \<and>
            s2 = length (entries l2) + 1 + length (entries r2) \<and> s2 < 2 ^ 31 \<and> black_height l2 = black_height r2 \<and>
            (\<exists>ys. entries l = ys @ e1 # entries l2)) \<and>
          \<not> red l1 \<and> black_height l1 = black_height l \<and> black_height r1 = black_height l
     else e1 = e \<and> good r1 \<and> red l1 \<and> red r1 \<and> black_height l1 = black_height r1 \<and>
          Suc (black_height l1) = black_height l"
    using MoveRedRight_spec[OF g(1-5) r, of e c s] g(6,7) by auto
  have n2': "n2 = Rep e1 c1 s l1 r1" using n2 True M(1) by simp
  show ?thesis
  proof (cases "c1 = c")
    case True
    with M(4) obtain s2 l2 r2 ys where R: "r1 = Rep e Black s2 l2 r2" "good l2" "good r2"
      "\<not> red l2" "red r2" "s2 = length (entries l2) + 1 + length (entries r2)" "s2 < 2 ^ 31" "black_height l2 = black_height r2"
      "entries l = ys @ e1 # entries l2" and L: "\<not> red l1" "black_height l1 = black_height l"
      "black_height r1 = black_height l"
      by auto
    have "cmp (fst e1) (fst e) = Ascending"
      using so unfolding R(9) by (simp add: sorted_entries_append)
    then have "cmp k (fst e1) \<noteq> Same"
      using k Same_left[of k "fst e1" "fst e"] by auto
    moreover have "erasable cmp r1 k" using R k unfolding erasable_def by blast
    ultimately show ?thesis using n2' M(2,3) True L R(1,4,5) by auto
  next
    case False
    then have R: "e1 = e" "good r1" "red l1" "red r1" "black_height l1 = black_height r1"
      "Suc (black_height l1) = black_height l"
      using M(4) by auto
    then have "erasable cmp r1 k" by (simp add: erasable_good)
    then show ?thesis using n2' M(2,3) R False by auto
  qed
next
  case False
  then have n2': "n2 = Rep e c s l r" using n2 by auto
  have r: "r = Empty \<or> red (left r)" using False g by (auto simp: sized_node_empty goodD)
  then have "erasable cmp r k" using g erasable_good[of r] by (auto simp: erasable_def)
  moreover have "r = Empty \<longrightarrow> l = Empty" using g good_black_height_0[of l] by auto
  ultimately show ?thesis using n2' g r by auto
qed

text \<open>The same from any node a removal may reach.\<close>

lemma right_step:
  assumes er: "erasable cmp n k" "n \<noteq> Empty" and so: "sorted_entries cmp (entries n)"
    and k: "cmp k (node_key n) \<noteq> Ascending"
    and n1: "n1 = (if red (left n) then RotateRight n else n)"
    and n2: "n2 = (if \<not> node_empty (right n1) \<and> \<not> red (right n1) \<and> \<not> red (left (right n1))
                   then MoveRedRight n1 else n1)"
  shows "\<exists>e2 c2 s2 l2 r2. n2 = Rep e2 c2 s2 l2 r2 \<and> entries l2 @ e2 # entries r2 = entries n \<and>
    (e2 = node_entry n \<or> node_entry n \<in> set (entries r2)) \<and> good l2 \<and> erasable cmp r2 k \<and> black_height l2 = black_height r2 \<and>
    (r2 = Empty \<longrightarrow> l2 = Empty \<and> red n) \<and>
    (cmp k (fst e2) = Same \<longrightarrow> r2 \<noteq> Empty \<longrightarrow> good r2 \<and> (red r2 \<or> red (left r2))) \<and>
    (c2 = Red \<longrightarrow> \<not> red l2 \<and> \<not> red r2) \<and> (\<not> red n \<longrightarrow> c2 = Black \<and> \<not> red l2) \<and>
    black_height n = (if c2 = Black then 1 else 0) + black_height l2"
proof -
  from er obtain e c s l r where n: "n = Rep e c s l r" "good l" "good r"
    "black_height l = black_height r" "s = length (entries l) + 1 + length (entries r)" "s < 2 ^ 31"
    and c: "c = Red \<and> \<not> red l \<and> \<not> red r \<or> c = Black \<and> red l \<and> \<not> red r \<or>
         c = Black \<and> \<not> red l \<and> red r"
    unfolding erasable_def by blast
  from c consider (two) "c = Red" "\<not> red l" "\<not> red r" | (left) "c = Black" "red l" "\<not> red r"
    | (right) "c = Black" "\<not> red l" "red r" by blast
  then show ?thesis
  proof cases
    case two
    have so': "sorted_entries cmp (entries l @ e # entries r)" using so n by simp
    have k': "cmp k (fst e) \<noteq> Ascending" using k n by (simp add: node_key_def)
    have n2': "n2 = (if \<not> node_empty r \<and> \<not> red r \<and> \<not> red (left r)
                   then MoveRedRight (Rep e c s l r) else Rep e c s l r)"
      using n1 n2 n two by simp
    obtain e2 c2 l2 r2 where S: "n2 = Rep e2 c2 s l2 r2"
      "entries l2 @ e2 # entries r2 = entries l @ e # entries r" "e2 = e \<or> e \<in> set (entries r2)"
      "good l2" "erasable cmp r2 k"
      "black_height l2 = black_height r2" "r2 = Empty \<longrightarrow> l2 = Empty"
      "cmp k (fst e2) = Same \<longrightarrow> r2 \<noteq> Empty \<longrightarrow> good r2 \<and> (red r2 \<or> red (left r2))"
      "if c2 = c then \<not> red l2 \<and> \<not> red r2 \<and> black_height l2 = black_height l
       else red l2 \<and> red r2 \<and> Suc (black_height l2) = black_height l"
      using right_shape[OF n(2-4) two(2,3) n(5,6) so' k' n2'] by blast
    show ?thesis
      by (intro exI[of _ e2] exI[of _ c2] exI[of _ s] exI[of _ l2] exI[of _ r2])
         (use S two n(1) in \<open>cases c2; simp\<close>)
  next
    case left
    then obtain e1 s1 l1 r1 where l: "l = Rep e1 Red s1 l1 r1" "\<not> red l1" "\<not> red r1" "good l1" "good r1"
      "black_height l1 = black_height r1"
      using good_red_ex[OF n(2)] by blast
    define r2 where "r2 = Rep e Red (length (entries r1) + 1 + length (entries r)) r1 r"
    have "length (entries r1) + 1 + length (entries r) < 2 ^ 31" using n l by simp
    then have n1': "n1 = Rep e1 Black s l1 r2" and gr: "good r2"
      using n n1 left l by (simp_all add: llrb_ops make_Rep_def goodD r2_def good_Rep)
    then have "n2 = Rep e1 Black s l1 r2" using n2 by (simp add: r2_def)
    moreover have "erasable cmp r2 k" using gr by (simp add: erasable_good r2_def)
    moreover have "entries l1 @ e1 # entries r2 = entries n" using l n by (simp add: r2_def)
    ultimately show ?thesis using l left n gr by (auto simp: r2_def)
  next
    case right
    then have "n2 = n" using n1 n2 n by simp
    moreover have "erasable cmp r k" using right n by (simp add: erasable_good)
    ultimately show ?thesis using right n by auto
  qed
qed

lemma del_entries_left_part:
  assumes "sorted_entries cmp (xs @ e1 # ys)" "e1 = e \<or> e \<in> set xs" "cmp k (fst e) = Ascending"
  shows "del_entries cmp k (xs @ e1 # ys) = del_entries cmp k xs @ e1 # ys"
proof -
  have "cmp (fst e) (fst e1) \<noteq> Descending" using assms(1,2) by (auto simp: sorted_entries_append)
  then have k: "cmp k (fst e1) = Ascending"
    using Ascending_trans[OF assms(3)] Ascending_Same[OF assms(3)] by (cases "cmp (fst e) (fst e1)") simp_all
  moreover have "entries_above cmp ys k"
    using assms(1) k by (auto simp: sorted_entries_mid intro: entries_above_trans)
  ultimately show ?thesis using Same_sym[of "fst e1" k] by auto
qed

lemma right_key_bound:
  assumes "sorted_entries cmp (xs @ e2 # ys)" "e2 = e \<or> e \<in> set ys" "cmp k (fst e) \<noteq> Ascending"
  shows "cmp k (fst e2) \<noteq> Ascending"
proof
  assume A: "cmp k (fst e2) = Ascending"
  have "cmp (fst e2) (fst e) \<noteq> Descending"
    using assms(1,2) by (auto simp: sorted_entries_append entries_above_def)
  then show False using assms(3) A Ascending_trans[OF A] Ascending_Same[OF A]
    by (cases "cmp (fst e2) (fst e)") auto
qed

lemma entries_below_key:
  assumes "sorted_entries cmp (xs @ e # ys)" "cmp k (fst e) \<noteq> Ascending"
  shows "entries_below cmp xs k"
  using assms not_Descending_iff[of "fst e" k]
  by (auto simp: sorted_entries_mid intro: entries_below_trans)

lemma erasable_node_empty: "erasable cmp n k \<Longrightarrow> node_empty n \<longleftrightarrow> n = Empty"
  by (auto simp: erasable_def node_empty_def)

text \<open>Rebuilding a node after its right child has been replaced.\<close>

lemma right_finish:
  assumes l2: "good l2" "black_height l2 = black_height r2"
      "c2 = Red \<longrightarrow> \<not> red l2 \<and> \<not> red r2" "\<not> rn \<longrightarrow> c2 = Black \<and> \<not> red l2"
    and r': "good r'" "black_height r' = black_height r2" "\<not> red r2 \<longrightarrow> \<not> red r'"
    and len: "length (entries l2) + 1 + length (entries r') < 2 ^ 31"
    and t: "t = FixUp (Rep e2 c2 s2 l2 r')"
  shows "good t \<and> black_height t = (if c2 = Black then 1 else 0) + black_height l2 \<and>
    (\<not> rn \<longrightarrow> \<not> red t) \<and> entries t = entries l2 @ e2 # entries r'"
proof -
  have bh: "black_height l2 = black_height r'" using l2 r' by simp
  note F = FixUp_good[OF l2(1) r'(1) bh len t]
  show ?thesis using F l2(3,4) r'(3) by (cases c2) auto
qed

definition erase_ok :: "('k, 'v::default) LlrbNode \<Rightarrow> 'k \<Rightarrow> bool" where
  "erase_ok n k \<longleftrightarrow> good (InnerErase cmp n k) \<and> black_height (InnerErase cmp n k) = black_height n \<and>
    (\<not> red n \<longrightarrow> \<not> red (InnerErase cmp n k)) \<and>
    entries (InnerErase cmp n k) = del_entries cmp k (entries n)"

lemma InnerErase_left_case:
  fixes n :: "('k, 'v::default) LlrbNode"
  assumes n: "n = Rep e c s l r" "good l" "good r" "black_height l = black_height r"
      "s = length (entries l) + 1 + length (entries r)" "s < 2 ^ 31"
    and c': "\<not> red r" "c = Red \<and> \<not> red l \<or> c = Black \<and> red l"
    and so0: "sorted_entries cmp (entries n)" and True: "cmp k (fst e) = Ascending"
    and IH0: "\<And>m :: ('k, 'v) LlrbNode. \<lbrakk>weight m < weight n; erasable cmp m k; sorted_entries cmp (entries m)\<rbrakk>
        \<Longrightarrow> erase_ok m k"
  shows "erase_ok n k"
proof -
  have ne: "\<not> node_empty n" using n by (simp add: node_empty_def)
  define n1 where "n1 = (if \<not> node_empty (left n) \<and> \<not> red (left n) \<and> \<not> red (left (left n))
                         then MoveRedLeft n else n)"
  define l' where "l' = InnerErase cmp (left n1) k"
  define t where "t = FixUp (set_left n1 l')"
  have t: "InnerErase cmp n k = t"
    using ne True n(1)
    by (subst InnerErase.simps) (simp add: t_def l'_def n1_def Let_def node_key_def)
  have w: "weight (left n1) < weight n"
    unfolding n1_def by (rule weight_InnerErase_left[OF ne])
  obtain e0 r0 where ch: "good (left n1)" "left n1 = Empty \<or> red (left n1) \<or> red (left (left n1))"
    "entries (left n1) @ e0 # r0 = entries n"
    using left_step_child[OF n(1-4) c'(1) n(5,6) c'(2) n1_def] by blast
  have er: "erasable cmp (left n1) k"
    by (rule erasable_goodI[OF ch(1,2)])
  have so: "sorted_entries cmp (entries (left n1))"
    using so0 unfolding ch(3)[symmetric] by (simp add: sorted_entries_mid)
  have IH: "good l'" "black_height l' = black_height (left n1)" "\<not> red (left n1) \<longrightarrow> \<not> red l'"
    "entries l' = del_entries cmp k (entries (left n1))"
    using IH0[OF w er so, unfolded erase_ok_def] by (simp_all add: l'_def)
  have "length (entries l') \<le> length (entries (left n1))"
    using IH(4) by (simp add: length_del_entries)
  from left_step[OF n(1-4) c'(1) n(5,6) c'(2) n1_def this IH(1-3) t_def]
  obtain e1 r1 where S: "good t" "black_height t = black_height n" "\<not> red n \<longrightarrow> \<not> red t"
    "entries (left n1) @ e1 # r1 = entries n" "entries t = entries l' @ e1 # r1"
    "e1 = e \<or> e \<in> set (entries (left n1))"
    by blast
  have "del_entries cmp k (entries n) = entries l' @ e1 # r1"
    using del_entries_left_part[OF _ S(6) True, of r1] so0 S(4) IH(4) by simp
  then show ?thesis unfolding t erase_ok_def using S by simp
qed

text \<open>
  What happens below and at a node on the right descent: either the node's right child is replaced,
  with the node's own entry possibly overwritten by the minimum of that child, or the node was the
  last of its subtree and an empty node takes its place.
\<close>

lemma InnerErase_right_result:
  fixes n :: "('k, 'v::default) LlrbNode"
  assumes ne: "\<not> node_empty n" and k: "cmp k (node_key n) \<noteq> Ascending"
    and n1: "n1 = (if red (left n) then RotateRight n else n)"
    and n2: "n2 = (if \<not> node_empty (right n1) \<and> \<not> red (right n1) \<and> \<not> red (left (right n1))
                   then MoveRedRight n1 else n1)"
    and R: "n2 = Rep e2 c2 s2 l2 r2" "erasable cmp r2 k"
      "cmp k (fst e2) = Same \<longrightarrow> r2 \<noteq> Empty \<longrightarrow> good r2 \<and> (red r2 \<or> red (left r2))"
    and so: "sorted_entries cmp (entries l2 @ e2 # entries r2)" and k2: "cmp k (fst e2) \<noteq> Ascending"
    and IH: "erase_ok r2 k"
  shows "(\<exists>e' r'. InnerErase cmp n k = FixUp (Rep e' c2 s2 l2 r') \<and> good r' \<and>
      black_height r' = black_height r2 \<and> (\<not> red r2 \<longrightarrow> \<not> red r') \<and>
      length (entries r') \<le> length (entries r2) \<and>
      entries l2 @ e' # entries r' = del_entries cmp k (entries l2 @ e2 # entries r2)) \<or>
    InnerErase cmp n k = Empty \<and> r2 = Empty \<and>
      del_entries cmp k (entries l2 @ e2 # entries r2) = entries l2"
proof -
  have step: "InnerErase cmp n k =
    (if cmp k (fst e2) = Same then
       if r2 = Empty then Empty
       else FixUp (Rep (node_entry (node_min r2)) c2 s2 l2 (RemoveMin r2))
     else FixUp (Rep e2 c2 s2 l2 (InnerErase cmp r2 k)))"
    using ne k R(1) erasable_node_empty[OF R(2)]
    by (subst InnerErase.simps)
       (simp add: n1[symmetric] n2[symmetric] Let_def node_key_def set_right_def set_entry_def)
  have below: "entries_below cmp (entries l2) k" by (rule entries_below_key[OF so k2])
  show ?thesis
  proof (cases "cmp k (fst e2) = Same")
    case True
    then have s2: "cmp (fst e2) k = Same" by (rule Same_sym)
    have above: "entries_above cmp (entries r2) k"
      using so s2 True by (auto simp: sorted_entries_mid intro: entries_above_trans)
    have del: "del_entries cmp k (entries l2 @ e2 # entries r2) = entries l2 @ entries r2"
      using below above s2 by simp
    show ?thesis
    proof (cases "r2 = Empty")
      case False
      then have r2: "good r2" "red r2 \<or> red (left r2)" using R(3) True by auto
      note rm = RemoveMin_correct[OF r2(1) False r2(2)]
      have "hd (entries r2) # tl (entries r2) = entries r2"
        using False good_entries_Nil[OF r2(1)] by (intro list.collapse) simp
      then show ?thesis
        using rm step True False node_min_entry[OF r2(1) False] del
        by (intro disjI1 exI[of _ "hd (entries r2)"] exI[of _ "RemoveMin r2"]) simp
    qed (use step True del in simp)
  next
    case False
    have "cmp (fst e2) k \<noteq> Same" using False Same_sym by blast
    then show ?thesis
      using step False IH below length_del_entries[of k "entries r2"]
      by (intro disjI1 exI[of _ e2] exI[of _ "InnerErase cmp r2 k"]) (simp add: erase_ok_def)
  qed
qed

lemma InnerErase_right_case:
  fixes n :: "('k, 'v::default) LlrbNode"
  assumes er0: "erasable cmp n k" and nE: "n \<noteq> Empty" and so0: "sorted_entries cmp (entries n)"
    and k: "cmp k (node_key n) \<noteq> Ascending"
    and IH0: "\<And>m :: ('k, 'v) LlrbNode. \<lbrakk>weight m < weight n; erasable cmp m k; sorted_entries cmp (entries m)\<rbrakk>
        \<Longrightarrow> erase_ok m k"
  shows "erase_ok n k"
proof -
  have ne: "\<not> node_empty n" using er0 nE by (simp add: erasable_node_empty)
  from er0 nE obtain e c s l r where n: "n = Rep e c s l r" "good l"
    "s = length (entries l) + 1 + length (entries r)" "s < 2 ^ 31"
    unfolding erasable_def by blast
  define n1 where "n1 = (if red (left n) then RotateRight n else n)"
  define n2 where "n2 = (if \<not> node_empty (right n1) \<and> \<not> red (right n1) \<and> \<not> red (left (right n1))
               then MoveRedRight n1 else n1)"
  obtain e2 c2 s2 l2 r2 where R: "n2 = Rep e2 c2 s2 l2 r2" "entries l2 @ e2 # entries r2 = entries n"
    "e2 = node_entry n \<or> node_entry n \<in> set (entries r2)" "good l2" "erasable cmp r2 k"
    "black_height l2 = black_height r2" "r2 = Empty \<longrightarrow> l2 = Empty \<and> red n"
    "cmp k (fst e2) = Same \<longrightarrow> r2 \<noteq> Empty \<longrightarrow> good r2 \<and> (red r2 \<or> red (left r2))"
    "c2 = Red \<longrightarrow> \<not> red l2 \<and> \<not> red r2" "\<not> red n \<longrightarrow> c2 = Black \<and> \<not> red l2"
    "black_height n = (if c2 = Black then 1 else 0) + black_height l2"
    using right_step[OF er0 nE so0 k n1_def n2_def] by blast
  have so: "sorted_entries cmp (entries l2 @ e2 # entries r2)" using so0 R(2) by simp
  have k2: "cmp k (fst e2) \<noteq> Ascending" using right_key_bound[OF so R(3)] k by (simp add: node_key_def)
  have "weight (right n2) < weight n"
    unfolding n2_def by (rule weight_InnerErase_right[OF ne n1_def])
  then have "weight r2 < weight n" using R(1) by simp
  then have "erase_ok r2 k" using IH0 R(5) so by (simp add: sorted_entries_mid)
  from InnerErase_right_result[OF ne k n1_def n2_def R(1,5,8) so k2 this] show ?thesis
  proof (elim disjE exE conjE)
    fix e' r'
    assume T: "InnerErase cmp n k = FixUp (Rep e' c2 s2 l2 r')" "good r'"
      "black_height r' = black_height r2" "\<not> red r2 \<longrightarrow> \<not> red r'"
      "length (entries r') \<le> length (entries r2)"
      "entries l2 @ e' # entries r' = del_entries cmp k (entries l2 @ e2 # entries r2)"
    have "length (entries l2) + 1 + length (entries r') < 2 ^ 31"
      using T(5) arg_cong[OF R(2), of length] n by simp
    from right_finish[OF R(4,6,9,10) T(2-4) this T(1)] T(6)
    show ?thesis unfolding erase_ok_def R(11) R(2) by simp
  next
    assume E: "InnerErase cmp n k = Empty" "r2 = Empty"
      "del_entries cmp k (entries l2 @ e2 # entries r2) = entries l2"
    then have "entries n = [e2]" and l2: "l2 = Empty" "red n" using R(2,7) by auto
    then have "l = Empty" using n by (simp add: append_eq_Cons_conv good_entries_Nil)
    then show ?thesis using E l2 n R(2) by (auto simp: erase_ok_def split: if_splits)
  qed
qed

lemma InnerErase_correct:
  assumes "erasable cmp n k" "sorted_entries cmp (entries n)"
  shows "erase_ok n k"
  using assms
proof (induction "weight n" arbitrary: n rule: less_induct)
  case less
  show ?case
  proof (cases "n = Empty \<or> cmp k (node_key n) \<noteq> Ascending")
    case True
    then show ?thesis
      using less InnerErase_right_case[of n k]
      by (cases "n = Empty") (auto simp: erase_ok_def InnerErase.simps node_empty_def)
  next
    case False
    with less.prems(1) obtain e c s l r where n: "n = Rep e c s l r" "good l" "good r"
      "black_height l = black_height r" "s = length (entries l) + 1 + length (entries r)" "s < 2 ^ 31"
      "\<not> red r" "c = Red \<and> \<not> red l \<or> c = Black \<and> red l" "cmp k (fst e) = Ascending"
      unfolding erasable_def node_key_def by fastforce
    show ?thesis by (rule InnerErase_left_case[OF n(1-8) less.prems(2) n(9) less.hyps])
  qed
qed

text \<open>
  The root may be a black node with two black children. The moves then leave a red root, which
  \<open>FixRootColor\<close> paints black.
\<close>

lemma FixRootColor_almost_good: "almost_good t \<Longrightarrow> good (FixRootColor t) \<and> \<not> red (FixRootColor t)"
  by (cases t) (auto simp: FixRootColor_def almost_good_def good_def)

lemma FixRootColor_good_entries [simp]: "entries (FixRootColor t) = entries t"
  by (simp add: FixRootColor_def)

lemma root_erase_left:
  fixes l :: "('k, 'v::default) LlrbNode"
  assumes g: "good l" "good r" "black_height l = black_height r" "\<not> red l" "\<not> red r"
      "s = length (entries l) + 1 + length (entries r)" "s < 2 ^ 31"
    and so: "sorted_entries cmp (entries l @ e # entries r)" and k: "cmp k (fst e) = Ascending"
    and t: "t = InnerErase cmp (Rep e Black s l r) k"
  shows "almost_good t \<and> entries t = del_entries cmp k (entries l @ e # entries r)"
proof -
  define n where "n = Rep e Black s l r"
  define n1 where "n1 = (if \<not> node_empty (left n) \<and> \<not> red (left n) \<and> \<not> red (left (left n))
                         then MoveRedLeft n else n)"
  have "\<exists>e1 c1 l1 r1. n1 = Rep e1 c1 s l1 r1 \<and> entries l1 @ e1 # entries r1 = entries l @ e # entries r \<and>
    (e1 = e \<or> e \<in> set (entries l1)) \<and> good l1 \<and> good r1 \<and> black_height l1 = black_height r1 \<and>
    (l1 = Empty \<or> red l1 \<or> red (left l1))"
  proof (cases "\<not> node_empty l \<and> \<not> red l \<and> \<not> red (left l)")
    case True
    then have l: "\<not> red (left l)" "l \<noteq> Empty" by (auto simp: node_empty_def)
    have "length (entries l) + 1 + length (entries r) < 2 ^ 31" using g by simp
    from MoveRedLeft_spec[OF g(1-5) l this, of e Black s] True show ?thesis
      unfolding n1_def n_def by (auto simp del: split_paired_Ex)
  next
    case False
    then have "n1 = n" by (auto simp: n1_def n_def)
    then show ?thesis using False g unfolding n_def
      by (auto simp: sized_node_empty goodD simp del: split_paired_Ex)
  qed
  then obtain e1 c1 l1 r1 where N: "n1 = Rep e1 c1 s l1 r1"
    "entries l1 @ e1 # entries r1 = entries l @ e # entries r" "e1 = e \<or> e \<in> set (entries l1)"
    "good l1" "good r1" "black_height l1 = black_height r1" "l1 = Empty \<or> red l1 \<or> red (left l1)"
    by blast
  have so1: "sorted_entries cmp (entries l1 @ e1 # entries r1)" using so N(2) by simp
  then have "erasable cmp l1 k" "sorted_entries cmp (entries l1)"
    using N(4,7) by (auto simp: sorted_entries_mid intro: erasable_goodI)
  then have IH: "erase_ok l1 k" by (rule InnerErase_correct)
  have len: "length (entries (InnerErase cmp l1 k)) + 1 + length (entries r1) < 2 ^ 31"
    using IH arg_cong[OF N(2), of length] g(6,7) length_del_entries[of k "entries l1"]
    by (simp add: erase_ok_def)
  have t': "t = FixUp (Rep e1 c1 s (InnerErase cmp l1 k) r1)"
    unfolding t n_def[symmetric] using k g(6) N(1)
    by (subst InnerErase.simps)
       (simp add: n1_def[symmetric] Let_def set_left_def,
        simp add: n_def node_empty_def node_key_def)
  have bh: "black_height (InnerErase cmp l1 k) = black_height r1" using IH N(6) by (simp add: erase_ok_def)
  note F = FixUp_good[OF _ N(5) bh len t']
  show ?thesis
    using F IH del_entries_left_part[OF so1 N(3) k] N(2) by (simp add: erase_ok_def almost_good_def)
qed

lemma root_erase_right:
  fixes l :: "('k, 'v::default) LlrbNode"
  assumes g: "good l" "good r" "black_height l = black_height r" "\<not> red l" "\<not> red r"
      "s = length (entries l) + 1 + length (entries r)" "s < 2 ^ 31"
    and so: "sorted_entries cmp (entries l @ e # entries r)" and k: "cmp k (fst e) \<noteq> Ascending"
    and t: "t = InnerErase cmp (Rep e Black s l r) k"
  shows "almost_good t \<and> entries t = del_entries cmp k (entries l @ e # entries r)"
proof -
  let ?n = "Rep e Black s l r"
  have ne: "\<not> node_empty ?n" using g(6) by (simp add: node_empty_def)
  have k': "cmp k (node_key ?n) \<noteq> Ascending" using k by (simp add: node_key_def)
  define n1 where "n1 = (if red (left ?n) then RotateRight ?n else ?n)"
  define n2 where "n2 = (if \<not> node_empty (right n1) \<and> \<not> red (right n1) \<and> \<not> red (left (right n1))
               then MoveRedRight n1 else n1)"
  have "n1 = ?n" using g(4) by (simp add: n1_def)
  then have n2: "n2 = (if \<not> node_empty r \<and> \<not> red r \<and> \<not> red (left r) then MoveRedRight ?n else ?n)"
    by (simp add: n2_def)
  obtain e2 c2 l2 r2 where S: "n2 = Rep e2 c2 s l2 r2"
    "entries l2 @ e2 # entries r2 = entries l @ e # entries r" "e2 = e \<or> e \<in> set (entries r2)"
    "good l2" "erasable cmp r2 k" "black_height l2 = black_height r2" "r2 = Empty \<longrightarrow> l2 = Empty"
    "cmp k (fst e2) = Same \<longrightarrow> r2 \<noteq> Empty \<longrightarrow> good r2 \<and> (red r2 \<or> red (left r2))"
    using right_shape[OF g so k n2] by blast
  have so2: "sorted_entries cmp (entries l2 @ e2 # entries r2)" using so S(2) by simp
  have k2: "cmp k (fst e2) \<noteq> Ascending" by (rule right_key_bound[OF so2 S(3) k])
  have "erase_ok r2 k" using InnerErase_correct[OF S(5)] so2 by (simp add: sorted_entries_mid)
  from InnerErase_right_result[OF ne k' n1_def n2_def S(1,5,8) so2 k2 this, folded t] show ?thesis
  proof (elim disjE exE conjE)
    fix e' r'
    assume T: "t = FixUp (Rep e' c2 s l2 r')" "good r'" "black_height r' = black_height r2"
      "length (entries r') \<le> length (entries r2)"
      "entries l2 @ e' # entries r' = del_entries cmp k (entries l2 @ e2 # entries r2)"
    have len: "length (entries l2) + 1 + length (entries r') < 2 ^ 31"
      using T(4) arg_cong[OF S(2), of length] g(6,7) by simp
    have bh: "black_height l2 = black_height r'" using S(6) T(3) by simp
    from FixUp_good[OF S(4) T(2) bh len T(1)] T(5) show ?thesis by (simp add: almost_good_def S(2))
  next
    assume "t = Empty" "r2 = Empty" "del_entries cmp k (entries l2 @ e2 # entries r2) = entries l2"
    then show ?thesis using S(7) by (simp add: almost_good_def S(2)[symmetric])
  qed
qed

lemma LlrbNode_erase_entries:
  assumes "llrb_inv cmp n"
  shows "llrb_inv cmp (LlrbNode_erase cmp n k)"
    "entries (LlrbNode_erase cmp n k) = del_entries cmp k (entries n)"
proof -
  have n: "good n" "\<not> red n" "sorted_entries cmp (entries n)" using assms by (simp_all add: llrb_inv_def)
  let ?t = "InnerErase cmp n k"
  have "almost_good ?t \<and> entries ?t = del_entries cmp k (entries n)"
  proof (cases "n = Empty \<or> red (left n)")
    case True
    then have "erasable cmp n k" using n(1) by (auto intro: erasable_goodI)
    from InnerErase_correct[OF this n(3)] show ?thesis by (simp add: erase_ok_def good_almost_good)
  next
    case False
    then obtain e s l r where N: "n = Rep e Black s l r" "\<not> red l" using n by (cases n) auto
    then have g: "good l" "good r" "black_height l = black_height r" "\<not> red l" "\<not> red r"
      "s = length (entries l) + 1 + length (entries r)" "s < 2 ^ 31"
      using n(1) by (simp_all add: good_Rep)
    have so: "sorted_entries cmp (entries l @ e # entries r)" using n N by simp
    show ?thesis
      using root_erase_left[OF g so _ refl, of k] root_erase_right[OF g so _ refl, of k] N(1)
      by (cases "cmp k (fst e) = Ascending") simp_all
  qed
  then have "good (FixRootColor ?t)" "\<not> red (FixRootColor ?t)"
    and e: "entries (FixRootColor ?t) = del_entries cmp k (entries n)"
    using FixRootColor_almost_good[of ?t] by auto
  then show "llrb_inv cmp (LlrbNode_erase cmp n k)"
    "entries (LlrbNode_erase cmp n k) = del_entries cmp k (entries n)"
    using n(3) by (simp_all add: llrb_inv_def LlrbNode_erase_def sorted_del_entries)
qed

end

section \<open>Depth\<close>

fun height :: "('k, 'v) LlrbNode \<Rightarrow> nat" where
  "height (EmptyRep c) = 0"
| "height (Rep e c s l r) = Suc (max (height l) (height r))"

lemma height_black_height:
  "left_leaning n \<Longrightarrow> balanced n \<Longrightarrow> height n \<le> 2 * black_height n + (if red n then 1 else 0)"
  by (induction n) (auto split: if_splits)

lemma black_height_size: "balanced n \<Longrightarrow> 2 ^ black_height n \<le> Suc (length (entries n))"
  by (induction n) (auto split: if_splits)

lemma llrb_inv_Empty [simp]: "llrb_inv cmp Empty"
  by (simp add: llrb_inv_def)

section \<open>Properties\<close>

interpretation int_keys: key_comparator "DefaultComparator :: int cmp"
  by unfold_locales

text \<open>
  C6. Inserting into a left-leaning red-black tree that holds fewer than 2^31 - 1 entries gives a
  tree that again satisfies every invariant (key order, equal black heights, no right-leaning or
  doubled red links, exact size fields, black root), and whose in-order entry list is the old one
  with exactly that key updated or added at its sorted place.
\<close>

theorem LlrbNode_insert_ok:
  fixes cmp :: "'k::default cmp" and n :: "('k, 'v::default) LlrbNode"
  assumes "key_comparator cmp" "llrb_inv cmp n" "length (entries n) < 2 ^ 31 - 1"
  shows "llrb_inv cmp (LlrbNode_insert cmp n k v) \<and>
    entries (LlrbNode_insert cmp n k v) = upd_entries cmp k v (entries n)"
  using key_comparator.LlrbNode_insert_entries[OF assms(1,2), of k v] assms(3) by simp

theorem LlrbNode_insert_ok_witness:
  "llrb_inv DefaultComparator (LlrbNode_insert DefaultComparator (Rep (5, 50) Black 1 Empty Empty) (7::int) (70::int)) \<and>
   entries (LlrbNode_insert DefaultComparator (Rep (5, 50) Black 1 Empty Empty) (7::int) (70::int)) = [(5, 50), (7, 70)]"
  using LlrbNode_insert_ok[OF int_keys.key_comparator_axioms, of "Rep (5, 50) Black 1 Empty Empty" 7 "70::int"]
  by (simp add: llrb_inv_def good_def DefaultComparator_def red_def)

text \<open>
  C7. Removing a key from a left-leaning red-black tree gives a tree that again satisfies every
  invariant and whose in-order entry list is the old one without the entries that compare the same
  as the key; a key that is absent leaves the entry list unchanged.
\<close>

theorem LlrbNode_erase_ok:
  fixes cmp :: "'k::default cmp" and n :: "('k, 'v::default) LlrbNode"
  assumes "key_comparator cmp" "llrb_inv cmp n"
  shows "llrb_inv cmp (LlrbNode_erase cmp n k) \<and>
    entries (LlrbNode_erase cmp n k) = del_entries cmp k (entries n)"
  using key_comparator.LlrbNode_erase_entries[OF assms, of k] by simp

theorem LlrbNode_erase_ok_witness:
  "llrb_inv DefaultComparator (LlrbNode_erase DefaultComparator
     (Rep (7::int, 70::int) Black 2 (Rep (5, 50) Red 1 Empty Empty) Empty) 7) \<and>
   entries (LlrbNode_erase DefaultComparator
     (Rep (7::int, 70::int) Black 2 (Rep (5, 50) Red 1 Empty Empty) Empty) 7) = [(5, 50)]"
  using LlrbNode_erase_ok[OF int_keys.key_comparator_axioms,
      of "Rep (7::int, 70::int) Black 2 (Rep (5, 50) Red 1 Empty Empty) Empty" 7]
  by (simp add: llrb_inv_def good_def DefaultComparator_def red_def)



end
