(* ===== verification/Tree_Sorted_Map.thy ===== *)
theory Tree_Sorted_Map
  imports Llrb_Node
begin

text \<open>
  The tree-backed sorted map of \<^verbatim>\<open>immutable/tree_sorted_map.h\<close> and the stack iterator of
  \<^verbatim>\<open>immutable/llrb_node_iterator.h\<close>: iteration, lower bounds, lookups and positions, each related
  to the list of entries. The theory also states the contract all sorted maps share (locale
  \<open>sorted_map_contract\<close>) and shows that the tree meets it.
\<close>

section \<open>The iterator\<close>

text \<open>The explicit stack of an iterator, top first.\<close>

type_synonym ('k, 'v) LlrbNodeIterator = "('k, 'v) LlrbNode list"

fun AccumulateLeft :: "('k, 'v) LlrbNode \<Rightarrow> ('k, 'v) LlrbNodeIterator \<Rightarrow> ('k, 'v) LlrbNodeIterator" where
  "AccumulateLeft (EmptyRep c) stack = stack"
| "AccumulateLeft (Rep e c s l r) stack =
     (if node_empty (Rep e c s l r) then stack else AccumulateLeft l (Rep e c s l r # stack))"

definition Iterator_Begin :: "('k, 'v) LlrbNode \<Rightarrow> ('k, 'v) LlrbNodeIterator" where
  "Iterator_Begin root = AccumulateLeft root []"

definition Iterator_End :: "('k, 'v) LlrbNodeIterator" where
  "Iterator_End = []"

text \<open>The loop of \<^verbatim>\<open>LowerBound\<close>, with the stack built so far.\<close>

fun LowerBound_loop :: "'k cmp \<Rightarrow> 'k \<Rightarrow> ('k, 'v) LlrbNode \<Rightarrow> ('k, 'v) LlrbNodeIterator
    \<Rightarrow> ('k, 'v) LlrbNodeIterator" where
  "LowerBound_loop cmp key (EmptyRep c) stack = stack"
| "LowerBound_loop cmp key (Rep e c s l r) stack =
     (if node_empty (Rep e c s l r) then stack
      else case cmp key (fst e) of
             Same \<Rightarrow> Rep e c s l r # stack
           | Ascending \<Rightarrow> LowerBound_loop cmp key l (Rep e c s l r # stack)
           | Descending \<Rightarrow> LowerBound_loop cmp key r stack)"

definition Iterator_LowerBound :: "'k cmp \<Rightarrow> ('k, 'v) LlrbNode \<Rightarrow> 'k \<Rightarrow> ('k, 'v) LlrbNodeIterator" where
  "Iterator_LowerBound cmp root key = LowerBound_loop cmp key root []"

definition is_end :: "('k, 'v) LlrbNodeIterator \<Rightarrow> bool" where
  "is_end it \<longleftrightarrow> it = []"

definition Iterator_get :: "('k::default, 'v::default) LlrbNodeIterator \<Rightarrow> ('k \<times> 'v) res" where
  "Iterator_get it = hard_assert (\<not> is_end it) (Inr (node_entry (hd it)))"

definition Iterator_next :: "('k, 'v) LlrbNodeIterator \<Rightarrow> ('k, 'v) LlrbNodeIterator res" where
  "Iterator_next it = hard_assert (\<not> is_end it) (Inr (AccumulateLeft (right (hd it)) (tl it)))"

definition Iterator_eq :: "('k::default, 'v::default) LlrbNodeIterator \<Rightarrow> ('k, 'v) LlrbNodeIterator
    \<Rightarrow> bool" where
  "Iterator_eq a b =
     (if is_end a then is_end b
      else if is_end b then False
      else fst (node_entry (hd a)) = fst (node_entry (hd b)))"

section \<open>The map\<close>

record ('k, 'v) TreeSortedMap =
  tree_root :: "('k, 'v) LlrbNode"
  tree_comparator :: "'k cmp"

text \<open>\<^verbatim>\<open>npos\<close> is the largest value of the 32-bit size type.\<close>

definition npos :: nat where
  "npos = 2 ^ 32 - 1"

definition TreeSortedMap_new :: "'k cmp \<Rightarrow> ('k, 'v) TreeSortedMap" where
  "TreeSortedMap_new cmp = \<lparr>tree_root = Empty, tree_comparator = cmp\<rparr>"

definition TreeSortedMap_Create :: "('k::default \<times> 'v::default) list \<Rightarrow> 'k cmp \<Rightarrow> ('k, 'v) TreeSortedMap"
where
  "TreeSortedMap_Create elements cmp =
     \<lparr>tree_root = fold (\<lambda>element node. LlrbNode_insert cmp node (fst element) (snd element)) elements Empty,
      tree_comparator = cmp\<rparr>"

definition TreeSortedMap_empty :: "('k, 'v) TreeSortedMap \<Rightarrow> bool" where
  "TreeSortedMap_empty m = node_empty (tree_root m)"

definition TreeSortedMap_size :: "('k, 'v) TreeSortedMap \<Rightarrow> nat" where
  "TreeSortedMap_size m = node_size (tree_root m)"

definition TreeSortedMap_insert :: "('k::default, 'v::default) TreeSortedMap \<Rightarrow> 'k \<Rightarrow> 'v
    \<Rightarrow> ('k, 'v) TreeSortedMap" where
  "TreeSortedMap_insert m key v =
     \<lparr>tree_root = LlrbNode_insert (tree_comparator m) (tree_root m) key v,
      tree_comparator = tree_comparator m\<rparr>"

definition TreeSortedMap_erase :: "('k::default, 'v::default) TreeSortedMap \<Rightarrow> 'k
    \<Rightarrow> ('k, 'v) TreeSortedMap" where
  "TreeSortedMap_erase m key =
     \<lparr>tree_root = LlrbNode_erase (tree_comparator m) (tree_root m) key,
      tree_comparator = tree_comparator m\<rparr>"

fun contains_loop :: "'k cmp \<Rightarrow> 'k \<Rightarrow> ('k, 'v) LlrbNode \<Rightarrow> bool" where
  "contains_loop cmp key (EmptyRep c) = False"
| "contains_loop cmp key (Rep e c s l r) =
     (if node_empty (Rep e c s l r) then False
      else if cmp key (fst e) = Same then True
      else if cmp key (fst e) = Ascending then contains_loop cmp key l
      else contains_loop cmp key r)"

definition TreeSortedMap_contains :: "('k, 'v) TreeSortedMap \<Rightarrow> 'k \<Rightarrow> bool" where
  "TreeSortedMap_contains m key = contains_loop (tree_comparator m) key (tree_root m)"

definition TreeSortedMap_lower_bound :: "('k, 'v) TreeSortedMap \<Rightarrow> 'k \<Rightarrow> ('k, 'v) LlrbNodeIterator" where
  "TreeSortedMap_lower_bound m key = Iterator_LowerBound (tree_comparator m) (tree_root m) key"

definition TreeSortedMap_begin :: "('k, 'v) TreeSortedMap \<Rightarrow> ('k, 'v) LlrbNodeIterator" where
  "TreeSortedMap_begin m = Iterator_Begin (tree_root m)"

definition TreeSortedMap_end :: "('k, 'v) TreeSortedMap \<Rightarrow> ('k, 'v) LlrbNodeIterator" where
  "TreeSortedMap_end m = Iterator_End"

definition TreeSortedMap_find :: "('k::default, 'v::default) TreeSortedMap \<Rightarrow> 'k
    \<Rightarrow> ('k, 'v) LlrbNodeIterator" where
  "TreeSortedMap_find m key =
     (let found = TreeSortedMap_lower_bound m key
      in if \<not> is_end found \<and> tree_comparator m key (fst (node_entry (hd found))) = Same
         then found else TreeSortedMap_end m)"

text \<open>Positions are computed in the 32-bit size type.\<close>

fun find_index_loop :: "'k cmp \<Rightarrow> 'k \<Rightarrow> nat \<Rightarrow> ('k, 'v) LlrbNode \<Rightarrow> nat" where
  "find_index_loop cmp key pruned_nodes (EmptyRep c) = npos"
| "find_index_loop cmp key pruned_nodes (Rep e c s l r) =
     (if node_empty (Rep e c s l r) then npos
      else case cmp key (fst e) of
             Same \<Rightarrow> (pruned_nodes + node_size l) mod 2 ^ 32
           | Ascending \<Rightarrow> find_index_loop cmp key pruned_nodes l
           | Descending \<Rightarrow> find_index_loop cmp key ((pruned_nodes + node_size l + 1) mod 2 ^ 32) r)"

definition TreeSortedMap_find_index :: "('k, 'v) TreeSortedMap \<Rightarrow> 'k \<Rightarrow> nat" where
  "TreeSortedMap_find_index m key = find_index_loop (tree_comparator m) key 0 (tree_root m)"

definition TreeSortedMap_min :: "('k, 'v) TreeSortedMap \<Rightarrow> ('k, 'v) LlrbNodeIterator" where
  "TreeSortedMap_min m = TreeSortedMap_begin m"

definition TreeSortedMap_max :: "('k, 'v) TreeSortedMap \<Rightarrow> ('k, 'v) LlrbNodeIterator" where
  "TreeSortedMap_max m =
     (if TreeSortedMap_empty m then TreeSortedMap_end m else [node_max (tree_root m)])"

section \<open>Iterators and entries\<close>

text \<open>The entries an iterator has still to visit.\<close>

definition remaining :: "('k::default, 'v::default) LlrbNodeIterator \<Rightarrow> ('k \<times> 'v) list" where
  "remaining it = concat (map (\<lambda>n. node_entry n # entries (right n)) it)"

definition good_iterator :: "('k, 'v) LlrbNodeIterator \<Rightarrow> bool" where
  "good_iterator it \<longleftrightarrow> (\<forall>n \<in> set it. sized n \<and> n \<noteq> Empty)"

lemma remaining_simps [simp]:
  "remaining [] = []"
  "remaining (n # it) = node_entry n # entries (right n) @ remaining it"
  by (simp_all add: remaining_def)

lemma good_iterator_simps [simp]:
  "good_iterator []"
  "good_iterator (n # it) \<longleftrightarrow> sized n \<and> n \<noteq> Empty \<and> good_iterator it"
  by (auto simp: good_iterator_def)

lemma sized_Rep_not_empty: "sized (Rep e c s l r) \<Longrightarrow> \<not> node_empty (Rep e c s l r)"
  by (simp add: node_empty_def)

lemma AccumulateLeft_remaining:
  "sized n \<Longrightarrow> good_iterator it \<Longrightarrow>
   remaining (AccumulateLeft n it) = entries n @ remaining it \<and> good_iterator (AccumulateLeft n it)"
proof (induction n arbitrary: it)
  case (Rep e c s l r)
  then show ?case using sized_Rep_not_empty[OF Rep.prems(1)] by simp
qed simp

lemma Iterator_Begin_remaining:
  "sized root \<Longrightarrow> remaining (Iterator_Begin root) = entries root \<and> good_iterator (Iterator_Begin root)"
  using AccumulateLeft_remaining[of root "[]"] by (simp add: Iterator_Begin_def)

lemma sized_right: "sized n \<Longrightarrow> sized (right n)"
  by (cases n) simp_all

lemma Iterator_next_remaining:
  assumes "good_iterator it" "\<not> is_end it"
  shows "\<exists>it'. Iterator_next it = Inr it' \<and> good_iterator it' \<and> remaining it' = tl (remaining it)"
  using assms AccumulateLeft_remaining[of "right (hd it)" "tl it"]
  by (cases it) (auto simp: Iterator_next_def is_end_def sized_right)

lemma is_end_remaining: "is_end it \<longleftrightarrow> remaining it = []"
  by (cases it) (simp_all add: is_end_def)

lemma Iterator_get_remaining: "\<not> is_end it \<Longrightarrow> Iterator_get it = Inr (hd (remaining it))"
  by (cases it) (simp_all add: Iterator_get_def is_end_def)

context key_comparator
begin

lemma dropWhile_above:
  "entries_above cmp xs k \<Longrightarrow> dropWhile (\<lambda>p. cmp (fst p) k = Ascending) xs = xs"
  using Ascending_asym by (cases xs) (auto simp: entries_above_def)

lemma dropWhile_below:
  "entries_below cmp xs k \<Longrightarrow> dropWhile (\<lambda>p. cmp (fst p) k = Ascending) (xs @ ys) =
     dropWhile (\<lambda>p. cmp (fst p) k = Ascending) ys"
  by (induction xs) auto

lemma dropWhile_Descending:
  "cmp k (fst e) \<noteq> Descending \<Longrightarrow> dropWhile (\<lambda>p. cmp (fst p) k = Ascending) (xs @ e # ys) =
     dropWhile (\<lambda>p. cmp (fst p) k = Ascending) xs @ e # ys"
  using not_Descending_iff[of k "fst e"] by (induction xs) auto

lemma LowerBound_loop_remaining:
  "sized n \<Longrightarrow> sorted_entries cmp (entries n) \<Longrightarrow> good_iterator it \<Longrightarrow>
   remaining (LowerBound_loop cmp key n it) =
     dropWhile (\<lambda>p. cmp (fst p) key = Ascending) (entries n) @ remaining it \<and>
   good_iterator (LowerBound_loop cmp key n it)"
proof (induction n arbitrary: it)
  case (Rep e c s l r)
  have so: "sorted_entries cmp (entries l)" "sorted_entries cmp (entries r)"
    "entries_below cmp (entries l) (fst e)" "entries_above cmp (entries r) (fst e)"
    using Rep.prems(2) by (simp_all add: sorted_entries_mid)
  note ne = sized_Rep_not_empty[OF Rep.prems(1)]
  show ?case
  proof (cases "cmp key (fst e)")
    case Ascending
    then show ?thesis using Rep so ne dropWhile_Descending[of key e] by simp
  next
    case Same
    then have "entries_below cmp (entries l) key" "cmp (fst e) key \<noteq> Ascending"
      using so(3) Same_sym[OF Same] entries_below_trans[of _ "fst e" key] by auto
    then show ?thesis using Rep.prems ne Same dropWhile_below[of "entries l" key] by simp
  next
    case Descending
    then have "entries_below cmp (entries l) key" "cmp (fst e) key = Ascending"
      using so(3) entries_below_trans[of _ "fst e" key] by (auto simp: Descending_iff)
    then show ?thesis using Rep so ne Descending dropWhile_below[of "entries l" key] by simp
  qed
qed simp

lemma contains_loop_entries:
  "sized n \<Longrightarrow> sorted_entries cmp (entries n) \<Longrightarrow>
   contains_loop cmp key n \<longleftrightarrow> get_entries cmp (entries n) key \<noteq> None"
proof (induction n)
  case (Rep e c s l r)
  obtain a b where e: "e = (a, b)" by force
  have so: "sorted_entries cmp (entries l)" "sorted_entries cmp (entries r)"
    "entries_below cmp (entries l) a" "entries_above cmp (entries r) a"
    using Rep.prems(2) by (simp_all add: sorted_entries_mid e)
  note ne = sized_Rep_not_empty[OF Rep.prems(1)]
  show ?case
  proof (cases "cmp key a")
    case Ascending
    then have "entries_above cmp (entries r) key" "cmp a key \<noteq> Same"
      using so(4) entries_above_trans[of _ a key] Same_sym[of a key] by auto
    then show ?thesis using Rep Ascending so ne e
      by (auto simp: get_entries_append split: option.split)
  next
    case Same
    then have "entries_below cmp (entries l) key" "cmp a key = Same"
      using so(3) Same_sym[OF Same] entries_below_trans[of _ a key] by auto
    then show ?thesis using ne Same e by (auto simp: get_entries_append)
  next
    case Descending
    then have "entries_below cmp (entries l) key" "cmp a key = Ascending"
      using so(3) entries_below_trans[of _ a key] by (auto simp: Descending_iff)
    then show ?thesis using Rep Descending so ne e by (auto simp: get_entries_append)
  qed
qed simp

text \<open>A position is the number of entries with smaller keys.\<close>

definition entries_rank :: "'k \<Rightarrow> ('k \<times> 'v) list \<Rightarrow> nat" where
  "entries_rank k xs = length (filter (\<lambda>p. cmp (fst p) k = Ascending) xs)"

lemma entries_rank_simps [simp]:
  "entries_rank k [] = 0"
  "entries_rank k (xs @ ys) = entries_rank k xs + entries_rank k ys"
  "entries_rank k (p # xs) = (if cmp (fst p) k = Ascending then 1 else 0) + entries_rank k xs"
  by (simp_all add: entries_rank_def)

lemma entries_rank_below [simp]: "entries_below cmp xs k \<Longrightarrow> entries_rank k xs = length xs"
  by (induction xs) auto

lemma entries_rank_above [simp]: "entries_above cmp xs k \<Longrightarrow> entries_rank k xs = 0"
  using Ascending_asym by (induction xs) auto

lemma find_index_loop_entries:
  "sized n \<Longrightarrow> sorted_entries cmp (entries n) \<Longrightarrow> pruned + length (entries n) < 2 ^ 32 \<Longrightarrow>
   find_index_loop cmp key pruned n =
     (if contains_loop cmp key n then pruned + entries_rank key (entries n) else npos)"
proof (induction n arbitrary: pruned)
  case (Rep e c s l r)
  have so: "sorted_entries cmp (entries l)" "sorted_entries cmp (entries r)"
    "entries_below cmp (entries l) (fst e)" "entries_above cmp (entries r) (fst e)"
    using Rep.prems(2) by (simp_all add: sorted_entries_mid)
  note ne = sized_Rep_not_empty[OF Rep.prems(1)]
  show ?case
  proof (cases "cmp key (fst e)")
    case Ascending
    then have "entries_above cmp (entries r) key" "cmp (fst e) key \<noteq> Ascending"
      using so(4) entries_above_trans[of _ "fst e" key] Ascending_asym by auto
    then show ?thesis using Rep Ascending so ne by simp
  next
    case Same
    then have "entries_below cmp (entries l) key" "entries_above cmp (entries r) key"
      "cmp (fst e) key = Same"
      using so(3,4) Same_sym[OF Same] entries_below_trans[of _ "fst e" key]
        entries_above_trans[of _ "fst e" key] by auto
    then show ?thesis using Rep.prems ne Same by simp
  next
    case Descending
    then have "entries_below cmp (entries l) key" "cmp (fst e) key = Ascending"
      using so(3) entries_below_trans[of _ "fst e" key] by (auto simp: Descending_iff)
    then show ?thesis using Rep Descending so ne by (simp add: ac_simps)
  qed
qed simp

end

section \<open>The contract of a sorted map\<close>

text \<open>
  What clients rely on: a map is determined by its entry list, which is sorted; inserting below the
  capacity succeeds and changes the lookups of exactly the keys that compare the same; erasing
  never fails and forgets exactly those keys; a lookup reads the entry list.
\<close>

locale sorted_map_contract = comparator cmp
  for cmp :: "'k cmp" +
  fixes invar :: "'m \<Rightarrow> bool"
    and entries_of :: "'m \<Rightarrow> ('k \<times> 'v) list"
    and insert_m :: "'m \<Rightarrow> 'k \<Rightarrow> 'v \<Rightarrow> 'm res"
    and erase_m :: "'m \<Rightarrow> 'k \<Rightarrow> 'm res"
    and lookup_m :: "'m \<Rightarrow> 'k \<Rightarrow> 'v option"
    and capacity :: nat
  assumes sorted_m: "invar m \<Longrightarrow> sorted_entries cmp (entries_of m)"
    and lookup_m: "invar m \<Longrightarrow> lookup_m m k = get_entries cmp (entries_of m) k"
    and insert_m: "\<lbrakk>invar m; length (entries_of m) < capacity\<rbrakk> \<Longrightarrow>
      \<exists>m'. insert_m m k v = Inr m' \<and> invar m' \<and> length (entries_of m') \<le> Suc (length (entries_of m)) \<and>
        (\<forall>k'. get_entries cmp (entries_of m') k' =
          (if cmp k k' = Same then Some v else get_entries cmp (entries_of m) k'))"
    and erase_m: "invar m \<Longrightarrow> \<exists>m'. erase_m m k = Inr m' \<and> invar m' \<and>
        entries_of m' = del_entries cmp k (entries_of m)"
begin

lemma lookup_insert:
  "\<lbrakk>invar m; length (entries_of m) < capacity; insert_m m k v = Inr m'\<rbrakk> \<Longrightarrow>
   lookup_m m' k' = (if cmp k k' = Same then Some v else lookup_m m k')"
  using insert_m[of m k v] by (auto simp: lookup_m)

lemma lookup_erase:
  "\<lbrakk>invar m; erase_m m k = Inr m'\<rbrakk> \<Longrightarrow>
   lookup_m m' k' = (if cmp k k' = Same then None else lookup_m m k')"
  using erase_m[of m k] by (auto simp: lookup_m get_del_entries)

text \<open>Inserting a whole range, as \<^verbatim>\<open>Create\<close>, \<^verbatim>\<open>FromKeysOf\<close> and set union do.\<close>

primrec insert_all :: "('k \<times> 'v) list \<Rightarrow> 'm \<Rightarrow> 'm res" where
  "insert_all [] m = Inr m"
| "insert_all (p # ps) m = bind_res (insert_m m (fst p) (snd p)) (insert_all ps)"

lemma insert_all_correct:
  "\<lbrakk>invar m; length (entries_of m) + length ps \<le> capacity\<rbrakk> \<Longrightarrow>
   \<exists>m'. insert_all ps m = Inr m' \<and> invar m' \<and>
     length (entries_of m') \<le> length (entries_of m) + length ps \<and>
     (\<forall>k. lookup_m m' k = (case get_entries cmp (rev ps) k of Some v \<Rightarrow> Some v | None \<Rightarrow> lookup_m m k))"
proof (induction ps arbitrary: m)
  case (Cons p ps)
  obtain a v where p: "p = (a, v)" by force
  have cap: "length (entries_of m) < capacity" using Cons.prems by simp
  obtain m1 where m1: "insert_m m a v = Inr m1" "invar m1"
    "length (entries_of m1) \<le> Suc (length (entries_of m))"
    using insert_m[OF Cons.prems(1) cap, of a v] by blast
  obtain m' where m': "insert_all ps m1 = Inr m'" "invar m'"
    "length (entries_of m') \<le> length (entries_of m1) + length ps"
    "\<And>k. lookup_m m' k = (case get_entries cmp (rev ps) k of Some v \<Rightarrow> Some v | None \<Rightarrow> lookup_m m1 k)"
    using Cons.IH[OF m1(2)] Cons.prems(2) m1(3) by auto
  show ?case
    using m1 m' p lookup_insert[OF Cons.prems(1) cap m1(1)]
    by (auto simp: get_entries_append split: option.split)
qed simp

end

text \<open>The tree meets the contract.\<close>

definition tree_map_inv :: "'k cmp \<Rightarrow> ('k, 'v) TreeSortedMap \<Rightarrow> bool" where
  "tree_map_inv cmp m \<longleftrightarrow> tree_comparator m = cmp \<and> llrb_inv cmp (tree_root m)"

definition tree_map_entries :: "('k, 'v) TreeSortedMap \<Rightarrow> ('k \<times> 'v) list" where
  "tree_map_entries m = entries (tree_root m)"

definition TreeSortedMap_lookup :: "('k::default, 'v::default) TreeSortedMap \<Rightarrow> 'k \<Rightarrow> 'v option" where
  "TreeSortedMap_lookup m k =
     (let found = TreeSortedMap_find m k in if is_end found then None else Some (snd (node_entry (hd found))))"

definition tree_capacity :: nat where
  "tree_capacity = 2 ^ 31 - 1"

context key_comparator
begin

lemma tree_find_entries:
  assumes "tree_map_inv cmp m"
  shows "TreeSortedMap_lookup m k = get_entries cmp (tree_map_entries m) k"
proof -
  let ?d = "dropWhile (\<lambda>p. cmp (fst p) k = Ascending) (entries (tree_root m))"
  have r: "sized (tree_root m)" "sorted_entries cmp (entries (tree_root m))" "tree_comparator m = cmp"
    using assms by (auto simp: tree_map_inv_def llrb_inv_def good_def)
  define it where "it = TreeSortedMap_lower_bound m k"
  have it: "remaining it = ?d"
    using LowerBound_loop_remaining[OF r(1,2), of "[]" k] r(3)
    by (simp add: it_def TreeSortedMap_lower_bound_def Iterator_LowerBound_def)
  have "get_entries cmp (tree_map_entries m) k =
    (case remaining it of [] \<Rightarrow> None | p # _ \<Rightarrow> if cmp k (fst p) = Same then Some (snd p) else None)"
    using get_entries_dropWhile[OF r(2), of k] it by (simp add: tree_map_entries_def)
  then show ?thesis
    using r(3)
    by (cases it) (simp_all add: TreeSortedMap_lookup_def TreeSortedMap_find_def it_def[symmetric] is_end_def
        TreeSortedMap_end_def Iterator_End_def)
qed

lemma tree_insert_entries:
  assumes "tree_map_inv cmp m" "length (tree_map_entries m) < tree_capacity"
  shows "tree_map_inv cmp (TreeSortedMap_insert m k v)"
    "tree_map_entries (TreeSortedMap_insert m k v) = upd_entries cmp k v (tree_map_entries m)"
  using assms LlrbNode_insert_entries[of "tree_root m" k v]
  by (simp_all add: tree_map_inv_def TreeSortedMap_insert_def tree_map_entries_def tree_capacity_def)

lemma tree_erase_entries:
  assumes "tree_map_inv cmp m"
  shows "tree_map_inv cmp (TreeSortedMap_erase m k)"
    "tree_map_entries (TreeSortedMap_erase m k) = del_entries cmp k (tree_map_entries m)"
  using assms LlrbNode_erase_entries[of "tree_root m" k]
  by (simp_all add: tree_map_inv_def TreeSortedMap_erase_def tree_map_entries_def)

end

sublocale key_comparator \<subseteq> tree: sorted_map_contract cmp "tree_map_inv cmp" tree_map_entries
  "\<lambda>m k v. Inr (TreeSortedMap_insert m k v)" "\<lambda>m k. Inr (TreeSortedMap_erase m k)"
  TreeSortedMap_lookup tree_capacity
proof unfold_locales
  show "tree_map_inv cmp m \<Longrightarrow> sorted_entries cmp (tree_map_entries m)" for m
    by (simp add: tree_map_inv_def llrb_inv_def tree_map_entries_def)
qed (auto simp: tree_find_entries tree_insert_entries tree_erase_entries get_upd_entries
      intro: length_upd_entries)

end
