(* ===== verification/Array_Sorted_Map.thy ===== *)
theory Array_Sorted_Map
  imports Tree_Sorted_Map
begin

text \<open>
  The array-backed sorted map of \<^verbatim>\<open>immutable/array_sorted_map.h\<close>: a sorted array of at most
  \<open>kFixedSize\<close> entries. Appending beyond that size fails a hard assertion, so the operations return
  a result that may be a failure; the contract shows when they cannot fail.
\<close>

section \<open>The fixed-size array\<close>

definition kFixedSize :: nat where
  "kFixedSize = 25"

text \<open>Appending a range, and appending one value.\<close>

definition FixedArray_append :: "'a list \<Rightarrow> 'a list \<Rightarrow> 'a list res" where
  "FixedArray_append contents src =
     hard_assert (length contents + length src \<le> kFixedSize) (Inr (contents @ src))"

definition FixedArray_append_value :: "'a list \<Rightarrow> 'a \<Rightarrow> 'a list res" where
  "FixedArray_append_value contents x =
     hard_assert (length contents + 1 \<le> kFixedSize) (Inr (contents @ [x]))"

definition FixedArray_new :: "'a list \<Rightarrow> 'a list res" where
  "FixedArray_new src = FixedArray_append [] src"

section \<open>The map\<close>

record ('k, 'v) ArraySortedMap =
  array_entries :: "('k \<times> 'v) list"
  array_comparator :: "'k cmp"

text \<open>Iterators into the array are positions; the end is the position after the last entry.\<close>

definition ArraySortedMap_new :: "'k cmp \<Rightarrow> ('k, 'v) ArraySortedMap" where
  "ArraySortedMap_new cmp = \<lparr>array_entries = [], array_comparator = cmp\<rparr>"

definition ArraySortedMap_size :: "('k, 'v) ArraySortedMap \<Rightarrow> nat" where
  "ArraySortedMap_size m = length (array_entries m)"

definition ArraySortedMap_empty :: "('k, 'v) ArraySortedMap \<Rightarrow> bool" where
  "ArraySortedMap_empty m \<longleftrightarrow> ArraySortedMap_size m = 0"

definition ArraySortedMap_begin :: "('k, 'v) ArraySortedMap \<Rightarrow> nat" where
  "ArraySortedMap_begin m = 0"

definition ArraySortedMap_end :: "('k, 'v) ArraySortedMap \<Rightarrow> nat" where
  "ArraySortedMap_end m = length (array_entries m)"

text \<open>\<^verbatim>\<open>std::lower_bound\<close>: binary search for the first element for which the predicate fails.\<close>

fun std_lower_bound :: "('a \<Rightarrow> bool) \<Rightarrow> 'a list \<Rightarrow> nat \<Rightarrow> nat \<Rightarrow> nat" where
  "std_lower_bound lt xs first cnt =
     (if cnt = 0 then first
      else let step = cnt div 2; it = first + step
           in if lt (xs ! it) then std_lower_bound lt xs (it + 1) (cnt - (step + 1))
              else std_lower_bound lt xs first step)"

declare std_lower_bound.simps [simp del]

definition ArraySortedMap_lower_bound :: "('k, 'v) ArraySortedMap \<Rightarrow> 'k \<Rightarrow> nat" where
  "ArraySortedMap_lower_bound m key =
     std_lower_bound (\<lambda>el. array_comparator m (fst el) key = Ascending) (array_entries m)
       (ArraySortedMap_begin m) (ArraySortedMap_end m)"

text \<open>\<^verbatim>\<open>std::find_if\<close>: the first position that satisfies the predicate, or the end.\<close>

definition std_find_if :: "('a \<Rightarrow> bool) \<Rightarrow> 'a list \<Rightarrow> nat" where
  "std_find_if P xs = length (takeWhile (\<lambda>x. \<not> P x) xs)"

definition ArraySortedMap_find :: "('k, 'v) ArraySortedMap \<Rightarrow> 'k \<Rightarrow> nat" where
  "ArraySortedMap_find m key = std_find_if (\<lambda>kv. array_comparator m key (fst kv) = Same) (array_entries m)"

definition ArraySortedMap_contains :: "('k, 'v) ArraySortedMap \<Rightarrow> 'k \<Rightarrow> bool" where
  "ArraySortedMap_contains m key \<longleftrightarrow> ArraySortedMap_find m key \<noteq> ArraySortedMap_end m"

definition ArraySortedMap_find_index :: "('k, 'v) ArraySortedMap \<Rightarrow> 'k \<Rightarrow> nat" where
  "ArraySortedMap_find_index m key =
     (let found = ArraySortedMap_find m key
      in if found = ArraySortedMap_end m then npos else found - ArraySortedMap_begin m)"

definition ArraySortedMap_min :: "('k, 'v) ArraySortedMap \<Rightarrow> nat" where
  "ArraySortedMap_min m = ArraySortedMap_begin m"

definition ArraySortedMap_max :: "('k, 'v) ArraySortedMap \<Rightarrow> nat" where
  "ArraySortedMap_max m =
     (if ArraySortedMap_empty m then ArraySortedMap_end m else ArraySortedMap_end m - 1)"

definition ArraySortedMap_insert :: "('k, 'v) ArraySortedMap \<Rightarrow> 'k \<Rightarrow> 'v
    \<Rightarrow> ('k, 'v) ArraySortedMap res" where
  "ArraySortedMap_insert m key v =
     (let xs = array_entries m;
          current_end = ArraySortedMap_end m;
          pos = ArraySortedMap_lower_bound m key;
          replacing_entry = (pos \<noteq> current_end \<and> array_comparator m key (fst (xs ! pos)) = Same)
      in if replacing_entry \<and> v = snd (xs ! pos) then Inr m
         else bind_res (FixedArray_new (take pos xs)) (\<lambda>copy1.
              bind_res (FixedArray_append_value copy1 (key, v)) (\<lambda>copy2.
              bind_res (FixedArray_append copy2 (if replacing_entry then drop (pos + 1) xs else drop pos xs))
                (\<lambda>copy. Inr (m\<lparr>array_entries := copy\<rparr>)))))"

definition ArraySortedMap_erase :: "('k, 'v) ArraySortedMap \<Rightarrow> 'k \<Rightarrow> ('k, 'v) ArraySortedMap res" where
  "ArraySortedMap_erase m key =
     (let xs = array_entries m;
          current_end = ArraySortedMap_end m;
          pos = ArraySortedMap_find m key
      in if pos = current_end then Inr m
         else if ArraySortedMap_size m \<le> 1 then Inr (m\<lparr>array_entries := []\<rparr>)
         else bind_res (FixedArray_new (take pos xs)) (\<lambda>copy1.
              bind_res (FixedArray_append copy1 (drop (pos + 1) xs)) (\<lambda>copy.
              Inr (m\<lparr>array_entries := copy\<rparr>))))"

text \<open>
  The constructor from an initializer list sorts it by key. Sorting does not remove
  entries whose keys compare the same.
\<close>

definition SortedArray :: "('k \<times> 'v) list \<Rightarrow> 'k cmp \<Rightarrow> ('k \<times> 'v) list res" where
  "SortedArray es cmp = FixedArray_new (std_sort_entries cmp es)"

definition ArraySortedMap_init :: "('k \<times> 'v) list \<Rightarrow> 'k cmp \<Rightarrow> ('k, 'v) ArraySortedMap res" where
  "ArraySortedMap_init es cmp =
     bind_res (SortedArray es cmp) (\<lambda>xs. Inr \<lparr>array_entries = xs, array_comparator = cmp\<rparr>)"

section \<open>Binary search finds the partition point\<close>

text \<open>A range is partitioned by a predicate when no element that satisfies it follows one that does not.\<close>

definition partitioned :: "('a \<Rightarrow> bool) \<Rightarrow> 'a list \<Rightarrow> bool" where
  "partitioned P xs \<longleftrightarrow> (\<forall>i j. i < j \<and> j < length xs \<and> P (xs ! j) \<longrightarrow> P (xs ! i))"

lemma partitionedD: "partitioned P xs \<Longrightarrow> i < j \<Longrightarrow> j < length xs \<Longrightarrow> P (xs ! j) \<Longrightarrow> P (xs ! i)"
  by (auto simp: partitioned_def)

lemma takeWhile_length_unique:
  assumes "n \<le> length xs" "\<And>i. i < n \<Longrightarrow> P (xs ! i)" "n < length xs \<Longrightarrow> \<not> P (xs ! n)"
  shows "length (takeWhile P xs) = n"
  using assms length_takeWhile_less_P_nth
  by (metis length_takeWhile_le nth_length_takeWhile nat_neq_iff order.strict_trans2 order_le_imp_less_or_eq
      takeWhile_nth nth_mem set_takeWhileD)

lemma std_lower_bound_correct:
  assumes "partitioned P xs" "first + cnt \<le> length xs"
    "\<And>i. i < first \<Longrightarrow> P (xs ! i)" "first + cnt < length xs \<Longrightarrow> \<not> P (xs ! (first + cnt))"
  shows "std_lower_bound P xs first cnt = length (takeWhile P xs)"
  using assms
proof (induction P xs first cnt rule: std_lower_bound.induct)
  case (1 P xs first cnt)
  show ?case
  proof (cases "cnt = 0")
    case True
    then have "length (takeWhile P xs) = first"
      using "1.prems" by (intro takeWhile_length_unique) auto
    then show ?thesis using True by (simp add: std_lower_bound.simps)
  next
    case False
    define mid where "mid = first + cnt div 2"
    have m: "mid < first + cnt" "mid < length xs" using False "1.prems"(2) by (auto simp: mid_def)
    show ?thesis
    proof (cases "P (xs ! mid)")
      case True
      have "P (xs ! i)" if "i < mid + 1" for i
        using partitionedD[OF "1.prems"(1) _ m(2) True] True that by (cases "i = mid") simp_all
      then have "std_lower_bound P xs (mid + 1) (cnt - (cnt div 2 + 1)) = length (takeWhile P xs)"
        using "1.IH"(1)[OF False refl refl] True "1.prems" m False by (simp add: mid_def)
      then show ?thesis using False True by (subst std_lower_bound.simps) (simp add: mid_def Let_def)
    next
      case F: False
      then have "std_lower_bound P xs first (cnt div 2) = length (takeWhile P xs)"
        using "1.IH"(2)[OF False refl refl] "1.prems" m False by (simp add: mid_def)
      then show ?thesis using False F by (subst std_lower_bound.simps) (simp add: mid_def Let_def)
    qed
  qed
qed

lemma std_find_if_le: "std_find_if P xs \<le> length xs"
  by (simp add: std_find_if_def length_takeWhile_le)

section \<open>The array meets the contract\<close>

definition array_map_inv :: "'k cmp \<Rightarrow> ('k, 'v) ArraySortedMap \<Rightarrow> bool" where
  "array_map_inv cmp m \<longleftrightarrow> array_comparator m = cmp \<and> sorted_entries cmp (array_entries m) \<and>
     length (array_entries m) \<le> kFixedSize"

definition ArraySortedMap_lookup :: "('k, 'v) ArraySortedMap \<Rightarrow> 'k \<Rightarrow> 'v option" where
  "ArraySortedMap_lookup m k =
     (let pos = ArraySortedMap_find m k
      in if pos = ArraySortedMap_end m then None else Some (snd (array_entries m ! pos)))"

context comparator
begin

lemma sorted_partitioned:
  "sorted_entries cmp xs \<Longrightarrow> partitioned (\<lambda>el. cmp (fst el) k = Ascending) xs"
  unfolding partitioned_def sorted_entries_def
  by (auto dest: sorted_wrt_nth_less intro: Ascending_trans)

lemma array_lower_bound:
  assumes "array_map_inv cmp m"
  shows "ArraySortedMap_lower_bound m k =
    length (takeWhile (\<lambda>el. cmp (fst el) k = Ascending) (array_entries m))"
  using assms sorted_partitioned[of "array_entries m" k]
  by (auto simp: ArraySortedMap_lower_bound_def ArraySortedMap_begin_def ArraySortedMap_end_def
      array_map_inv_def intro!: std_lower_bound_correct)

lemma std_find_if_get_entries:
  "(case drop (std_find_if (\<lambda>kv. cmp k (fst kv) = Same) xs) xs of [] \<Rightarrow> None | p # _ \<Rightarrow> Some (snd p)) =
   get_entries cmp xs k"
proof (induction xs)
  case (Cons p xs)
  have "cmp k (fst p) = Same \<longleftrightarrow> cmp (fst p) k = Same" using Same_sym by blast
  then show ?case using Cons by (cases p) (simp add: std_find_if_def)
qed (simp add: std_find_if_def)

lemma case_drop_nth:
  "(case drop n xs of [] \<Rightarrow> None | p # _ \<Rightarrow> Some (f p)) = (if n < length xs then Some (f (xs ! n)) else None)"
  by (cases "n < length xs") (simp_all add: Cons_nth_drop_Suc[symmetric])

lemma array_lookup_entries:
  "array_map_inv cmp m \<Longrightarrow> ArraySortedMap_lookup m k = get_entries cmp (array_entries m) k"
  using std_find_if_get_entries[of k "array_entries m"] std_find_if_le[of "\<lambda>kv. cmp k (fst kv) = Same" "array_entries m"]
  by (auto simp: ArraySortedMap_lookup_def ArraySortedMap_find_def ArraySortedMap_end_def array_map_inv_def
      case_drop_nth Let_def split: if_splits)

text \<open>Inserting at the partition point.\<close>

definition put_entries :: "'a \<Rightarrow> 'v \<Rightarrow> ('a \<times> 'v) list \<Rightarrow> ('a \<times> 'v) list" where
  "put_entries k v xs = takeWhile (\<lambda>el. cmp (fst el) k = Ascending) xs @
     (k, v) # dropWhile (\<lambda>el. cmp (fst el) k \<noteq> Descending) xs"

lemma dropWhile_not_Descending:
  assumes "sorted_entries cmp xs"
  shows "dropWhile (\<lambda>el. cmp (fst el) k \<noteq> Descending) xs =
    (case dropWhile (\<lambda>el. cmp (fst el) k = Ascending) xs of [] \<Rightarrow> []
     | p # ps \<Rightarrow> if cmp k (fst p) = Same then ps else p # ps)"
  using assms
proof (induction xs)
  case (Cons p xs)
  show ?case
  proof (cases "cmp (fst p) k")
    case Same
    then have k: "cmp k (fst p) = Same" by (rule Same_sym)
    then have "entries_above cmp xs k" using Cons.prems by (auto intro: entries_above_trans)
    then have "dropWhile (\<lambda>el. cmp (fst el) k \<noteq> Descending) xs = xs"
      by (cases xs) (auto simp: Descending_iff)
    then show ?thesis using Same k by simp
  next
    case Descending
    then have "cmp k (fst p) = Ascending" by (simp add: Descending_iff)
    then show ?thesis using Descending by simp
  qed (use Cons in simp)
qed simp

lemma put_entries_sorted: "sorted_entries cmp xs \<Longrightarrow> sorted_entries cmp (put_entries k v xs)"
proof -
  assume so: "sorted_entries cmp xs"
  have b: "entries_below cmp (takeWhile (\<lambda>el. cmp (fst el) k = Ascending) xs) k"
    by (auto simp: entries_below_def dest: set_takeWhileD)
  have a: "entries_above cmp (dropWhile (\<lambda>el. cmp (fst el) k \<noteq> Descending) xs) k"
    using so
  proof (induction xs)
    case (Cons p xs)
    show ?case
    proof (cases "cmp (fst p) k = Descending")
      case True
      then have "cmp k (fst p) = Ascending" by (simp add: Descending_iff)
      then show ?thesis using True Cons.prems by (auto intro: entries_above_trans)
    qed (use Cons in simp)
  qed simp
  show ?thesis
    using so a b unfolding put_entries_def sorted_entries_mid
    by (auto simp: sorted_entries_def sorted_wrt_takeWhile sorted_wrt_dropWhile)
qed

lemma get_put_entries:
  fixes xs :: "('a \<times> 'b) list"
  assumes so: "sorted_entries cmp xs"
  shows "get_entries cmp (put_entries k v xs) k' =
    (if cmp k k' = Same then Some v else get_entries cmp xs k')"
proof -
  let ?tw = "takeWhile (\<lambda>el. cmp (fst el) k = Ascending) xs"
  let ?dw = "dropWhile (\<lambda>el. cmp (fst el) k = Ascending) xs"
  have b: "entries_below cmp ?tw k" by (auto simp: entries_below_def dest: set_takeWhileD)
  have xs: "get_entries cmp xs k' =
      (case get_entries cmp ?tw k' of None \<Rightarrow> get_entries cmp ?dw k' | Some v \<Rightarrow> Some v)"
    using get_entries_append[of cmp ?tw ?dw k'] by simp
  show ?thesis
  proof (cases "cmp k k' = Same")
    case True
    then have "entries_below cmp ?tw k'" using b entries_below_trans[of ?tw k k'] by simp
    then show ?thesis using True by (simp add: put_entries_def get_entries_append)
  next
    case False
    have ns: "cmp p k' = Same \<Longrightarrow> cmp k p \<noteq> Same" for p using False Same_trans by blast
    have "get_entries cmp (case dw of [] \<Rightarrow> [] | p # ps \<Rightarrow> if cmp k (fst p) = Same then ps else p # ps) k' =
        get_entries cmp dw k'" for dw :: "('a \<times> 'b) list"
      using ns by (cases dw) auto
    then have "get_entries cmp (dropWhile (\<lambda>el. cmp (fst el) k \<noteq> Descending) xs) k' = get_entries cmp ?dw k'"
      unfolding dropWhile_not_Descending[OF so] .
    then show ?thesis
      unfolding xs put_entries_def using False by (auto simp: get_entries_append split: option.split)
  qed
qed

lemma length_put_entries: "sorted_entries cmp xs \<Longrightarrow> length (put_entries k v xs) \<le> Suc (length xs)"
proof -
  assume so: "sorted_entries cmp xs"
  define tw dw where "tw = takeWhile (\<lambda>el. cmp (fst el) k = Ascending) xs"
    and "dw = dropWhile (\<lambda>el. cmp (fst el) k = Ascending) xs"
  have "length tw + length dw = length xs"
    unfolding tw_def dw_def by (metis length_append takeWhile_dropWhile_id)
  then show ?thesis
    unfolding put_entries_def dropWhile_not_Descending[OF so] dw_def[symmetric] tw_def[symmetric]
    by (auto split: list.split)
qed

lemma array_insert_entries:
  assumes inv: "array_map_inv cmp m" and len: "length (array_entries m) < kFixedSize"
  shows "\<exists>m'. ArraySortedMap_insert m k v = Inr m' \<and> array_map_inv cmp m' \<and>
    (m' = m \<and> get_entries cmp (array_entries m) k = Some v \<or>
     array_entries m' = put_entries k v (array_entries m))"
proof -
  let ?xs = "array_entries m"
  let ?tw = "takeWhile (\<lambda>el. cmp (fst el) k = Ascending) ?xs"
  define pos where "pos = length ?tw"
  have c: "array_comparator m = cmp" and so: "sorted_entries cmp ?xs" using inv by (simp_all add: array_map_inv_def)
  have lb: "ArraySortedMap_lower_bound m k = pos" using array_lower_bound[OF inv] by (simp add: pos_def)
  have take: "take pos ?xs = ?tw" and drop: "drop pos ?xs = dropWhile (\<lambda>el. cmp (fst el) k = Ascending) ?xs"
    unfolding pos_def by (simp_all add: takeWhile_eq_take[symmetric] dropWhile_eq_drop[symmetric])
  define rep where "rep \<longleftrightarrow> pos \<noteq> length ?xs \<and> cmp k (fst (?xs ! pos)) = Same"
  have le: "pos \<le> length ?xs" by (simp add: pos_def length_takeWhile_le)
  have rest: "(if rep then drop (pos + 1) ?xs else drop pos ?xs) =
      dropWhile (\<lambda>el. cmp (fst el) k \<noteq> Descending) ?xs"
    unfolding dropWhile_not_Descending[OF so] drop[symmetric] rep_def using le
    by (cases "pos < length ?xs") (auto simp: Cons_nth_drop_Suc[symmetric])
  have hit: "get_entries cmp ?xs k = Some (snd (?xs ! pos))" if rep
    using that le unfolding rep_def get_entries_dropWhile[OF so] drop[symmetric]
    by (simp add: Cons_nth_drop_Suc[symmetric])
  have "length ?tw + Suc (length (dropWhile (\<lambda>el. cmp (fst el) k \<noteq> Descending) ?xs)) \<le> kFixedSize"
    using length_put_entries[OF so, of k v] len by (simp add: put_entries_def)
  then have "ArraySortedMap_insert m k v =
      (if rep \<and> v = snd (?xs ! pos) then Inr m else Inr (m\<lparr>array_entries := put_entries k v ?xs\<rparr>))"
    unfolding ArraySortedMap_insert_def Let_def lb ArraySortedMap_end_def c rep_def[symmetric] rest take
    by (simp add: FixedArray_new_def FixedArray_append_def FixedArray_append_value_def put_entries_def)
  moreover have "length (put_entries k v ?xs) \<le> kFixedSize"
    using length_put_entries[OF so, of k v] len by simp
  ultimately show ?thesis
    using inv hit put_entries_sorted[OF so, of k v] by (auto simp: array_map_inv_def)
qed

lemma del_entries_find_if:
  assumes "sorted_entries cmp xs" "pos = std_find_if (\<lambda>kv. cmp k (fst kv) = Same) xs"
  shows "del_entries cmp k xs = take pos xs @ drop (Suc pos) xs"
  using assms
proof (induction xs arbitrary: pos)
  case (Cons p xs)
  have "cmp k (fst p) = Same \<longleftrightarrow> cmp (fst p) k = Same" using Same_sym by blast
  moreover have "cmp (fst p) k = Same \<Longrightarrow> entries_above cmp xs k"
    using Cons.prems(1) Same_sym[of "fst p" k] by (auto intro: entries_above_trans)
  ultimately show ?case
    using Cons.IH[OF _ refl] Cons.prems by (cases "cmp (fst p) k = Same") (simp_all add: std_find_if_def)
qed simp

lemma array_erase_entries:
  assumes inv: "array_map_inv cmp m"
  shows "\<exists>m'. ArraySortedMap_erase m k = Inr m' \<and> array_map_inv cmp m' \<and>
    array_entries m' = del_entries cmp k (array_entries m)"
proof -
  let ?xs = "array_entries m"
  have c: "array_comparator m = cmp" and so: "sorted_entries cmp ?xs" and len: "length ?xs \<le> kFixedSize"
    using inv by (simp_all add: array_map_inv_def)
  define pos where "pos = std_find_if (\<lambda>kv. cmp k (fst kv) = Same) ?xs"
  have le: "pos \<le> length ?xs" by (simp add: pos_def std_find_if_le)
  note del = del_entries_find_if[OF so pos_def]
  have e: "ArraySortedMap_erase m k =
      (if pos = length ?xs then Inr m else Inr (m\<lparr>array_entries := del_entries cmp k ?xs\<rparr>))"
    using le len
    by (auto simp: ArraySortedMap_erase_def ArraySortedMap_find_def ArraySortedMap_end_def
        ArraySortedMap_size_def c pos_def[symmetric] FixedArray_new_def FixedArray_append_def del Let_def)
  have "pos = length ?xs \<Longrightarrow> del_entries cmp k ?xs = ?xs" using del by simp
  then show ?thesis
    using e inv sorted_del_entries[OF so, of k] length_del_entries[of k ?xs] len
    by (auto simp: array_map_inv_def)
qed

end

sublocale comparator \<subseteq> array: sorted_map_contract cmp "array_map_inv cmp" array_entries
  ArraySortedMap_insert ArraySortedMap_erase ArraySortedMap_lookup kFixedSize
proof unfold_locales
  show "array_map_inv cmp m \<Longrightarrow> sorted_entries cmp (array_entries m)" for m
    by (simp add: array_map_inv_def)
  show "\<exists>m'. ArraySortedMap_insert m k v = Inr m' \<and> array_map_inv cmp m' \<and>
      length (array_entries m') \<le> Suc (length (array_entries m)) \<and>
      (\<forall>k'. get_entries cmp (array_entries m') k' =
        (if cmp k k' = Same then Some v else get_entries cmp (array_entries m) k'))"
    if inv: "array_map_inv cmp m" and len: "length (array_entries m) < kFixedSize"
    for m :: "('a, 'c) ArraySortedMap" and k v
  proof -
    obtain m' where m': "ArraySortedMap_insert m k v = Inr m'" "array_map_inv cmp m'"
      "m' = m \<and> get_entries cmp (array_entries m) k = Some v \<or>
       array_entries m' = put_entries k v (array_entries m)"
      using array_insert_entries[OF inv len, of k v] by blast
    have so: "sorted_entries cmp (array_entries m)" using inv by (simp add: array_map_inv_def)
    have "get_entries cmp xs k = get_entries cmp xs k'" if "cmp k k' = Same" for xs :: "('a \<times> 'c) list" and k'
      using Same_right[OF that] by (induction xs) auto
    then show ?thesis
      using m' get_put_entries[OF so, of k v] length_put_entries[OF so, of k v] by auto
  qed
qed (auto simp: array_lookup_entries array_erase_entries)

end
