(* ===== verification/Sorted_Map.thy ===== *)
theory Sorted_Map
  imports Array_Sorted_Map
begin

text \<open>
  The sorted map that clients use, \<^verbatim>\<open>immutable/sorted_map.h\<close>: a tagged union of the array and the
  tree that changes representation at \<open>kFixedSize\<close> entries; its iterator
  (\<^verbatim>\<open>sorted_map_iterator.h\<close>), the key views (\<^verbatim>\<open>keys_view.h\<close>) and the sorted set
  (\<^verbatim>\<open>sorted_set.h\<close>) built on it.
\<close>

section \<open>The map\<close>

datatype ('k, 'v) SortedMap =
    ArrayMap "('k, 'v) ArraySortedMap"
  | TreeMap "('k, 'v) TreeSortedMap"

datatype Tag = TagArray | TagTree

definition SortedMap_new :: "'k cmp \<Rightarrow> ('k, 'v) SortedMap" where
  "SortedMap_new cmp = ArrayMap (ArraySortedMap_new cmp)"

text \<open>
  The constructor from an initializer list. Its second branch constructs the tree member but does
  not assign \<^verbatim>\<open>tag_\<close>, which keeps whatever value the storage held (\<open>junk\<close>). If that value is the
  array tag, every later access reads the inactive member of the union.
\<close>

definition SortedMap_init :: "Tag \<Rightarrow> ('k::default \<times> 'v::default) list \<Rightarrow> 'k cmp \<Rightarrow> ('k, 'v) SortedMap res"
where
  "SortedMap_init junk es cmp =
     (if length es \<le> kFixedSize
      then bind_res (ArraySortedMap_init es cmp) (\<lambda>a. Inr (ArrayMap a))
      else (let tree = TreeSortedMap_Create es cmp
            in case junk of TagTree \<Rightarrow> Inr (TreeMap tree) | TagArray \<Rightarrow> Inl InactiveMember))"

fun SortedMap_empty :: "('k, 'v) SortedMap \<Rightarrow> bool" where
  "SortedMap_empty (ArrayMap a) = ArraySortedMap_empty a"
| "SortedMap_empty (TreeMap t) = TreeSortedMap_empty t"

fun SortedMap_size :: "('k, 'v) SortedMap \<Rightarrow> nat" where
  "SortedMap_size (ArrayMap a) = ArraySortedMap_size a"
| "SortedMap_size (TreeMap t) = TreeSortedMap_size t"

fun SortedMap_comparator :: "('k, 'v) SortedMap \<Rightarrow> 'k cmp" where
  "SortedMap_comparator (ArrayMap a) = array_comparator a"
| "SortedMap_comparator (TreeMap t) = tree_comparator t"

fun SortedMap_insert :: "('k::default, 'v::default) SortedMap \<Rightarrow> 'k \<Rightarrow> 'v \<Rightarrow> ('k, 'v) SortedMap res" where
  "SortedMap_insert (ArrayMap a) key v =
     (if ArraySortedMap_size a \<ge> kFixedSize
      then (let tree = TreeSortedMap_Create (array_entries a) (array_comparator a)
            in Inr (TreeMap (TreeSortedMap_insert tree key v)))
      else bind_res (ArraySortedMap_insert a key v) (\<lambda>a'. Inr (ArrayMap a')))"
| "SortedMap_insert (TreeMap t) key v = Inr (TreeMap (TreeSortedMap_insert t key v))"

fun SortedMap_erase :: "('k::default, 'v::default) SortedMap \<Rightarrow> 'k \<Rightarrow> ('k, 'v) SortedMap res" where
  "SortedMap_erase (ArrayMap a) key = bind_res (ArraySortedMap_erase a key) (\<lambda>a'. Inr (ArrayMap a'))"
| "SortedMap_erase (TreeMap t) key =
     (let result = TreeSortedMap_erase t key
      in if TreeSortedMap_empty result then Inr (SortedMap_new (tree_comparator t))
         else Inr (TreeMap result))"

fun SortedMap_contains :: "('k, 'v) SortedMap \<Rightarrow> 'k \<Rightarrow> bool" where
  "SortedMap_contains (ArrayMap a) key = ArraySortedMap_contains a key"
| "SortedMap_contains (TreeMap t) key = TreeSortedMap_contains t key"

fun SortedMap_find_index :: "('k, 'v) SortedMap \<Rightarrow> 'k \<Rightarrow> nat" where
  "SortedMap_find_index (ArrayMap a) key = ArraySortedMap_find_index a key"
| "SortedMap_find_index (TreeMap t) key = TreeSortedMap_find_index t key"

section \<open>The iterator\<close>

text \<open>An array iterator points into an array; a tree iterator is a stack.\<close>

datatype ('k, 'v) SortedMapIterator =
    ArrayIter "('k \<times> 'v) list" nat
  | TreeIter "('k, 'v) LlrbNodeIterator"

fun SortedMapIterator_get :: "('k::default, 'v::default) SortedMapIterator \<Rightarrow> ('k \<times> 'v) res" where
  "SortedMapIterator_get (ArrayIter xs i) = (if i < length xs then Inr (xs ! i) else Inl InactiveMember)"
| "SortedMapIterator_get (TreeIter it) = Iterator_get it"

fun SortedMapIterator_next :: "('k, 'v) SortedMapIterator \<Rightarrow> ('k, 'v) SortedMapIterator res" where
  "SortedMapIterator_next (ArrayIter xs i) = Inr (ArrayIter xs (i + 1))"
| "SortedMapIterator_next (TreeIter it) = bind_res (Iterator_next it) (\<lambda>it'. Inr (TreeIter it'))"

fun SortedMapIterator_eq :: "('k::default, 'v::default) SortedMapIterator \<Rightarrow> ('k, 'v) SortedMapIterator \<Rightarrow> bool"
where
  "SortedMapIterator_eq (ArrayIter xs i) (ArrayIter ys j) = (i = j)"
| "SortedMapIterator_eq (TreeIter a) (TreeIter b) = Iterator_eq a b"
| "SortedMapIterator_eq _ _ = False"

fun SortedMap_begin :: "('k, 'v) SortedMap \<Rightarrow> ('k, 'v) SortedMapIterator" where
  "SortedMap_begin (ArrayMap a) = ArrayIter (array_entries a) (ArraySortedMap_begin a)"
| "SortedMap_begin (TreeMap t) = TreeIter (TreeSortedMap_begin t)"

fun SortedMap_end :: "('k, 'v) SortedMap \<Rightarrow> ('k, 'v) SortedMapIterator" where
  "SortedMap_end (ArrayMap a) = ArrayIter (array_entries a) (ArraySortedMap_end a)"
| "SortedMap_end (TreeMap t) = TreeIter (TreeSortedMap_end t)"

fun SortedMap_find :: "('k::default, 'v::default) SortedMap \<Rightarrow> 'k \<Rightarrow> ('k, 'v) SortedMapIterator" where
  "SortedMap_find (ArrayMap a) key = ArrayIter (array_entries a) (ArraySortedMap_find a key)"
| "SortedMap_find (TreeMap t) key = TreeIter (TreeSortedMap_find t key)"

fun SortedMap_lower_bound :: "('k, 'v) SortedMap \<Rightarrow> 'k \<Rightarrow> ('k, 'v) SortedMapIterator" where
  "SortedMap_lower_bound (ArrayMap a) key = ArrayIter (array_entries a) (ArraySortedMap_lower_bound a key)"
| "SortedMap_lower_bound (TreeMap t) key = TreeIter (TreeSortedMap_lower_bound t key)"

fun SortedMap_min :: "('k, 'v) SortedMap \<Rightarrow> ('k, 'v) SortedMapIterator" where
  "SortedMap_min (ArrayMap a) = ArrayIter (array_entries a) (ArraySortedMap_min a)"
| "SortedMap_min (TreeMap t) = TreeIter (TreeSortedMap_min t)"

fun SortedMap_max :: "('k, 'v) SortedMap \<Rightarrow> ('k, 'v) SortedMapIterator" where
  "SortedMap_max (ArrayMap a) = ArrayIter (array_entries a) (ArraySortedMap_max a)"
| "SortedMap_max (TreeMap t) = TreeIter (TreeSortedMap_max t)"

definition SortedMap_get :: "('k::default, 'v::default) SortedMap \<Rightarrow> 'k \<Rightarrow> 'v option" where
  "SortedMap_get m key =
     (let found = SortedMap_find m key
      in if \<not> SortedMapIterator_eq found (SortedMap_end m)
         then (case SortedMapIterator_get found of Inr e \<Rightarrow> Some (snd e) | Inl _ \<Rightarrow> None)
         else None)"

section \<open>Key views\<close>

text \<open>
  A view is a pair of iterators. Walking it steps the first until it equals the second; stepping
  past the end of a tree fails an assertion, and an array position past the end has no entry.
\<close>

fun it_weight :: "('k, 'v) SortedMapIterator \<Rightarrow> nat" where
  "it_weight (ArrayIter xs i) = length xs - i"
| "it_weight (TreeIter it) = sum_list (map (\<lambda>n. Suc (weight (right n))) it)"

lemma AccumulateLeft_weight:
  "sum_list (map (\<lambda>n. Suc (weight (right n))) (AccumulateLeft n it)) \<le>
   weight n + sum_list (map (\<lambda>n. Suc (weight (right n))) it)"
proof (induction n arbitrary: it)
  case (Rep e c s l r)
  show ?case using Rep.IH(1)[of "Rep e c s l r # it"] by simp
qed simp

lemma it_weight_next:
  "SortedMapIterator_get it = Inr e \<Longrightarrow> SortedMapIterator_next it = Inr it' \<Longrightarrow> it_weight it' < it_weight it"
proof (cases it)
  case (TreeIter st)
  assume "SortedMapIterator_get it = Inr e" "SortedMapIterator_next it = Inr it'"
  then obtain n st' where "st = n # st'" "it' = TreeIter (AccumulateLeft (right n) st')"
    using TreeIter by (cases st) (auto simp: Iterator_next_def is_end_def)
  then show ?thesis using AccumulateLeft_weight[of "right n" st'] TreeIter by simp
qed (auto split: if_splits)

function walk_keys :: "('k::default, 'v::default) SortedMapIterator \<Rightarrow> ('k, 'v) SortedMapIterator \<Rightarrow> 'k list res"
where
  "walk_keys it en =
     (if SortedMapIterator_eq it en then Inr []
      else case SortedMapIterator_get it of
             Inl f \<Rightarrow> Inl f
           | Inr e \<Rightarrow> (case SortedMapIterator_next it of
                        Inl f \<Rightarrow> Inl f
                      | Inr it' \<Rightarrow> bind_res (walk_keys it' en) (\<lambda>ks. Inr (fst e # ks))))"
  by pat_completeness auto
termination
  by (relation "measure (\<lambda>(it, en). it_weight it)") (auto intro: it_weight_next)

declare walk_keys.simps [simp del]

definition KeysView :: "('k::default, 'v::default) SortedMap \<Rightarrow> 'k list res" where
  "KeysView m = walk_keys (SortedMap_begin m) (SortedMap_end m)"

definition KeysViewFrom :: "('k::default, 'v::default) SortedMap \<Rightarrow> 'k \<Rightarrow> 'k list res" where
  "KeysViewFrom m key = walk_keys (SortedMap_lower_bound m key) (SortedMap_end m)"

definition KeysViewIn :: "('k::default, 'v::default) SortedMap \<Rightarrow> 'k \<Rightarrow> 'k \<Rightarrow> 'k list res" where
  "KeysViewIn m start_key end_key =
     (if SortedMap_comparator m start_key end_key \<noteq> Ascending
      then walk_keys (SortedMap_end m) (SortedMap_end m)
      else walk_keys (SortedMap_lower_bound m start_key) (SortedMap_lower_bound m end_key))"

section \<open>The sorted set\<close>

text \<open>A set is a map whose values are the empty struct \<^verbatim>\<open>util::Empty\<close>.\<close>

type_synonym 'k SortedSet = "('k, unit) SortedMap"

definition SortedSet_new :: "'k cmp \<Rightarrow> 'k SortedSet" where
  "SortedSet_new cmp = SortedMap_new cmp"

definition SortedSet_insert :: "'k::default SortedSet \<Rightarrow> 'k \<Rightarrow> 'k SortedSet res" where
  "SortedSet_insert s key = SortedMap_insert s key ()"

definition SortedSet_erase :: "'k::default SortedSet \<Rightarrow> 'k \<Rightarrow> 'k SortedSet res" where
  "SortedSet_erase s key = SortedMap_erase s key"

definition SortedSet_contains :: "'k SortedSet \<Rightarrow> 'k \<Rightarrow> bool" where
  "SortedSet_contains s key = SortedMap_contains s key"

definition SortedSet_find_index :: "'k SortedSet \<Rightarrow> 'k \<Rightarrow> nat" where
  "SortedSet_find_index s key = SortedMap_find_index s key"

text \<open>The insertion loop that the constructor, \<^verbatim>\<open>union_with\<close> and \<^verbatim>\<open>FromKeysOf\<close> share.\<close>

fun SortedSet_insert_loop :: "'k::default list \<Rightarrow> 'k SortedSet \<Rightarrow> 'k SortedSet res" where
  "SortedSet_insert_loop [] s = Inr s"
| "SortedSet_insert_loop (k # ks) s = bind_res (SortedSet_insert s k) (SortedSet_insert_loop ks)"

definition SortedSet_init :: "'k::default list \<Rightarrow> 'k cmp \<Rightarrow> 'k SortedSet res" where
  "SortedSet_init es cmp = SortedSet_insert_loop es (SortedSet_new cmp)"

definition SortedSet_union_with :: "'k::default SortedSet \<Rightarrow> 'k SortedSet \<Rightarrow> 'k SortedSet res" where
  "SortedSet_union_with this other =
     (let (result, other') = (if SortedMap_size this < SortedMap_size other then (other, this) else (this, other))
      in bind_res (KeysView other') (\<lambda>ks. SortedSet_insert_loop ks result))"

definition SortedSet_FromKeysOf :: "'k cmp \<Rightarrow> ('k::default, 'v::default) SortedMap \<Rightarrow> 'k SortedSet res" where
  "SortedSet_FromKeysOf cmp m = bind_res (KeysView m) (\<lambda>ks. SortedSet_insert_loop ks (SortedSet_new cmp))"

definition SortedSet_eq :: "'k::default SortedSet \<Rightarrow> 'k SortedSet \<Rightarrow> bool res" where
  "SortedSet_eq lhs rhs =
     (if SortedMap_size lhs \<noteq> SortedMap_size rhs then Inr False
      else bind_res (KeysView lhs) (\<lambda>xs. bind_res (KeysView rhs) (\<lambda>ys. Inr (xs = ys))))"

definition SortedSet_values_from :: "'k::default SortedSet \<Rightarrow> 'k \<Rightarrow> 'k list res" where
  "SortedSet_values_from s key = KeysViewFrom s key"

definition SortedSet_values_in :: "'k::default SortedSet \<Rightarrow> 'k \<Rightarrow> 'k \<Rightarrow> 'k list res" where
  "SortedSet_values_in s start_key end_key = KeysViewIn s start_key end_key"

section \<open>The map meets the contract\<close>

fun SortedMap_entries :: "('k, 'v) SortedMap \<Rightarrow> ('k \<times> 'v) list" where
  "SortedMap_entries (ArrayMap a) = array_entries a"
| "SortedMap_entries (TreeMap t) = tree_map_entries t"

fun sorted_map_inv :: "'k cmp \<Rightarrow> ('k, 'v) SortedMap \<Rightarrow> bool" where
  "sorted_map_inv cmp (ArrayMap a) = array_map_inv cmp a"
| "sorted_map_inv cmp (TreeMap t) = tree_map_inv cmp t"

lemma SortedMap_get_eq:
  "SortedMap_get m k = (case m of ArrayMap a \<Rightarrow> ArraySortedMap_lookup a k | TreeMap t \<Rightarrow> TreeSortedMap_lookup t k)"
proof (cases m)
  case (ArrayMap a)
  then show ?thesis
    using std_find_if_le[of "\<lambda>kv. array_comparator a k (fst kv) = Same" "array_entries a"]
    by (auto simp: SortedMap_get_def ArraySortedMap_lookup_def ArraySortedMap_find_def ArraySortedMap_end_def Let_def)
next
  case (TreeMap t)
  then show ?thesis
    by (auto simp: SortedMap_get_def TreeSortedMap_lookup_def Iterator_eq_def Iterator_get_def
        TreeSortedMap_end_def Iterator_End_def is_end_def Let_def)
qed

context key_comparator
begin

text \<open>Converting a sorted array to a tree keeps its entries.\<close>

lemma upd_entries_last:
  "entries_below cmp xs k \<Longrightarrow> upd_entries cmp k v xs = xs @ [(k, v)]"
  using upd_entries_below[of xs k v "[]"] by simp

lemma fold_insert_sorted:
  assumes "llrb_inv cmp n" "sorted_entries cmp (entries n @ xs)"
    "length (entries n) + length xs \<le> tree_capacity"
  shows "llrb_inv cmp (fold (\<lambda>p n. LlrbNode_insert cmp n (fst p) (snd p)) xs n) \<and>
    entries (fold (\<lambda>p n. LlrbNode_insert cmp n (fst p) (snd p)) xs n) = entries n @ xs"
  using assms
proof (induction xs arbitrary: n)
  case (Cons p xs)
  have "Suc (length (entries n)) < 2 ^ 31" using Cons.prems(3) by (simp add: tree_capacity_def)
  note I = LlrbNode_insert_entries[OF Cons.prems(1) this, of "fst p" "snd p"]
  have "entries_below cmp (entries n) (fst p)" using Cons.prems(2) by (simp add: sorted_entries_mid)
  then have e: "entries (LlrbNode_insert cmp n (fst p) (snd p)) = entries n @ [p]"
    using I(2) by (simp add: upd_entries_last)
  show ?case using Cons.IH[OF I(1)] Cons.prems(2,3) e by simp
qed simp

lemma TreeSortedMap_Create_sorted:
  assumes "sorted_entries cmp xs" "length xs \<le> tree_capacity"
  shows "tree_map_inv cmp (TreeSortedMap_Create xs cmp)" "tree_map_entries (TreeSortedMap_Create xs cmp) = xs"
  using fold_insert_sorted[of Empty xs] assms
  by (simp_all add: TreeSortedMap_Create_def tree_map_inv_def tree_map_entries_def)

lemma sorted_map_insert_contract:
  assumes inv: "sorted_map_inv cmp m" and len: "length (SortedMap_entries m) < tree_capacity"
  shows "\<exists>m'. SortedMap_insert m k v = Inr m' \<and> sorted_map_inv cmp m' \<and>
    length (SortedMap_entries m') \<le> Suc (length (SortedMap_entries m)) \<and>
    (\<forall>k'. get_entries cmp (SortedMap_entries m') k' =
      (if cmp k k' = Same then Some v else get_entries cmp (SortedMap_entries m) k'))"
proof (cases m)
  case (ArrayMap a)
  have a: "array_map_inv cmp a" "array_comparator a = cmp" "sorted_entries cmp (array_entries a)"
    using inv ArrayMap by (auto simp: array_map_inv_def)
  show ?thesis
  proof (cases "ArraySortedMap_size a \<ge> kFixedSize")
    case True
    define t where "t = TreeSortedMap_Create (array_entries a) cmp"
    have t: "tree_map_inv cmp t" "tree_map_entries t = array_entries a"
      unfolding t_def using len ArrayMap by (simp_all add: TreeSortedMap_Create_sorted a)
    have l: "length (tree_map_entries t) < tree_capacity" using t len ArrayMap by simp
    show ?thesis
      using True a t tree_insert_entries[OF t(1) l, of k v] length_upd_entries[of k v "array_entries a"]
      by (simp add: ArrayMap t_def[symmetric] get_upd_entries)
  next
    case False
    then have "length (array_entries a) < kFixedSize" by (simp add: ArraySortedMap_size_def)
    from array.insert_m[OF a(1) this, of k v] False show ?thesis by (auto simp: ArrayMap)
  qed
next
  case (TreeMap t)
  then show ?thesis
    using tree_insert_entries[of t k v] inv len length_upd_entries[of k v "tree_map_entries t"]
    by (simp add: get_upd_entries)
qed

lemma sorted_map_erase_contract:
  assumes inv: "sorted_map_inv cmp m"
  shows "\<exists>m'. SortedMap_erase m k = Inr m' \<and> sorted_map_inv cmp m' \<and>
    SortedMap_entries m' = del_entries cmp k (SortedMap_entries m)"
proof (cases m)
  case (ArrayMap a)
  then show ?thesis using array_erase_entries[of a k] inv by auto
next
  case (TreeMap t)
  then have t: "tree_map_inv cmp t" "tree_comparator t = cmp" using inv by (auto simp: tree_map_inv_def)
  note E = tree_erase_entries[OF t(1), of k]
  have "sized (tree_root (TreeSortedMap_erase t k))"
    using E(1) by (simp add: tree_map_inv_def llrb_inv_def goodD)
  then have "TreeSortedMap_empty (TreeSortedMap_erase t k) \<Longrightarrow> del_entries cmp k (tree_map_entries t) = []"
    using E(2) by (simp add: TreeSortedMap_empty_def sized_node_empty tree_map_entries_def)
  then show ?thesis
    using TreeMap t E
    by (auto simp: Let_def SortedMap_new_def ArraySortedMap_new_def array_map_inv_def kFixedSize_def)
qed

end

sublocale key_comparator \<subseteq> smap: sorted_map_contract cmp "sorted_map_inv cmp" SortedMap_entries
  SortedMap_insert SortedMap_erase SortedMap_get tree_capacity
proof unfold_locales
  show "sorted_map_inv cmp m \<Longrightarrow> sorted_entries cmp (SortedMap_entries m)" for m
    by (cases m) (simp_all add: array_map_inv_def tree_map_inv_def llrb_inv_def tree_map_entries_def)
  show "sorted_map_inv cmp m \<Longrightarrow> SortedMap_get m k = get_entries cmp (SortedMap_entries m) k" for m k
    by (cases m) (simp_all add: SortedMap_get_eq array_lookup_entries tree_find_entries)
qed (simp_all add: sorted_map_insert_contract sorted_map_erase_contract)

section \<open>Walking a view\<close>

fun it_remaining :: "('k::default, 'v::default) SortedMapIterator \<Rightarrow> ('k \<times> 'v) list" where
  "it_remaining (ArrayIter xs i) = drop i xs"
| "it_remaining (TreeIter it) = remaining it"

fun it_pair_ok :: "('k, 'v) SortedMapIterator \<Rightarrow> ('k, 'v) SortedMapIterator \<Rightarrow> bool" where
  "it_pair_ok (ArrayIter xs i) (ArrayIter ys j) \<longleftrightarrow> xs = ys \<and> i \<le> length xs \<and> j \<le> length xs"
| "it_pair_ok (TreeIter a) (TreeIter b) \<longleftrightarrow> good_iterator a \<and> good_iterator b"
| "it_pair_ok _ _ \<longleftrightarrow> False"

lemma hd_remaining: "it \<noteq> [] \<Longrightarrow> fst (node_entry (hd it)) = fst (hd (remaining it))"
  by (cases it) simp_all

lemma it_eq_iff:
  assumes "it_pair_ok it en" "it_remaining it = ys @ it_remaining en" "distinct (map fst (it_remaining it))"
  shows "SortedMapIterator_eq it en \<longleftrightarrow> ys = []"
proof (cases "(it, en)" rule: it_pair_ok.cases)
  case (1 xs i ys' j)
  then have "length (drop i xs) = length ys + length (drop j xs)"
    using assms(1,2) by (metis Pair_inject it_pair_ok.simps(1) it_remaining.simps(1) length_append)
  then show ?thesis using 1 assms by auto
next
  case (2 a b)
  then have r: "remaining a = ys @ remaining b" "distinct (map fst (remaining a))" using assms by simp_all
  show ?thesis
  proof (cases "a = [] \<or> b = []")
    case True
    then show ?thesis using 2 r is_end_remaining[of a] is_end_remaining[of b]
      by (auto simp: Iterator_eq_def is_end_def)
  next
    case False
    then obtain q qs where b: "remaining b = q # qs" using is_end_remaining[of b] by (cases "remaining b") (auto simp: is_end_def)
    show ?thesis
      using 2 False r b hd_remaining[of a] hd_remaining[of b]
      by (cases ys) (auto simp: Iterator_eq_def is_end_def)
  qed
qed (use assms in auto)

lemma it_next_remaining:
  assumes "it_pair_ok it en" "it_remaining it = p # ys"
  shows "SortedMapIterator_get it = Inr p \<and>
    (\<exists>it'. SortedMapIterator_next it = Inr it' \<and> it_pair_ok it' en \<and> it_remaining it' = ys)"
proof (cases "(it, en)" rule: it_pair_ok.cases)
  case (1 xs i ys' j)
  then have i: "i < length xs" using assms(2) by (metis Pair_inject drop_eq_Nil2 it_remaining.simps(1) linorder_not_le list.distinct(1))
  then have "xs ! i = p" "drop (Suc i) xs = ys"
    using 1 assms(2) by (simp_all add: Cons_nth_drop_Suc[symmetric])
  then show ?thesis using 1 assms(1) i by auto
next
  case (2 a b)
  then have "\<not> is_end a" using assms(2) by (simp add: is_end_remaining)
  then show ?thesis
    using 2 assms Iterator_get_remaining[of a] Iterator_next_remaining[of a] by auto
qed (use assms in auto)

lemma walk_keys_correct:
  assumes "it_pair_ok it en" "it_remaining it = ys @ it_remaining en" "distinct (map fst (it_remaining it))"
  shows "walk_keys it en = Inr (map fst ys)"
  using assms
proof (induction ys arbitrary: it)
  case Nil
  then show ?case using it_eq_iff[of it en "[]"] by (simp add: walk_keys.simps)
next
  case (Cons p ys)
  have ne: "\<not> SortedMapIterator_eq it en" using it_eq_iff[OF Cons.prems] by simp
  obtain it' where "SortedMapIterator_get it = Inr p" "SortedMapIterator_next it = Inr it'"
    "it_pair_ok it' en" "it_remaining it' = ys @ it_remaining en"
    using it_next_remaining[OF Cons.prems(1)] Cons.prems(2) by fastforce
  then show ?case using ne Cons.IH[of it'] Cons.prems by (subst walk_keys.simps) simp
qed

context key_comparator
begin

lemma sorted_entries_distinct: "sorted_entries cmp xs \<Longrightarrow> distinct (map fst xs)"
  by (induction xs) (auto simp: entries_above_def)

lemma dropWhile_eq_filter:
  "sorted_entries cmp xs \<Longrightarrow>
   dropWhile (\<lambda>p. cmp (fst p) k = Ascending) xs = filter (\<lambda>p. cmp (fst p) k \<noteq> Ascending) xs"
proof (induction xs)
  case (Cons p xs)
  have "entries_above cmp xs k" if "cmp (fst p) k \<noteq> Ascending"
    using Cons.prems that not_Descending_iff[of k "fst p"] by (auto intro: entries_above_trans)
  then have "filter (\<lambda>p. cmp (fst p) k \<noteq> Ascending) xs = xs" if "cmp (fst p) k \<noteq> Ascending"
    using that Ascending_asym by (auto simp: entries_above_def filter_id_conv)
  then show ?case using Cons by simp
qed simp

lemma SortedMap_begin_end_ok:
  "sorted_map_inv cmp m \<Longrightarrow> it_pair_ok (SortedMap_begin m) (SortedMap_end m) \<and>
   it_remaining (SortedMap_begin m) = SortedMap_entries m \<and> it_remaining (SortedMap_end m) = []"
  by (cases m) (auto simp: Iterator_Begin_remaining ArraySortedMap_begin_def ArraySortedMap_end_def
      TreeSortedMap_begin_def TreeSortedMap_end_def Iterator_End_def tree_map_entries_def tree_map_inv_def llrb_inv_def goodD)

lemma SortedMap_lower_bound_ok:
  assumes "sorted_map_inv cmp m"
  shows "it_remaining (SortedMap_lower_bound m k) =
      filter (\<lambda>p. cmp (fst p) k \<noteq> Ascending) (SortedMap_entries m)"
    "it_pair_ok (SortedMap_lower_bound m k) (SortedMap_end m)"
    "it_pair_ok (SortedMap_lower_bound m k) (SortedMap_lower_bound m k')"
proof -
  have "it_remaining (SortedMap_lower_bound m k) =
      filter (\<lambda>p. cmp (fst p) k \<noteq> Ascending) (SortedMap_entries m) \<and>
    it_pair_ok (SortedMap_lower_bound m k) (SortedMap_end m) \<and>
    it_pair_ok (SortedMap_lower_bound m k) (SortedMap_lower_bound m k')"
  proof (cases m)
    case (ArrayMap a)
    then have a: "array_map_inv cmp a" "sorted_entries cmp (array_entries a)"
      using assms by (simp_all add: array_map_inv_def)
    have "drop (ArraySortedMap_lower_bound a k) (array_entries a) =
        filter (\<lambda>p. cmp (fst p) k \<noteq> Ascending) (array_entries a)"
      unfolding array_lower_bound[OF a(1)] by (simp add: dropWhile_eq_drop[symmetric] dropWhile_eq_filter[OF a(2)])
    then show ?thesis using ArrayMap array_lower_bound[OF a(1)]
      by (simp add: ArraySortedMap_end_def length_takeWhile_le)
  next
    case (TreeMap t)
    then have t: "sized (tree_root t)" "sorted_entries cmp (entries (tree_root t))" "tree_comparator t = cmp"
      using assms by (auto simp: tree_map_inv_def llrb_inv_def goodD)
    show ?thesis
      using LowerBound_loop_remaining[OF t(1,2), of "[]"] TreeMap t(3) dropWhile_eq_filter[OF t(2)]
      by (simp add: TreeSortedMap_lower_bound_def Iterator_LowerBound_def tree_map_entries_def
          TreeSortedMap_end_def Iterator_End_def)
  qed
  then show "it_remaining (SortedMap_lower_bound m k) =
      filter (\<lambda>p. cmp (fst p) k \<noteq> Ascending) (SortedMap_entries m)"
    "it_pair_ok (SortedMap_lower_bound m k) (SortedMap_end m)"
    "it_pair_ok (SortedMap_lower_bound m k) (SortedMap_lower_bound m k')" by blast+
qed

lemma KeysView_entries: "sorted_map_inv cmp m \<Longrightarrow> KeysView m = Inr (map fst (SortedMap_entries m))"
  using SortedMap_begin_end_ok[of m] sorted_entries_distinct[OF smap.sorted_m[of m]]
  by (simp add: KeysView_def walk_keys_correct[of _ _ "SortedMap_entries m"])

lemma KeysViewFrom_entries:
  "sorted_map_inv cmp m \<Longrightarrow>
   KeysViewFrom m k = Inr (map fst (filter (\<lambda>p. cmp (fst p) k \<noteq> Ascending) (SortedMap_entries m)))"
  using SortedMap_begin_end_ok[of m] SortedMap_lower_bound_ok(1,2)[of m k]
    sorted_entries_distinct[OF smap.sorted_m[of m]]
  by (simp add: KeysViewFrom_def distinct_map_filter
      walk_keys_correct[of _ _ "filter (\<lambda>p. cmp (fst p) k \<noteq> Ascending) (SortedMap_entries m)"])

lemma filter_split_below:
  assumes "sorted_entries cmp xs" "cmp a b = Ascending"
  shows "filter (\<lambda>p. cmp (fst p) a \<noteq> Ascending) xs =
    filter (\<lambda>p. cmp (fst p) a \<noteq> Ascending \<and> cmp (fst p) b = Ascending) xs @
    filter (\<lambda>p. cmp (fst p) b \<noteq> Ascending) xs"
  using assms(1)
proof (induction xs)
  case (Cons p xs)
  have ab: "cmp (fst p) b \<noteq> Ascending \<Longrightarrow> cmp (fst p) a \<noteq> Ascending"
    using Ascending_trans[OF _ assms(2)] by blast
  have "filter (\<lambda>p. cmp (fst p) a \<noteq> Ascending \<and> cmp (fst p) b = Ascending) xs = []"
    if "cmp (fst p) b \<noteq> Ascending"
  proof -
    have "entries_above cmp xs b"
      using Cons.prems that not_Descending_iff[of b "fst p"] by (auto intro: entries_above_trans)
    then show ?thesis using Ascending_asym by (auto simp: entries_above_def filter_empty_conv)
  qed
  then show ?case using Cons ab by auto
qed simp

lemma KeysViewIn_entries:
  assumes "sorted_map_inv cmp m"
  shows "KeysViewIn m a b = Inr (map fst (filter (\<lambda>p. cmp (fst p) a \<noteq> Ascending \<and> cmp (fst p) b = Ascending)
    (SortedMap_entries m)))"
proof -
  have c: "SortedMap_comparator m = cmp" using assms by (cases m) (simp_all add: array_map_inv_def tree_map_inv_def)
  note so = smap.sorted_m[OF assms]
  show ?thesis
  proof (cases "cmp a b = Ascending")
    case True
    have "it_remaining (SortedMap_lower_bound m a) =
        filter (\<lambda>p. cmp (fst p) a \<noteq> Ascending \<and> cmp (fst p) b = Ascending) (SortedMap_entries m) @
        it_remaining (SortedMap_lower_bound m b)"
      unfolding SortedMap_lower_bound_ok(1)[OF assms] by (rule filter_split_below[OF so True])
    from walk_keys_correct[OF SortedMap_lower_bound_ok(3)[OF assms] this] show ?thesis
      using True sorted_entries_distinct[OF so]
      by (simp add: KeysViewIn_def c SortedMap_lower_bound_ok(1)[OF assms] distinct_map_filter)
  next
    case False
    have "\<not> (cmp x a \<noteq> Ascending \<and> cmp x b = Ascending)" for x
      using False cmp_trans[of b a x] not_Descending_iff by blast
    then have "filter (\<lambda>p. cmp (fst p) a \<noteq> Ascending \<and> cmp (fst p) b = Ascending) (SortedMap_entries m) = []"
      by (simp add: filter_empty_conv)
    moreover have "walk_keys (SortedMap_end m) (SortedMap_end m) = Inr []"
      by (subst walk_keys.simps)
         (cases m; simp add: TreeSortedMap_end_def Iterator_End_def Iterator_eq_def is_end_def)
    ultimately show ?thesis using False by (simp add: KeysViewIn_def c)
  qed
qed

lemma SortedMap_size_entries: "sorted_map_inv cmp m \<Longrightarrow> SortedMap_size m = length (SortedMap_entries m)"
  by (cases m) (simp_all add: ArraySortedMap_size_def TreeSortedMap_size_def tree_map_entries_def
      tree_map_inv_def llrb_inv_def goodD)

lemma SortedMap_contains_get:
  assumes "sorted_map_inv cmp m"
  shows "SortedMap_contains m k \<longleftrightarrow> SortedMap_get m k \<noteq> None"
proof (cases m)
  case (ArrayMap a)
  then show ?thesis
    by (auto simp: SortedMap_get_eq ArraySortedMap_lookup_def ArraySortedMap_contains_def Let_def)
next
  case (TreeMap t)
  then show ?thesis
    using assms contains_loop_entries[of "tree_root t" k] tree_find_entries[of t k]
    by (simp add: SortedMap_get_eq TreeSortedMap_contains_def tree_map_inv_def llrb_inv_def goodD tree_map_entries_def)
qed

lemma array_find_rank:
  assumes "sorted_entries cmp xs" "std_find_if (\<lambda>kv. cmp k (fst kv) = Same) xs \<noteq> length xs"
  shows "std_find_if (\<lambda>kv. cmp k (fst kv) = Same) xs = entries_rank k xs"
  using assms
proof (induction xs)
  case (Cons p xs)
  show ?case
  proof (cases "cmp k (fst p) = Same")
    case True
    then have "entries_above cmp xs k" "cmp (fst p) k = Same"
      using Cons.prems(1) Same_sym[OF True] by (auto intro: entries_above_trans)
    then show ?thesis using True by (simp add: std_find_if_def)
  next
    case False
    then have ne: "std_find_if (\<lambda>kv. cmp k (fst kv) = Same) xs \<noteq> length xs"
      using Cons.prems(2) by (simp add: std_find_if_def)
    then have "takeWhile (\<lambda>x. cmp k (fst x) \<noteq> Same) xs \<noteq> xs"
      unfolding std_find_if_def by (auto simp del: takeWhile_eq_all_conv)
    then obtain q where "q \<in> set xs" "cmp k (fst q) = Same"
      unfolding takeWhile_eq_all_conv by blast
    then have "cmp (fst p) k = Ascending"
      using Cons.prems(1) Same_right[of k "fst q" "fst p"] by (auto simp: entries_above_def)
    then show ?thesis using Cons.IH Cons.prems(1) ne False by (simp add: std_find_if_def)
  qed
qed (simp add: std_find_if_def)

lemma SortedMap_find_index_rank:
  assumes "sorted_map_inv cmp m"
  shows "SortedMap_find_index m k =
    (if SortedMap_contains m k then entries_rank k (SortedMap_entries m) else npos)"
proof (cases m)
  case (ArrayMap a)
  then show ?thesis
    using assms array_find_rank[of "array_entries a" k]
    by (auto simp: ArraySortedMap_find_index_def ArraySortedMap_contains_def ArraySortedMap_find_def
        ArraySortedMap_end_def ArraySortedMap_begin_def array_map_inv_def Let_def)
next
  case (TreeMap t)
  then have t: "sized (tree_root t)" "sorted_entries cmp (entries (tree_root t))" "tree_comparator t = cmp"
    using assms by (auto simp: tree_map_inv_def llrb_inv_def goodD)
  moreover have "length (entries (tree_root t)) < 2 ^ 32" using t(1) by (cases "tree_root t") auto
  ultimately show ?thesis
    using TreeMap find_index_loop_entries[of "tree_root t" 0 k]
    by (simp add: TreeSortedMap_find_index_def TreeSortedMap_contains_def tree_map_entries_def)
qed

section \<open>Sets\<close>

lemma insert_loop_insert_all:
  "SortedSet_insert_loop ks s = smap.insert_all (map (\<lambda>k. (k, ())) ks) s"
proof (induction ks arbitrary: s)
  case (Cons k ks)
  show ?case by (cases "SortedMap_insert s k ()") (simp_all add: SortedSet_insert_def Cons.IH)
qed simp

lemma get_entries_unit:
  "get_entries cmp (rev (map (\<lambda>k. (k, ())) ks)) k = None \<longleftrightarrow> (\<forall>x \<in> set ks. cmp x k \<noteq> Same)"
  by (induction ks) (auto simp: get_entries_append split: option.splits)

lemma SortedSet_insert_loop_correct:
  assumes "sorted_map_inv cmp s" "length (SortedMap_entries s) + length ks \<le> tree_capacity"
  shows "\<exists>s'. SortedSet_insert_loop ks s = Inr s' \<and> sorted_map_inv cmp s' \<and>
    (\<forall>k. SortedSet_contains s' k \<longleftrightarrow> SortedSet_contains s k \<or> (\<exists>x \<in> set ks. cmp x k = Same))"
proof -
  obtain s' where s': "smap.insert_all (map (\<lambda>k. (k, ())) ks) s = Inr s'" "sorted_map_inv cmp s'"
    "\<And>k. SortedMap_get s' k = (case get_entries cmp (rev (map (\<lambda>k. (k, ())) ks)) k of
       Some v \<Rightarrow> Some v | None \<Rightarrow> SortedMap_get s k)"
    using smap.insert_all_correct[OF assms(1), of "map (\<lambda>k. (k, ())) ks"] assms(2) by auto
  have "SortedSet_contains s' k \<longleftrightarrow> SortedSet_contains s k \<or> (\<exists>x \<in> set ks. cmp x k = Same)" for k
    using s'(3)[of k] get_entries_unit[of ks k] SortedMap_contains_get[OF s'(2)] SortedMap_contains_get[OF assms(1)]
    by (auto simp: SortedSet_contains_def split: option.splits)
  then show ?thesis using s' by (auto simp: insert_loop_insert_all)
qed

lemma SortedMap_contains_key:
  fixes m :: "('k, 'v::default) SortedMap"
  assumes inv: "sorted_map_inv cmp m"
  shows "SortedMap_contains m k \<longleftrightarrow> (\<exists>x \<in> set (map fst (SortedMap_entries m)). cmp x k = Same)"
proof -
  have "get_entries cmp xs k \<noteq> None \<longleftrightarrow> (\<exists>x \<in> set (map fst xs). cmp x k = Same)" for xs :: "('k \<times> 'v) list"
    by (induction xs) auto
  then show ?thesis using SortedMap_contains_get[OF inv] smap.lookup_m[OF inv] by simp
qed

lemma SortedSet_union_correct:
  assumes a: "sorted_map_inv cmp a" and b: "sorted_map_inv cmp b"
    and len: "length (SortedMap_entries a) + length (SortedMap_entries b) \<le> tree_capacity"
  shows "\<exists>s. SortedSet_union_with a b = Inr s \<and> sorted_map_inv cmp s \<and>
    (\<forall>k. SortedSet_contains s k \<longleftrightarrow> SortedSet_contains a k \<or> SortedSet_contains b k)"
proof (cases "SortedMap_size a < SortedMap_size b")
  case True
  then show ?thesis
    using SortedSet_insert_loop_correct[OF b, of "map fst (SortedMap_entries a)"] len
      SortedMap_contains_key[OF a]
    by (auto simp: SortedSet_union_with_def KeysView_entries[OF a] SortedSet_contains_def)
next
  case False
  then show ?thesis
    using SortedSet_insert_loop_correct[OF a, of "map fst (SortedMap_entries b)"] len
      SortedMap_contains_key[OF b]
    by (auto simp: SortedSet_union_with_def KeysView_entries[OF b] SortedSet_contains_def)
qed

lemma SortedMap_lookup_insert:
  "\<lbrakk>sorted_map_inv cmp m; length (SortedMap_entries m) < tree_capacity; SortedMap_insert m k v = Inr m'\<rbrakk> \<Longrightarrow>
   SortedMap_get m' k' = (if cmp k k' = Same then Some v else SortedMap_get m k')"
  by (rule smap.lookup_insert)

lemma SortedMap_lookup_erase:
  "\<lbrakk>sorted_map_inv cmp m; SortedMap_erase m k = Inr m'\<rbrakk> \<Longrightarrow>
   SortedMap_get m' k' = (if cmp k k' = Same then None else SortedMap_get m k')"
  by (rule smap.lookup_erase)

end

section \<open>Properties\<close>

lemma SortedMap_new_get [simp]: "SortedMap_get (SortedMap_new cmp) k = None"
  by (simp add: SortedMap_get_eq SortedMap_new_def ArraySortedMap_lookup_def ArraySortedMap_new_def
      ArraySortedMap_find_def ArraySortedMap_end_def std_find_if_def)

lemma SortedMap_new_inv [simp]: "sorted_map_inv cmp (SortedMap_new cmp)" "SortedMap_size (SortedMap_new cmp) = 0"
  "SortedMap_entries (SortedMap_new cmp) = []"
  by (simp_all add: SortedMap_new_def ArraySortedMap_new_def array_map_inv_def kFixedSize_def ArraySortedMap_size_def)



text \<open>
  C5. Erasing from a sorted map never trips an assertion, keeps the invariant, removes the entry
  of the key and nothing else, and so makes the lookup of that key fail and no other.
\<close>

theorem SortedMap_erase_lookup:
  fixes cmp :: "'k::default cmp" and m :: "('k, 'v::default) SortedMap"
  assumes "key_comparator cmp" "sorted_map_inv cmp m"
  shows "\<exists>m'. SortedMap_erase m k = Inr m' \<and> sorted_map_inv cmp m' \<and>
    SortedMap_entries m' = del_entries cmp k (SortedMap_entries m) \<and>
    (\<forall>k'. SortedMap_get m' k' = (if cmp k k' = Same then None else SortedMap_get m k'))"
  using key_comparator.sorted_map_erase_contract[OF assms, of k] assms(2)
    key_comparator.SortedMap_lookup_erase[OF assms]
  by fastforce

theorem SortedMap_erase_lookup_witness:
  "\<exists>m'. SortedMap_erase (ArrayMap \<lparr>array_entries = [(3, 30), (5, 50)], array_comparator = DefaultComparator\<rparr>)
       (3::int) = Inr m' \<and> sorted_map_inv DefaultComparator m' \<and> SortedMap_entries m' = [(5, 50::int)]"
  using SortedMap_erase_lookup[OF int_keys.key_comparator_axioms,
      of "ArrayMap \<lparr>array_entries = [(3, 30::int), (5, 50)], array_comparator = DefaultComparator\<rparr>" 3]
  by (auto simp: array_map_inv_def kFixedSize_def DefaultComparator_def)

text \<open>
  C9. Iterating a key range [a, b) of a map visits exactly the keys that are at least a and below b,
  each once and in order; the range is empty when a is not below b. The walk ends and never
  dereferences the end iterator.
\<close>

theorem KeysViewIn_visits_range:
  fixes cmp :: "'k::default cmp" and m :: "('k, 'v::default) SortedMap"
  assumes "key_comparator cmp" "sorted_map_inv cmp m"
  shows "KeysViewIn m a b = Inr (filter (\<lambda>k. cmp k a \<noteq> Ascending \<and> cmp k b = Ascending)
    (map fst (SortedMap_entries m)))"
  by (simp add: key_comparator.KeysViewIn_entries[OF assms] filter_map comp_def)

theorem KeysViewIn_visits_range_witness:
  "KeysViewIn (ArrayMap \<lparr>array_entries = [(3, 30), (5, 50), (8, 80::int)], array_comparator = DefaultComparator\<rparr>)
     (4::int) 8 = Inr [5]"
  using KeysViewIn_visits_range[OF int_keys.key_comparator_axioms,
      of "ArrayMap \<lparr>array_entries = [(3, 30), (5, 50), (8, 80::int)], array_comparator = DefaultComparator\<rparr>" 4 8]
  by (simp add: array_map_inv_def kFixedSize_def DefaultComparator_def)

text \<open>
  The index of a key is its rank, the number of keys that sort before it, and is npos exactly
  for the keys the map does not contain.
\<close>

theorem SortedMap_find_index_is_rank:
  fixes cmp :: "'k::default cmp" and m :: "('k, 'v::default) SortedMap"
  assumes "key_comparator cmp" "sorted_map_inv cmp m"
  shows "SortedMap_find_index m k =
    (if SortedMap_get m k \<noteq> None
     then length (filter (\<lambda>p. cmp (fst p) k = Ascending) (SortedMap_entries m)) else npos)"
  using key_comparator.SortedMap_find_index_rank[OF assms, of k]
    key_comparator.SortedMap_contains_get[OF assms, of k]
  by (simp add: key_comparator.entries_rank_def[OF assms(1)])

theorem SortedMap_find_index_is_rank_witness:
  "SortedMap_find_index
     (ArrayMap \<lparr>array_entries = [(3, 30), (5, 50), (8, 80::int)], array_comparator = DefaultComparator\<rparr>) (5::int) = 1"
  using SortedMap_find_index_is_rank[OF int_keys.key_comparator_axioms,
      of "ArrayMap \<lparr>array_entries = [(3, 30), (5, 50), (8, 80::int)], array_comparator = DefaultComparator\<rparr>" 5]
  by (simp add: array_map_inv_def kFixedSize_def DefaultComparator_def SortedMap_get_eq
      ArraySortedMap_lookup_def ArraySortedMap_find_def ArraySortedMap_end_def std_find_if_def Let_def)

text \<open>
  The union of two sorted sets contains exactly the members of either, whichever of the two
  the implementation chooses to insert into the other.
\<close>

theorem SortedSet_union_members:
  fixes cmp :: "'k::default cmp" and a b :: "'k SortedSet"
  assumes "key_comparator cmp" "sorted_map_inv cmp a" "sorted_map_inv cmp b"
    and "SortedMap_size a + SortedMap_size b \<le> tree_capacity"
  shows "\<exists>s. SortedSet_union_with a b = Inr s \<and> sorted_map_inv cmp s \<and>
    (\<forall>k. SortedSet_contains s k \<longleftrightarrow> SortedSet_contains a k \<or> SortedSet_contains b k)"
  using key_comparator.SortedSet_union_correct[OF assms(1-3)] assms(4)
    key_comparator.SortedMap_size_entries[OF assms(1,2)] key_comparator.SortedMap_size_entries[OF assms(1,3)]
  by simp

theorem SortedSet_union_members_witness:
  "\<exists>s. SortedSet_union_with
      (ArrayMap \<lparr>array_entries = [(3, ())], array_comparator = DefaultComparator\<rparr>)
      (ArrayMap \<lparr>array_entries = [(2, ()), (5, ())], array_comparator = DefaultComparator\<rparr>) = Inr s \<and>
    SortedSet_contains s (3::int) \<and> SortedSet_contains s 5 \<and> \<not> SortedSet_contains s 4"
  using SortedSet_union_members[OF int_keys.key_comparator_axioms,
      of "ArrayMap \<lparr>array_entries = [(3, ())], array_comparator = DefaultComparator\<rparr>"
         "ArrayMap \<lparr>array_entries = [(2, ()), (5, ())], array_comparator = DefaultComparator\<rparr>"]
  by (auto simp: array_map_inv_def kFixedSize_def DefaultComparator_def ArraySortedMap_size_def tree_capacity_def
      SortedSet_contains_def ArraySortedMap_contains_def ArraySortedMap_find_def ArraySortedMap_end_def std_find_if_def)

end
