(* ===== verification/Number_Compare.thy ===== *)
theory Number_Compare
  imports Fs_Prelude
begin

unbundle bit_operations_syntax

text \<open>
  Comparison of primitive values: \<^verbatim>\<open>util/comparison.cc\<close>.

  A C++ \<^verbatim>\<open>double\<close> is its 64-bit IEEE 754 pattern. Its value is kept exact, as an integer
  multiple of the smallest positive double 2^-1074 (\<open>dval\<close>); the formula also gives infinities a
  magnitude above every finite one. Conversions from integers and sums round to nearest, ties to
  even. The theory shows that the mixed comparison of a double with a 64-bit integer is exact, so
  that numbers of both kinds are ordered by their mathematical value.
\<close>

section \<open>Doubles\<close>

type_synonym double = "64 word"

type_synonym int64 = "64 word"

definition double_negative :: "double \<Rightarrow> bool" where
  "double_negative d \<longleftrightarrow> 2 ^ 63 \<le> unat d"

definition double_code :: "double \<Rightarrow> nat" where
  "double_code d = unat d mod 2 ^ 63"

definition code_magnitude :: "nat \<Rightarrow> nat" where
  "code_magnitude c =
     (let e = c div 2 ^ 52; m = c mod 2 ^ 52 in if e = 0 then m else (2 ^ 52 + m) * 2 ^ (e - 1))"

text \<open>Codes from \<open>infinity_code\<close> on are infinity itself and the NaNs.\<close>

definition infinity_code :: nat where
  "infinity_code = 2047 * 2 ^ 52"

definition is_nan :: "double \<Rightarrow> bool" where
  "is_nan d \<longleftrightarrow> infinity_code < double_code d"

definition is_inf :: "double \<Rightarrow> bool" where
  "is_inf d \<longleftrightarrow> double_code d = infinity_code"

definition dval :: "double \<Rightarrow> int" where
  "dval d = (if double_negative d then - int (code_magnitude (double_code d))
             else int (code_magnitude (double_code d)))"

text \<open>The number 1 in units of the smallest positive double.\<close>

definition double_scale :: nat where
  "double_scale = 2 ^ 1074"

definition double_lt :: "double \<Rightarrow> double \<Rightarrow> bool" where
  "double_lt a b \<longleftrightarrow> \<not> is_nan a \<and> \<not> is_nan b \<and> dval a < dval b"

definition double_eq :: "double \<Rightarrow> double \<Rightarrow> bool" where
  "double_eq a b \<longleftrightarrow> \<not> is_nan a \<and> \<not> is_nan b \<and> dval a = dval b"

definition double_ge :: "double \<Rightarrow> double \<Rightarrow> bool" where
  "double_ge a b \<longleftrightarrow> \<not> is_nan a \<and> \<not> is_nan b \<and> dval b \<le> dval a"

text \<open>Rounding an exact magnitude to the nearest code.\<close>

fun normal_shift :: "nat \<Rightarrow> nat" where
  "normal_shift n = (if n < 2 ^ 53 then 0 else Suc (normal_shift (n div 2)))"

declare normal_shift.simps [simp del]

definition round_nearest :: "nat \<Rightarrow> nat \<Rightarrow> nat" where
  "round_nearest n s =
     (let q = n div 2 ^ s; r = n mod 2 ^ s
      in if 2 ^ s < 2 * r \<or> (2 * r = 2 ^ s \<and> odd q) then Suc q else q)"

definition round_magnitude :: "nat \<Rightarrow> nat" where
  "round_magnitude n = (let s = normal_shift n in min infinity_code (s * 2 ^ 52 + round_nearest n s))"

definition make_double :: "bool \<Rightarrow> nat \<Rightarrow> double" where
  "make_double neg c = word_of_nat ((if neg then 2 ^ 63 else 0) + c)"

text \<open>The conversions between the two number types.\<close>

definition int64_to_double :: "int64 \<Rightarrow> double" where
  "int64_to_double i = make_double (sint i < 0) (round_magnitude (nat \<bar>sint i\<bar> * double_scale))"

definition double_truncate :: "double \<Rightarrow> int" where
  "double_truncate d = (let q = int (code_magnitude (double_code d) div double_scale)
                        in if double_negative d then - q else q)"

text \<open>Out of range the conversion is undefined behaviour.\<close>

definition double_to_int64 :: "double \<Rightarrow> int64 res" where
  "double_to_int64 d =
     (let t = double_truncate d
      in if \<not> is_nan d \<and> - (2 ^ 63) \<le> t \<and> t < 2 ^ 63 then Inr (word_of_int t) else Inl UndefinedBehaviour)"

section \<open>The comparisons\<close>

definition Compare_int64 :: "int64 cmp" where
  "Compare_int64 a b = DefaultComparator (sint a) (sint b)"

definition Compare_double :: "double cmp" where
  "Compare_double left right =
     (if double_lt left right then Ascending
      else if double_lt right left then Descending
      else if double_eq left right then Same
      else if \<not> is_nan right then Ascending
      else if \<not> is_nan left then Descending
      else Same)"

definition INT64_MIN_VALUE_AS_DOUBLE :: double where
  "INT64_MIN_VALUE_AS_DOUBLE = int64_to_double (word_of_int (- (2 ^ 63)))"

definition INT64_MAX_VALUE_AS_DOUBLE :: double where
  "INT64_MAX_VALUE_AS_DOUBLE = int64_to_double (word_of_int (2 ^ 63 - 1))"

definition CompareMixedNumber :: "double \<Rightarrow> int64 \<Rightarrow> ComparisonResult res" where
  "CompareMixedNumber double_value int64_value =
     (if double_lt double_value INT64_MIN_VALUE_AS_DOUBLE then Inr Ascending
      else if double_ge double_value INT64_MAX_VALUE_AS_DOUBLE then Inr Descending
      else if is_nan double_value then Inr Ascending
      else bind_res (double_to_int64 double_value) (\<lambda>double_as_int64.
        let cmp = Compare_int64 double_as_int64 int64_value
        in if cmp \<noteq> Same then Inr cmp
           else Inr (Compare_double double_value (int64_to_double int64_value))))"

definition quiet_NaN :: double where
  "quiet_NaN = 0x7FF8000000000000"

definition DoubleBits :: "double \<Rightarrow> 64 word" where
  "DoubleBits d = (if is_nan d then quiet_NaN else d)"

definition DoubleBitwiseEquals :: "double \<Rightarrow> double \<Rightarrow> bool" where
  "DoubleBitwiseEquals left right \<longleftrightarrow> DoubleBits left = DoubleBits right"

definition DoubleBitwiseHash :: "double \<Rightarrow> 64 word" where
  "DoubleBitwiseHash d = (let bits = DoubleBits d in bits XOR drop_bit 32 bits)"

text \<open>\<^verbatim>\<open>std::string::compare\<close> orders by unsigned bytes, then by length.\<close>

fun string_compare :: "string \<Rightarrow> string \<Rightarrow> int" where
  "string_compare [] [] = 0"
| "string_compare [] (_ # _) = -1"
| "string_compare (_ # _) [] = 1"
| "string_compare (a # as) (b # bs) =
     (if (of_char a :: nat) < of_char b then -1 else if (of_char b :: nat) < of_char a then 1
      else string_compare as bs)"

definition Compare_string :: "string cmp" where
  "Compare_string left right = ComparisonResultFromInt (string_compare left right)"

section \<open>Codes and magnitudes\<close>

lemma double_scale_pos [simp]: "0 < double_scale"
  by (simp add: double_scale_def)

lemma double_code_less: "double_code d < 2 ^ 63"
  by (simp add: double_code_def)

lemma code_magnitude_split:
  assumes "q \<le> 2 ^ 53" "2 ^ 52 \<le> q \<or> s = 0"
  shows "code_magnitude (s * 2 ^ 52 + q) = q * 2 ^ s"
proof -
  consider "q < 2 ^ 52" | "2 ^ 52 \<le> q" "q < 2 ^ 53" | "q = 2 ^ 53" using assms(1) by linarith
  then show ?thesis
  proof cases
    case 1
    then show ?thesis using assms(2) by (simp add: code_magnitude_def)
  next
    case 2
    then obtain m where m: "q = 2 ^ 52 + m" "m < 2 ^ 52"
      using le_Suc_ex by fastforce
    then have "(s * 2 ^ 52 + q) div 2 ^ 52 = Suc s" "(s * 2 ^ 52 + q) mod 2 ^ 52 = m" by simp_all
    then show ?thesis using m by (simp add: code_magnitude_def)
  next
    case 3
    then have "(s * 2 ^ 52 + q) div 2 ^ 52 = s + 2" "(s * 2 ^ 52 + q) mod 2 ^ 52 = 0" by simp_all
    then show ?thesis using 3 by (simp add: code_magnitude_def)
  qed
qed

lemma unat_make_double: "c < 2 ^ 63 \<Longrightarrow> unat (make_double neg c) = (if neg then 2 ^ 63 else 0) + c"
  unfolding make_double_def by (subst unat_of_nat) simp

lemma make_double_code: "c < 2 ^ 63 \<Longrightarrow> double_code (make_double neg c) = c"
  by (simp add: double_code_def unat_make_double)

lemma make_double_negative: "c < 2 ^ 63 \<Longrightarrow> double_negative (make_double neg c) \<longleftrightarrow> neg"
  by (simp add: double_negative_def unat_make_double)

lemma double_eq_codes:
  "double_code a = double_code b \<Longrightarrow> double_negative a = double_negative b \<Longrightarrow> a = b"
proof -
  assume *: "double_code a = double_code b" "double_negative a = double_negative b"
  have u: "unat d = double_code d + (if double_negative d then 2 ^ 63 else 0)" for d :: double
  proof -
    have "unat d < 2 ^ 64" using unsigned_less[of d] by simp
    then show ?thesis by (auto simp: double_code_def double_negative_def mod_if)
  qed
  show ?thesis using u[of a] u[of b] * by (simp add: word_unat_eq_iff)
qed

section \<open>Rounding\<close>

lemma normal_shift_small [simp]: "n < 2 ^ 53 \<Longrightarrow> normal_shift n = 0"
  by (subst normal_shift.simps) simp

lemma normal_shift_mult:
  "2 ^ 52 \<le> n \<Longrightarrow> normal_shift (n * 2 ^ k) = normal_shift n + k"
proof (induction k)
  case (Suc k)
  have "n \<le> n * 2 ^ k" by simp
  from order_trans[OF Suc.prems this] have "(2::nat) ^ 53 \<le> n * 2 ^ Suc k" by simp
  then have "normal_shift (n * 2 ^ Suc k) = Suc (normal_shift (n * 2 ^ Suc k div 2))"
    by (subst normal_shift.simps) simp
  then show ?case using Suc by simp
qed simp

lemma round_nearest_mult: "round_nearest (n * 2 ^ k) (s + k) = round_nearest n s"
proof -
  have "n * 2 ^ k div 2 ^ (s + k) = n div 2 ^ s" by (simp add: power_add)
  moreover have "n * 2 ^ k mod 2 ^ (s + k) = (n mod 2 ^ s) * 2 ^ k"
    by (simp add: power_add mult_mod_left)
  moreover have "(2::nat) ^ (s + k) < 2 * (r * 2 ^ k) \<longleftrightarrow> 2 ^ s < 2 * r"
    "2 * (r * 2 ^ k) = (2::nat) ^ (s + k) \<longleftrightarrow> 2 * r = 2 ^ s" for r
    by (simp_all add: power_add mult.assoc[symmetric])
  ultimately show ?thesis by (simp add: round_nearest_def Let_def)
qed

lemma round_nearest_0 [simp]: "round_nearest n 0 = n"
  by (simp add: round_nearest_def)

lemma round_magnitude_shifted:
  assumes "2 ^ 52 \<le> n"
  shows "round_magnitude (n * 2 ^ k) =
    min infinity_code ((normal_shift n + k) * 2 ^ 52 + round_nearest n (normal_shift n))"
  using assms by (simp add: round_magnitude_def normal_shift_mult round_nearest_mult)

text \<open>Rounding is the identity on the magnitudes of doubles.\<close>

lemma round_magnitude_code:
  assumes "c \<le> infinity_code"
  shows "round_magnitude (code_magnitude c) = c"
proof (cases "c < 2 ^ 52")
  case True
  then show ?thesis by (simp add: code_magnitude_def round_magnitude_def infinity_code_def)
next
  case False
  define e m where "e = c div 2 ^ 52" and "m = c mod 2 ^ 52"
  have c: "c = e * 2 ^ 52 + m" "m < 2 ^ 52" by (simp_all add: e_def m_def)
  moreover have "e \<noteq> 0" using False c by (cases e) simp_all
  ultimately obtain e' where e: "e = Suc e'" by (cases e) auto
  have "code_magnitude c = (2 ^ 52 + m) * 2 ^ e'"
    using e unfolding code_magnitude_def e_def[symmetric] m_def[symmetric] Let_def by simp
  then show ?thesis
    using assms c e round_magnitude_shifted[of "2 ^ 52 + m" e'] by simp
qed

lemma code_magnitude_round_less:
  assumes "n < 2 ^ 53" "s * 2 ^ 52 + n \<le> infinity_code" "2 ^ 52 \<le> n \<or> s = 0"
  shows "code_magnitude (round_magnitude (n * 2 ^ s)) = n * 2 ^ s"
  using assms round_magnitude_code[of "s * 2 ^ 52 + n"] code_magnitude_split[of n s] by simp

section \<open>Conversion of integers\<close>

lemma scale_to_normal:
  fixes n :: nat
  assumes "0 < n" "n < 2 ^ 53"
  shows "\<exists>k \<le> 52. 2 ^ 52 \<le> n * 2 ^ k \<and> n * 2 ^ k < 2 ^ 53"
proof -
  obtain j where j: "2 ^ j \<le> n" "n < 2 ^ Suc j"
    using ex_power_ivl1[of 2 n] assms(1) by auto
  have "(2::nat) ^ j < 2 ^ 53" using j(1) assms(2) by linarith
  then have "j \<le> 52" by (simp only: power_strict_increasing_iff[of "2::nat"])
  then have "2 ^ j * 2 ^ (52 - j) = (2::nat) ^ 52" "2 ^ Suc j * 2 ^ (52 - j) = (2::nat) ^ 53"
    by (simp_all add: power_add[symmetric] Suc_diff_le)
  note pow = this
  have "2 ^ 52 \<le> n * 2 ^ (52 - j)" using mult_le_mono1[OF j(1), of "2 ^ (52 - j)"] unfolding pow .
  moreover have "n * 2 ^ (52 - j) < 2 ^ 53"
    using mult_less_mono1[OF j(2), of "2 ^ (52 - j)"] unfolding pow by simp
  ultimately show ?thesis by (intro exI[of _ "52 - j"]) simp
qed

lemma representable_small:
  assumes "n < 2 ^ 53"
  shows "\<exists>c < infinity_code. code_magnitude c = n * double_scale"
proof (cases "n = 0")
  case True
  then show ?thesis by (intro exI[of _ 0]) (simp add: code_magnitude_def infinity_code_def)
next
  case False
  then obtain k where k: "k \<le> 52" "2 ^ 52 \<le> n * 2 ^ k" "n * 2 ^ k < 2 ^ 53"
    using scale_to_normal[of n] assms by auto
  then have "code_magnitude ((1074 - k) * 2 ^ 52 + n * 2 ^ k) = n * 2 ^ k * 2 ^ (1074 - k)"
    by (intro code_magnitude_split) simp_all
  also have "\<dots> = n * double_scale"
    using k(1) by (simp add: double_scale_def mult.assoc power_add[symmetric])
  finally show ?thesis
    using k by (intro exI[of _ "(1074 - k) * 2 ^ 52 + n * 2 ^ k"]) (simp add: infinity_code_def)
qed

lemma make_double_exact:
  assumes "c < infinity_code" "code_magnitude c = n"
  shows "\<not> is_nan (make_double neg (round_magnitude n))"
    "dval (make_double neg (round_magnitude n)) = (if neg then - int n else int n)"
proof -
  have c: "round_magnitude n = c" using round_magnitude_code[of c] assms by simp
  moreover have "c < 2 ^ 63" using assms(1) by (simp add: infinity_code_def)
  ultimately show "\<not> is_nan (make_double neg (round_magnitude n))"
    "dval (make_double neg (round_magnitude n)) = (if neg then - int n else int n)"
    using assms by (simp_all add: is_nan_def dval_def make_double_code make_double_negative)
qed

lemma int64_to_double_exact:
  assumes "c < infinity_code" "code_magnitude c = nat \<bar>sint i\<bar> * double_scale"
  shows "\<not> is_nan (int64_to_double i)" "dval (int64_to_double i) = sint i * int double_scale"
  using make_double_exact[OF assms, of "sint i < 0"] by (simp_all add: int64_to_double_def)

lemma INT64_MIN_VALUE_AS_DOUBLE_val:
  "\<not> is_nan INT64_MIN_VALUE_AS_DOUBLE"
  "dval INT64_MIN_VALUE_AS_DOUBLE = - (2 ^ 63) * int double_scale"
proof -
  have s: "sint (word_of_int (- (2 ^ 63)) :: int64) = - (2 ^ 63)" by simp
  have "code_magnitude (1085 * 2 ^ 52 + 2 ^ 52) = 2 ^ 52 * 2 ^ 1085"
    by (rule code_magnitude_split) simp_all
  also have "\<dots> = nat \<bar>- (2 ^ 63)\<bar> * double_scale"
    unfolding double_scale_def by (simp add: power_add[symmetric])
  finally have c: "code_magnitude (1085 * 2 ^ 52 + 2 ^ 52) = nat \<bar>- (2 ^ 63)\<bar> * double_scale" .
  have "1085 * 2 ^ 52 + 2 ^ 52 < infinity_code" by (simp add: infinity_code_def)
  from int64_to_double_exact[OF this, of "word_of_int (- (2 ^ 63))"] c s
  show "\<not> is_nan INT64_MIN_VALUE_AS_DOUBLE"
    "dval INT64_MIN_VALUE_AS_DOUBLE = - (2 ^ 63) * int double_scale"
    unfolding INT64_MIN_VALUE_AS_DOUBLE_def by simp_all
qed

lemma normal_shift_step: "2 ^ 53 \<le> n \<Longrightarrow> normal_shift n = Suc (normal_shift (n div 2))"
  by (subst normal_shift.simps) simp

text \<open>The largest 64-bit integer rounds up to 2^63.\<close>

lemma INT64_MAX_VALUE_AS_DOUBLE_val:
  "\<not> is_nan INT64_MAX_VALUE_AS_DOUBLE"
  "dval INT64_MAX_VALUE_AS_DOUBLE = 2 ^ 63 * int double_scale"
proof -
  have s: "sint (word_of_int (2 ^ 63 - 1) :: int64) = 2 ^ 63 - 1" by simp
  have sh: "normal_shift (2 ^ 63 - 1) = 10" by (simp add: normal_shift_step)
  have "round_nearest (2 ^ 63 - 1) 10 = 2 ^ 53" by (simp add: round_nearest_def)
  then have r: "round_magnitude ((2 ^ 63 - 1) * double_scale) = 1084 * 2 ^ 52 + 2 ^ 53"
    using round_magnitude_shifted[of "2 ^ 63 - 1" 1074] sh unfolding double_scale_def
    by (simp add: infinity_code_def)
  have m: "code_magnitude (1084 * 2 ^ 52 + 2 ^ 53) = 2 ^ 53 * 2 ^ 1084"
    by (rule code_magnitude_split) simp_all
  have e: "INT64_MAX_VALUE_AS_DOUBLE = make_double False (1084 * 2 ^ 52 + 2 ^ 53)"
    unfolding INT64_MAX_VALUE_AS_DOUBLE_def int64_to_double_def s using r by simp
  have "(1084 * 2 ^ 52 + 2 ^ 53 :: nat) < 2 ^ 63" by simp
  note mk = make_double_code[OF this] make_double_negative[OF this]
  show "\<not> is_nan INT64_MAX_VALUE_AS_DOUBLE" unfolding e is_nan_def mk by (simp add: infinity_code_def)
  have "int (2 ^ 53 * 2 ^ 1084) = 2 ^ 63 * int (2 ^ 1074)"
    by (simp add: power_add[symmetric])
  then show "dval INT64_MAX_VALUE_AS_DOUBLE = 2 ^ 63 * int double_scale"
    unfolding e dval_def mk m double_scale_def by simp
qed

section \<open>The mixed comparison is exact\<close>

lemma large_double_integral:
  assumes "2 ^ 53 * double_scale \<le> code_magnitude c"
  shows "double_scale dvd code_magnitude c"
proof -
  define e m where "e = c div 2 ^ 52" and "m = c mod 2 ^ 52"
  have mag: "code_magnitude c = (if e = 0 then m else (2 ^ 52 + m) * 2 ^ (e - 1))"
    unfolding code_magnitude_def e_def[symmetric] m_def[symmetric] Let_def ..
  have m: "m < 2 ^ 52" by (simp add: m_def)
  have "1 * 1 \<le> 2 * double_scale" by (rule mult_le_mono) (simp_all add: Suc_leI)
  then have "2 ^ 52 * 1 \<le> (2 ^ 53 * double_scale :: nat)" by simp
  then have e: "e \<noteq> 0" using assms m mag by (cases "e = 0") simp_all
  have "2 ^ 53 * double_scale \<le> (2 ^ 52 + m) * 2 ^ (e - 1)" using assms e by (simp only: mag if_False)
  also have "\<dots> < 2 ^ 53 * 2 ^ (e - 1)" using m by (intro mult_less_mono1) simp_all
  finally have "2 ^ 1074 < (2::nat) ^ (e - 1)" unfolding double_scale_def by (simp only: mult_less_cancel1)
  then have "1074 \<le> e - 1" by (simp only: power_strict_increasing_iff[of "2::nat"] less_imp_le)
  then have "double_scale dvd 2 ^ (e - 1)" unfolding double_scale_def by (rule le_imp_power_dvd)
  then show ?thesis using mag e by simp
qed

lemma finite_double_code:
  assumes "\<not> is_nan d" "\<bar>dval d\<bar> \<le> 2 ^ 63 * int double_scale"
  shows "double_code d < infinity_code"
proof (rule ccontr)
  assume "\<not> double_code d < infinity_code"
  then have "double_code d = 2046 * 2 ^ 52 + 2 ^ 52" using assms(1) by (simp add: is_nan_def infinity_code_def)
  moreover have "code_magnitude (2046 * 2 ^ 52 + 2 ^ 52) = 2 ^ 52 * 2 ^ 2046"
    by (rule code_magnitude_split) simp_all
  ultimately have "\<bar>dval d\<bar> = int (2 ^ 52 * 2 ^ 2046)" unfolding dval_def by simp
  then have "int (2 ^ 52 * 2 ^ 2046) \<le> int (2 ^ 63 * 2 ^ 1074)"
    using assms(2) unfolding double_scale_def by simp
  then have "(2::nat) ^ (52 + 2046) \<le> 2 ^ (63 + 1074)" unfolding of_nat_le_iff power_add .
  then show False by (simp only: power_increasing_iff)
qed

lemma sint_int64_bounds: "- (2 ^ 63) \<le> sint (i :: int64)" "sint (i :: int64) < 2 ^ 63"
  using sint_greater_eq[of i] sint_less[of i] by simp_all

lemma truncate_bounds:
  fixes d :: double
  defines "t \<equiv> double_truncate d"
  shows "t < n \<Longrightarrow> dval d < n * int double_scale" "n < t \<Longrightarrow> n * int double_scale < dval d"
proof -
  define S where "S = int double_scale"
  define a r where "a = code_magnitude (double_code d) div double_scale"
    and "r = code_magnitude (double_code d) mod double_scale"
  have S: "0 < S" by (simp add: S_def)
  have mag: "int (code_magnitude (double_code d)) = int a * S + int r"
    unfolding S_def a_def r_def by (metis div_mult_mod_eq of_nat_add of_nat_mult)
  have r: "int r < S" by (simp add: r_def S_def)
  have t: "t = (if double_negative d then - int a else int a)"
    by (simp add: t_def double_truncate_def a_def)
  have dv: "dval d = (if double_negative d then - (int a * S + int r) else int a * S + int r)"
    by (simp add: dval_def mag)
  have le: "x + 1 \<le> y \<Longrightarrow> x * S + S \<le> y * S" for x y
    using mult_right_mono[of "x + 1" y S] S by (simp add: distrib_right)
  show "dval d < n * int double_scale" if "t < n"
  proof (cases "double_negative d")
    case True
    then show ?thesis using le[of "- int a" n] that t dv r S unfolding S_def[symmetric] by simp
  next
    case False
    then show ?thesis using le[of "int a" n] that t dv r S unfolding S_def[symmetric] by simp
  qed
  show "n * int double_scale < dval d" if "n < t"
  proof (cases "double_negative d")
    case True
    then show ?thesis using le[of n "- int a"] that t dv r S unfolding S_def[symmetric] by simp
  next
    case False
    then show ?thesis using le[of n "int a"] that t dv r S unfolding S_def[symmetric] by simp
  qed
qed

lemma int64_to_double_truncated:
  assumes "double_code d < infinity_code" "double_truncate d = sint i"
  shows "\<not> is_nan (int64_to_double i)" "dval (int64_to_double i) = sint i * int double_scale"
proof -
  define M where "M = code_magnitude (double_code d)"
  have a: "nat \<bar>sint i\<bar> = M div double_scale"
    using assms(2) by (auto simp: double_truncate_def M_def Let_def split: if_splits)
  have "\<exists>c < infinity_code. code_magnitude c = nat \<bar>sint i\<bar> * double_scale"
  proof (cases "nat \<bar>sint i\<bar> < 2 ^ 53")
    case True
    then show ?thesis by (rule representable_small)
  next
    case False
    have "2 ^ 53 * double_scale \<le> M div double_scale * double_scale"
      using False a by (intro mult_le_mono1) simp
    also have "\<dots> \<le> M" by (rule div_times_less_eq_dividend)
    finally have "double_scale dvd M" unfolding M_def by (rule large_double_integral)
    then show ?thesis using a assms(1) M_def by auto
  qed
  then obtain c where "c < infinity_code" "code_magnitude c = nat \<bar>sint i\<bar> * double_scale" by blast
  from int64_to_double_exact[OF this]
  show "\<not> is_nan (int64_to_double i)" "dval (int64_to_double i) = sint i * int double_scale" .
qed

lemma truncate_in_range:
  assumes "- (2 ^ 63) * int double_scale \<le> dval d" "dval d < 2 ^ 63 * int double_scale"
  shows "- (2 ^ 63) \<le> double_truncate d" "double_truncate d < 2 ^ 63"
proof -
  show "- (2 ^ 63) \<le> double_truncate d"
    using truncate_bounds(1)[where d = d and n = "- (2 ^ 63)"] assms(1) by linarith
  show "double_truncate d < 2 ^ 63"
  proof (rule ccontr)
    assume "\<not> double_truncate d < 2 ^ 63"
    then have neg: "\<not> double_negative d"
      and q: "2 ^ 63 \<le> code_magnitude (double_code d) div double_scale"
      by (auto simp: double_truncate_def Let_def split: if_splits)
    have "2 ^ 63 * double_scale \<le> code_magnitude (double_code d) div double_scale * double_scale"
      using q by (rule mult_le_mono1)
    also have "\<dots> \<le> code_magnitude (double_code d)" by (rule div_times_less_eq_dividend)
    finally have "int (2 ^ 63 * double_scale) \<le> dval d" using neg by (simp only: dval_def if_False of_nat_le_iff)
    then show False using assms(2) by simp
  qed
qed

lemma Compare_double_values:
  "\<not> is_nan a \<Longrightarrow> \<not> is_nan b \<Longrightarrow> Compare_double a b = DefaultComparator (dval a) (dval b)"
  by (auto simp: Compare_double_def double_lt_def double_eq_def DefaultComparator_def)

lemma CompareMixedNumber_value:
  "CompareMixedNumber d i =
     Inr (if is_nan d then Ascending else DefaultComparator (dval d) (sint i * int double_scale))"
proof -
  define S where "S = int double_scale"
  have S: "0 < S" by (simp add: S_def)
  note lim = INT64_MIN_VALUE_AS_DOUBLE_val INT64_MAX_VALUE_AS_DOUBLE_val
  note bounds = mult_right_mono[of "- (2 ^ 63)" "sint i" S] mult_strict_right_mono[of "sint i" "2 ^ 63" S]
    sint_int64_bounds[of i]
  consider "is_nan d" | "\<not> is_nan d" "dval d < - (2 ^ 63) * S" | "\<not> is_nan d" "2 ^ 63 * S \<le> dval d"
    | "\<not> is_nan d" "- (2 ^ 63) * S \<le> dval d" "dval d < 2 ^ 63 * S" by linarith
  then show ?thesis
  proof cases
    case 1
    then show ?thesis by (simp add: CompareMixedNumber_def double_lt_def double_ge_def)
  next
    case 2
    then have "dval d < sint i * S" using bounds S by linarith
    then show ?thesis using 2 lim unfolding S_def
      by (simp add: CompareMixedNumber_def double_lt_def DefaultComparator_def)
  next
    case 3
    have "\<not> dval d < - (2 ^ 63) * S" "sint i * S < dval d" using bounds 3(2) S by linarith+
    then show ?thesis using 3 lim unfolding S_def
      by (simp add: CompareMixedNumber_def double_lt_def double_ge_def DefaultComparator_def)
  next
    case 4
    then have t: "- (2 ^ 63) \<le> double_truncate d" "double_truncate d < 2 ^ 63"
      using truncate_in_range[of d] unfolding S_def by simp_all
    have st: "sint (word_of_int (double_truncate d) :: int64) = double_truncate d"
      using t by (simp add: sint_sbintrunc' signed_take_bit_int_eq_self)
    have red: "CompareMixedNumber d i =
      (let cmp = DefaultComparator (double_truncate d) (sint i)
       in if cmp \<noteq> Same then Inr cmp else Inr (Compare_double d (int64_to_double i)))"
      using 4 lim t st unfolding S_def
      by (simp add: CompareMixedNumber_def double_lt_def double_ge_def double_to_int64_def Compare_int64_def Let_def)
    show ?thesis
    proof (cases "double_truncate d = sint i")
      case True
      have "\<bar>dval d\<bar> \<le> 2 ^ 63 * S" using 4 by (simp add: abs_le_iff)
      from int64_to_double_truncated[OF finite_double_code[OF 4(1) this[unfolded S_def]] True] show ?thesis
        using True 4(1) by (simp add: red Compare_double_values)
    next
      case False
      then show ?thesis using 4(1) truncate_bounds[where d = d and n = "sint i"]
        by (auto simp: red DefaultComparator_def Let_def)
    qed
  qed
qed

section \<open>Contracts of the comparisons\<close>

text \<open>A comparison that reads a value through a function inherits the contract.\<close>

lemma comparator_on:
  assumes "comparator c" "\<And>x y. f x y = c (g x) (g y)"
  shows "comparator f"
proof unfold_locales
  fix x y z
  show "f x x = Same" unfolding assms(2) by (rule comparator.cmp_refl[OF assms(1)])
  show "f y x = ReverseOrder (f x y)" unfolding assms(2) by (rule comparator.cmp_sym[OF assms(1)])
  show "f x z \<noteq> Descending" if "f x y \<noteq> Descending" "f y z \<noteq> Descending"
    using that unfolding assms(2) by (rule comparator.cmp_trans[OF assms(1)])
qed

lemma strong_comparator_on:
  assumes "strong_comparator c" "\<And>x y. f x y = c (g x) (g y)" "\<And>x y. g x = g y \<Longrightarrow> x = y"
  shows "strong_comparator f"
proof -
  have "comparator f" by (rule comparator_on[OF strong_comparator.axioms(1)[OF assms(1)] assms(2)])
  then show ?thesis
    by (simp add: strong_comparator_def strong_comparator_axioms_def assms(2) strong_comparator.cmp_Same_iff[OF assms(1)]
        assms(3))
qed

text \<open>NaN first, then by value.\<close>

definition double_key :: "double \<Rightarrow> int list" where
  "double_key d = (if is_nan d then [0] else [1, dval d])"

definition int64_key :: "int64 \<Rightarrow> int list" where
  "int64_key i = [1, sint i * int double_scale]"

lemma int_list_comparator: "strong_comparator (CompareContainer (DefaultComparator :: int cmp))"
  by (rule default_cmp.CompareContainer_strong)

lemma Compare_double_key: "Compare_double a b = CompareContainer DefaultComparator (double_key a) (double_key b)"
  by (auto simp: double_key_def Compare_double_def double_lt_def double_eq_def DefaultComparator_def)

lemma Compare_int64_key: "Compare_int64 a b = CompareContainer DefaultComparator (int64_key a) (int64_key b)"
  by (simp add: int64_key_def Compare_int64_def DefaultComparator_def mult_less_cancel_right)

lemma CompareMixedNumber_key:
  "CompareMixedNumber d i = Inr (CompareContainer DefaultComparator (double_key d) (int64_key i))"
  by (simp add: CompareMixedNumber_value double_key_def int64_key_def DefaultComparator_def)

interpretation double_cmp: comparator Compare_double
  by (rule comparator_on[of "CompareContainer DefaultComparator" _ double_key])
    (simp_all add: Compare_double_key int_list_comparator strong_comparator.axioms(1))

lemma string_compare_container:
  "Compare_string a b = CompareContainer DefaultComparator (map of_char a) (map of_char b :: nat list)"
proof (induction a b rule: string_compare.induct)
  case (4 a as b bs)
  consider "(of_char a :: nat) < of_char b" | "(of_char b :: nat) < of_char a" | "(of_char a :: nat) = of_char b"
    by linarith
  then show ?case
    by cases (use 4 in \<open>simp_all add: Compare_string_def ComparisonResultFromInt_def DefaultComparator_def\<close>)
qed (simp_all add: Compare_string_def ComparisonResultFromInt_def DefaultComparator_def)

lemma map_of_char_inj: "map of_char a = (map of_char b :: nat list) \<Longrightarrow> a = b"
  by (induction a b rule: list_induct2') simp_all

interpretation string_cmp: strong_comparator Compare_string
  by (rule strong_comparator_on[OF default_cmp.CompareContainer_strong string_compare_container map_of_char_inj])

section \<open>Properties\<close>

text \<open>
  C14. Comparing a double with a 64-bit integer never reaches the undefined conversion and gives
  the order of their exact mathematical values, also where neither type can represent the other's
  value; NaN sorts before every integer.
\<close>

theorem CompareMixedNumber_exact:
  "CompareMixedNumber d i =
     Inr (if is_nan d then Ascending else DefaultComparator (dval d) (sint i * int double_scale))"
  by (rule CompareMixedNumber_value)

text \<open>
  Bitwise equality of doubles identifies exactly equal patterns and any two NaNs; values it
  identifies compare the same and have the same hash.
\<close>

theorem DoubleBitwiseEquals_consistent:
  "(DoubleBitwiseEquals a b \<longleftrightarrow> a = b \<or> is_nan a \<and> is_nan b) \<and>
   (DoubleBitwiseEquals a b \<longrightarrow> Compare_double a b = Same \<and> DoubleBitwiseHash a = DoubleBitwiseHash b)"
proof -
  have nan: "is_nan quiet_NaN"
    by (simp add: is_nan_def quiet_NaN_def double_code_def infinity_code_def)
  then have eq: "DoubleBitwiseEquals a b \<longleftrightarrow> a = b \<or> is_nan a \<and> is_nan b"
    by (auto simp: DoubleBitwiseEquals_def DoubleBits_def)
  have "Compare_double a b = Same" if "is_nan a" "is_nan b"
    using that by (simp add: Compare_double_def double_lt_def double_eq_def)
  then show ?thesis using eq by (auto simp: DoubleBitwiseHash_def DoubleBits_def)
qed

theorem DoubleBitwiseEquals_consistent_witness:
  "Compare_double 0x7FF8000000000001 0xFFF8000000000000 = Same"
  using DoubleBitwiseEquals_consistent[of "0x7FF8000000000001" "0xFFF8000000000000"]
  by (simp add: is_nan_def double_code_def infinity_code_def)

end
