(* ===== verification/Field_Value.thy ===== *)
theory Field_Value
  imports Number_Compare
begin

text \<open>
  Field values: \<^verbatim>\<open>model/value_util.cc\<close> and \<^verbatim>\<open>model/server_timestamp_util.cc\<close>.

  A \<open>Value\<close> is the protocol buffer \<^verbatim>\<open>google_firestore_v1_Value\<close>: the tag of its union is the
  constructor. A null string pointer is the empty string, as \<^verbatim>\<open>MakeStringView\<close> reads it; byte
  strings keep the null pointer because \<^verbatim>\<open>CompareBlobs\<close> tests it. The recursive helpers take the
  comparison they call as an argument, and \<open>Value_Compare\<close> and \<open>Value_Equals\<close> tie the knot.
  \<^verbatim>\<open>absl::StrSplit\<close> with \<^verbatim>\<open>SkipEmpty\<close> is the parameter \<open>split\<close>.
\<close>

section \<open>Values\<close>

record google_protobuf_Timestamp =
  ts_seconds :: "64 word"
  ts_nanos :: "32 word"

datatype Value =
    Null_value
  | Boolean_value bool
  | Integer_value int64
  | Double_value double
  | Timestamp_value google_protobuf_Timestamp
  | String_value string
  | Bytes_value "string option"
  | Reference_value string
  | Geo_point_value double double
  | Array_value "Value list"
  | Map_value "(string \<times> Value) list"

type_synonym fields = "(string \<times> Value) list"

definition kTypeKey :: string where "kTypeKey = ''__type__''"
definition kLocalWriteTimeKey :: string where "kLocalWriteTimeKey = ''__local_write_time__''"
definition kPreviousValueKey :: string where "kPreviousValueKey = ''__previous_value__''"
definition kServerTimestampSentinel :: string where "kServerTimestampSentinel = ''server_timestamp''"
definition kMinimumReferenceValue :: string where "kMinimumReferenceValue = ''projects//databases//documents/''"
definition kRawTypeValueFieldKey :: string where "kRawTypeValueFieldKey = ''__type__''"
definition kRawMaxValueFieldValue :: string where "kRawMaxValueFieldValue = ''__max__''"
definition kRawVectorTypeFieldValue :: string where "kRawVectorTypeFieldValue = ''__vector__''"
definition kRawVectorValueFieldKey :: string where "kRawVectorValueFieldKey = ''value''"

fun IsInteger :: "Value option \<Rightarrow> bool" where
  "IsInteger (Some (Integer_value _)) = True"
| "IsInteger _ = False"

fun IsDouble :: "Value option \<Rightarrow> bool" where
  "IsDouble (Some (Double_value _)) = True"
| "IsDouble _ = False"

definition IsNumber :: "Value option \<Rightarrow> bool" where
  "IsNumber value \<longleftrightarrow> IsInteger value \<or> IsDouble value"

fun IsArray :: "Value option \<Rightarrow> bool" where
  "IsArray (Some (Array_value _)) = True"
| "IsArray _ = False"

fun IsMap :: "Value option \<Rightarrow> bool" where
  "IsMap (Some (Map_value _)) = True"
| "IsMap _ = False"

fun map_fields :: "Value \<Rightarrow> fields" where
  "map_fields (Map_value fs) = fs"
| "map_fields _ = []"

fun array_values :: "Value \<Rightarrow> Value list" where
  "array_values (Array_value vs) = vs"
| "array_values _ = []"

section \<open>Server timestamps\<close>

fun IsServerTimestamp :: "Value \<Rightarrow> bool" where
  "IsServerTimestamp (Map_value fs) =
     (if 3 < length fs then False
      else case find (\<lambda>field. fst field = kTypeKey) fs of
        Some field \<Rightarrow> (case snd field of String_value s \<Rightarrow> s = kServerTimestampSentinel | _ \<Rightarrow> False)
      | None \<Rightarrow> False)"
| "IsServerTimestamp _ = False"

fun is_timestamp :: "Value \<Rightarrow> bool" where
  "is_timestamp (Timestamp_value _) = True"
| "is_timestamp _ = False"

definition GetLocalWriteTime :: "Value \<Rightarrow> google_protobuf_Timestamp res" where
  "GetLocalWriteTime value =
     (case find (\<lambda>field. fst field = kLocalWriteTimeKey \<and> is_timestamp (snd field)) (map_fields value) of
        Some (_, Timestamp_value t) \<Rightarrow> Inr t
      | _ \<Rightarrow> Inl HardFail)"

text \<open>The chain of previous values gets smaller with every step.\<close>

lemma size_field [termination_simp]: "f \<in> set fs \<Longrightarrow> size (snd f) < Suc (size_list (size_prod (\<lambda>x. 0) size) fs)"
  by (induction fs) (auto split: prod.splits)

lemma size_element [termination_simp]: "v \<in> set vs \<Longrightarrow> size v < Suc (size_list size vs)"
  by (induction vs) auto

lemma find_size_less:
  "find P (map_fields v) = Some f \<Longrightarrow> size (snd f) < size v"
  by (cases v) (auto simp: find_Some_iff intro!: size_field)

function GetPreviousValue :: "Value \<Rightarrow> Value option" where
  "GetPreviousValue value =
     (case find (\<lambda>field. fst field = kPreviousValueKey) (map_fields value) of
        None \<Rightarrow> None
      | Some field \<Rightarrow>
          if IsServerTimestamp (snd field) then GetPreviousValue (snd field) else Some (snd field))"
  by pat_completeness auto
termination
  by (relation "measure size") (auto dest: find_size_less)

declare GetPreviousValue.simps [simp del]

definition EncodeServerTimestamp :: "google_protobuf_Timestamp \<Rightarrow> Value option \<Rightarrow> Value" where
  "EncodeServerTimestamp local_write_time previous_value =
     (let previous = (case previous_value of
            Some v \<Rightarrow> if IsServerTimestamp v then GetPreviousValue v else Some v
          | None \<Rightarrow> None)
      in Map_value ([(kTypeKey, String_value kServerTimestampSentinel),
                     (kLocalWriteTimeKey, Timestamp_value local_write_time)] @
                    (case previous of Some v \<Rightarrow> [(kPreviousValueKey, v)] | None \<Rightarrow> [])))"

section \<open>Sentinel maps and the order of types\<close>

definition IndexOfKey :: "fields \<Rightarrow> string \<Rightarrow> nat option" where
  "IndexOfKey fs key =
     (let i = length (takeWhile (\<lambda>field. fst field \<noteq> key) fs) in if i < length fs then Some i else None)"

fun IsMaxValue :: "Value \<Rightarrow> bool" where
  "IsMaxValue (Map_value fs) =
     (if length fs \<noteq> 1 then False
      else if fst (fs ! 0) \<noteq> kRawTypeValueFieldKey then False
      else case snd (fs ! 0) of String_value s \<Rightarrow> s = kRawMaxValueFieldValue | _ \<Rightarrow> False)"
| "IsMaxValue _ = False"

fun IsVectorValue :: "Value \<Rightarrow> bool" where
  "IsVectorValue (Map_value fs) =
     (if length fs < 2 then False
      else case IndexOfKey fs kRawTypeValueFieldKey of
        None \<Rightarrow> False
      | Some typeFieldIndex \<Rightarrow>
          (case snd (fs ! typeFieldIndex) of
             String_value s \<Rightarrow>
               if s \<noteq> kRawVectorTypeFieldValue then False
               else (case IndexOfKey fs kRawVectorValueFieldKey of
                       None \<Rightarrow> False
                     | Some valueFieldIndex \<Rightarrow> IsArray (Some (snd (fs ! valueFieldIndex))))
           | _ \<Rightarrow> False))"
| "IsVectorValue _ = False"

datatype TypeOrder =
    kNull | kBoolean | kNumber | kTimestamp | kServerTimestamp | kString | kBlob | kReference
  | kGeoPoint | kArray | kVector | kMap | kMaxValue

fun TypeOrder_value :: "TypeOrder \<Rightarrow> int" where
  "TypeOrder_value kNull = 0"
| "TypeOrder_value kBoolean = 1"
| "TypeOrder_value kNumber = 2"
| "TypeOrder_value kTimestamp = 3"
| "TypeOrder_value kServerTimestamp = 4"
| "TypeOrder_value kString = 5"
| "TypeOrder_value kBlob = 6"
| "TypeOrder_value kReference = 7"
| "TypeOrder_value kGeoPoint = 8"
| "TypeOrder_value kArray = 9"
| "TypeOrder_value kVector = 10"
| "TypeOrder_value kMap = 11"
| "TypeOrder_value kMaxValue = 12"

fun GetTypeOrder :: "Value \<Rightarrow> TypeOrder" where
  "GetTypeOrder Null_value = kNull"
| "GetTypeOrder (Boolean_value _) = kBoolean"
| "GetTypeOrder (Integer_value _) = kNumber"
| "GetTypeOrder (Double_value _) = kNumber"
| "GetTypeOrder (Timestamp_value _) = kTimestamp"
| "GetTypeOrder (String_value _) = kString"
| "GetTypeOrder (Bytes_value _) = kBlob"
| "GetTypeOrder (Reference_value _) = kReference"
| "GetTypeOrder (Geo_point_value _ _) = kGeoPoint"
| "GetTypeOrder (Array_value _) = kArray"
| "GetTypeOrder (Map_value fs) =
     (if IsServerTimestamp (Map_value fs) then kServerTimestamp
      else if IsMaxValue (Map_value fs) then kMaxValue
      else if IsVectorValue (Map_value fs) then kVector
      else kMap)"

section \<open>Copying and sorting\<close>

fun DeepClone :: "Value \<Rightarrow> Value" where
  "DeepClone (Array_value vs) = Array_value (map DeepClone vs)"
| "DeepClone (Map_value fs) = Map_value (map (\<lambda>field. (fst field, DeepClone (snd field))) fs)"
| "DeepClone v = v"

function (sequential) SortFields :: "Value \<Rightarrow> Value" where
  "SortFields (Map_value fs) =
     Map_value (map (\<lambda>field. (fst field, SortFields (snd field))) (std_sort_entries Compare_string fs))"
| "SortFields (Array_value vs) = Array_value (map SortFields vs)"
| "SortFields v = v"
  by pat_completeness auto
termination
  by (relation "measure size") (simp_all add: size_field size_element)

section \<open>Comparison\<close>

definition CompareTypeOrder :: "TypeOrder cmp" where
  "CompareTypeOrder left right = DefaultComparator (TypeOrder_value left) (TypeOrder_value right)"

fun CompareNumbers :: "Value \<Rightarrow> Value \<Rightarrow> ComparisonResult res" where
  "CompareNumbers (Double_value left) (Double_value right) = Inr (Compare_double left right)"
| "CompareNumbers (Double_value left) (Integer_value right) = CompareMixedNumber left right"
| "CompareNumbers (Integer_value left) (Integer_value right) = Inr (Compare_int64 left right)"
| "CompareNumbers (Integer_value left) (Double_value right) =
     bind_res (CompareMixedNumber right left) (\<lambda>r. Inr (ReverseOrder r))"
| "CompareNumbers _ _ = Inl InactiveMember"

definition CompareTimestamps :: "google_protobuf_Timestamp cmp" where
  "CompareTimestamps left right =
     (let cmp = DefaultComparator (sint (ts_seconds left)) (sint (ts_seconds right))
      in if cmp \<noteq> Same then cmp
         else DefaultComparator (sint (ts_nanos left)) (sint (ts_nanos right)))"

fun CompareStrings :: "Value \<Rightarrow> Value \<Rightarrow> ComparisonResult res" where
  "CompareStrings (String_value left) (String_value right) = Inr (Compare_string left right)"
| "CompareStrings _ _ = Inl InactiveMember"

fun CompareBlobs :: "Value \<Rightarrow> Value \<Rightarrow> ComparisonResult res" where
  "CompareBlobs (Bytes_value (Some left)) (Bytes_value (Some right)) =
     (let size = min (length left) (length right);
          cmp = string_compare (take size left) (take size right)
      in if cmp \<noteq> 0 then Inr (ComparisonResultFromInt cmp)
         else Inr (DefaultComparator (length left) (length right)))"
| "CompareBlobs (Bytes_value left) (Bytes_value right) =
     Inr (DefaultComparator (\<not> (left = None \<or> left = Some [])) (\<not> (right = None \<or> right = Some [])))"
| "CompareBlobs _ _ = Inl InactiveMember"

text \<open>The loop over the common length of two ranges.\<close>

fun compare_loop :: "('a \<Rightarrow> 'a \<Rightarrow> ComparisonResult res) \<Rightarrow> 'a list \<Rightarrow> 'a list \<Rightarrow> ComparisonResult res" where
  "compare_loop cmp (x # xs) (y # ys) =
     bind_res (cmp x y) (\<lambda>r. if r \<noteq> Same then Inr r else compare_loop cmp xs ys)"
| "compare_loop cmp _ _ = Inr Same"

definition compare_ranges :: "('a \<Rightarrow> 'a \<Rightarrow> ComparisonResult res) \<Rightarrow> 'a list \<Rightarrow> 'a list \<Rightarrow> ComparisonResult res" where
  "compare_ranges cmp xs ys =
     bind_res (compare_loop cmp xs ys)
       (\<lambda>r. if r \<noteq> Same then Inr r else Inr (DefaultComparator (length xs) (length ys)))"

fun CompareReferences :: "(string \<Rightarrow> string list) \<Rightarrow> Value \<Rightarrow> Value \<Rightarrow> ComparisonResult res" where
  "CompareReferences split (Reference_value left) (Reference_value right) =
     compare_ranges (\<lambda>l r. Inr (Compare_string l r)) (split left) (split right)"
| "CompareReferences split _ _ = Inl InactiveMember"

fun CompareGeoPoints :: "Value \<Rightarrow> Value \<Rightarrow> ComparisonResult res" where
  "CompareGeoPoints (Geo_point_value lat lng) (Geo_point_value lat' lng') =
     (let cmp = Compare_double lat lat'
      in if cmp \<noteq> Same then Inr cmp else Inr (Compare_double lng lng'))"
| "CompareGeoPoints _ _ = Inl InactiveMember"

definition CompareArrays :: "(Value \<Rightarrow> Value \<Rightarrow> ComparisonResult res) \<Rightarrow> Value \<Rightarrow> Value \<Rightarrow> ComparisonResult res" where
  "CompareArrays compare left right = compare_ranges compare (array_values left) (array_values right)"

definition CompareMaps :: "(Value \<Rightarrow> Value \<Rightarrow> ComparisonResult res) \<Rightarrow> Value \<Rightarrow> Value \<Rightarrow> ComparisonResult res" where
  "CompareMaps compare left right =
     (let left_map = SortFields (DeepClone left); right_map = SortFields (DeepClone right)
      in compare_ranges
           (\<lambda>l r. let key_cmp = Compare_string (fst l) (fst r)
                  in if key_cmp \<noteq> Same then Inr key_cmp else compare (snd l) (snd r))
           (map_fields left_map) (map_fields right_map))"

text \<open>Both array fields are read under the condition that the left one was found.\<close>

definition CompareVectors :: "(Value \<Rightarrow> Value \<Rightarrow> ComparisonResult res) \<Rightarrow> Value \<Rightarrow> Value \<Rightarrow> ComparisonResult res" where
  "CompareVectors compare left right =
     (if \<not> (IsVectorValue left \<and> IsVectorValue right) then Inl HardAssert
      else case IndexOfKey (map_fields left) kRawVectorValueFieldKey of
        None \<Rightarrow> Inr Same
      | Some leftIndex \<Rightarrow>
          (case IndexOfKey (map_fields right) kRawVectorValueFieldKey of
             None \<Rightarrow> Inl UndefinedBehaviour
           | Some rightIndex \<Rightarrow>
               (let leftArray = snd (map_fields left ! leftIndex);
                    rightArray = snd (map_fields right ! rightIndex);
                    leftArrayLength = length (array_values leftArray);
                    rightArrayLength = length (array_values rightArray)
                in if leftArrayLength = 0 \<and> rightArrayLength = 0 then Inr Same
                   else (let lengthCompare = DefaultComparator leftArrayLength rightArrayLength
                         in if lengthCompare \<noteq> Same then Inr lengthCompare
                            else CompareArrays compare leftArray rightArray))))"

lemma DeepClone_id [simp]: "DeepClone v = v"
  by (induction v rule: DeepClone.induct) (auto intro: map_idI)

lemma size_list_mset: "mset xs = mset ys \<Longrightarrow> size_list f xs = size_list f ys"
proof -
  assume "mset xs = mset ys"
  then have "sum_list (map (\<lambda>x. Suc (f x)) xs) = sum_list (map (\<lambda>x. Suc (f x)) ys)"
    by (metis mset_map sum_mset_sum_list)
  then show ?thesis by (simp add: size_list_conv_sum_list sum_list_Suc)
qed

lemma size_list_eq: "(\<And>x. x \<in> set xs \<Longrightarrow> f x = g x) \<Longrightarrow> size_list f xs = size_list g xs"
  by (induction xs) simp_all

lemma size_SortFields [simp]: "size (SortFields v) = size v"
proof (induction v rule: SortFields.induct)
  case (1 fs)
  have "size_list (size_prod (\<lambda>x. 0) size) (map (\<lambda>field. (fst field, SortFields (snd field))) (std_sort_entries Compare_string fs))
      = size_list (size_prod (\<lambda>x. 0) size) (std_sort_entries Compare_string fs)"
    unfolding size_list_map by (rule size_list_eq) (use 1 in \<open>auto split: prod.splits\<close>)
  then show ?case using size_list_mset[OF mset_std_sort_entries] by simp
next
  case (2 vs)
  then show ?case by (auto simp: size_list_map intro: size_list_eq)
qed simp_all

lemma size_array_values: "v \<in> set (array_values l) \<Longrightarrow> size v < size l"
  by (cases l) (auto intro: size_element)

lemma size_map_fields: "f \<in> set (map_fields l) \<Longrightarrow> size (snd f) < size l"
  by (cases l) (auto intro: size_field)

lemma compare_loop_cong:
  "(\<And>x y. x \<in> set xs \<Longrightarrow> c x y = d x y) \<Longrightarrow> compare_loop c xs ys = compare_loop d xs ys"
  by (induction c xs ys rule: compare_loop.induct) (auto simp: bind_res_def split: sum.splits)

lemma compare_ranges_cong:
  "(\<And>x y. x \<in> set xs \<Longrightarrow> c x y = d x y) \<Longrightarrow> compare_ranges c xs ys = compare_ranges d xs ys"
  unfolding compare_ranges_def by (subst compare_loop_cong[of xs c d]) simp_all

lemma CompareArrays_cong [fundef_cong]:
  "\<lbrakk>l = l'; r = r'; \<And>x y. size x < size l' \<Longrightarrow> c x y = d x y\<rbrakk> \<Longrightarrow> CompareArrays c l r = CompareArrays d l' r'"
  unfolding CompareArrays_def by (auto intro!: compare_ranges_cong dest: size_array_values)

lemma CompareMaps_cong [fundef_cong]:
  "\<lbrakk>l = l'; r = r'; \<And>x y. size x < size l' \<Longrightarrow> c x y = d x y\<rbrakk> \<Longrightarrow> CompareMaps c l r = CompareMaps d l' r'"
  unfolding CompareMaps_def Let_def
  by (auto intro!: compare_ranges_cong dest!: size_map_fields)

lemma IndexOfKey_Some:
  "IndexOfKey fs key = Some i \<Longrightarrow> i < length fs \<and> fst (fs ! i) = key"
  using nth_length_takeWhile[of "\<lambda>f. fst f \<noteq> key" fs] by (auto simp: IndexOfKey_def Let_def split: if_splits)

lemma CompareVectors_cong [fundef_cong]:
  assumes "l = l'" "r = r'" "\<And>x y. size x < size l' \<Longrightarrow> c x y = d x y"
  shows "CompareVectors c l r = CompareVectors d l' r'"
proof -
  have "CompareArrays c (snd (map_fields l' ! i)) a = CompareArrays d (snd (map_fields l' ! i)) a"
    if "IndexOfKey (map_fields l') kRawVectorValueFieldKey = Some i" for i a
    using size_map_fields[OF nth_mem] IndexOfKey_Some[OF that] assms(3) by (intro CompareArrays_cong) force+
  then show ?thesis unfolding CompareVectors_def assms(1,2) Let_def by (simp split: option.split)
qed

function Value_Compare :: "(string \<Rightarrow> string list) \<Rightarrow> Value \<Rightarrow> Value \<Rightarrow> ComparisonResult res" where
  "Value_Compare split left right =
     (let left_type = GetTypeOrder left; right_type = GetTypeOrder right
      in if left_type \<noteq> right_type then Inr (CompareTypeOrder left_type right_type)
         else case left_type of
           kNull \<Rightarrow> Inr Same
         | kBoolean \<Rightarrow> (case (left, right) of
               (Boolean_value l, Boolean_value r) \<Rightarrow> Inr (DefaultComparator l r)
             | _ \<Rightarrow> Inl InactiveMember)
         | kNumber \<Rightarrow> CompareNumbers left right
         | kTimestamp \<Rightarrow> (case (left, right) of
               (Timestamp_value l, Timestamp_value r) \<Rightarrow> Inr (CompareTimestamps l r)
             | _ \<Rightarrow> Inl InactiveMember)
         | kServerTimestamp \<Rightarrow>
             bind_res (GetLocalWriteTime left) (\<lambda>l.
             bind_res (GetLocalWriteTime right) (\<lambda>r. Inr (CompareTimestamps l r)))
         | kString \<Rightarrow> CompareStrings left right
         | kBlob \<Rightarrow> CompareBlobs left right
         | kReference \<Rightarrow> CompareReferences split left right
         | kGeoPoint \<Rightarrow> CompareGeoPoints left right
         | kArray \<Rightarrow> CompareArrays (Value_Compare split) left right
         | kMap \<Rightarrow> CompareMaps (Value_Compare split) left right
         | kVector \<Rightarrow> CompareVectors (Value_Compare split) left right
         | kMaxValue \<Rightarrow> Inr Same)"
  by pat_completeness auto
termination
  by (relation "measure (\<lambda>(split, left, right). size left)") auto

declare Value_Compare.simps [simp del]

definition LowerBoundCompare :: "(string \<Rightarrow> string list) \<Rightarrow> Value \<Rightarrow> bool \<Rightarrow> Value \<Rightarrow> bool \<Rightarrow> ComparisonResult res" where
  "LowerBoundCompare split left left_inclusive right right_inclusive =
     bind_res (Value_Compare split left right) (\<lambda>cmp.
       if cmp \<noteq> Same then Inr cmp
       else if left_inclusive \<and> \<not> right_inclusive then Inr Ascending
       else if \<not> left_inclusive \<and> right_inclusive then Inr Descending
       else Inr Same)"

definition UpperBoundCompare :: "(string \<Rightarrow> string list) \<Rightarrow> Value \<Rightarrow> bool \<Rightarrow> Value \<Rightarrow> bool \<Rightarrow> ComparisonResult res" where
  "UpperBoundCompare split left left_inclusive right right_inclusive =
     bind_res (Value_Compare split left right) (\<lambda>cmp.
       if cmp \<noteq> Same then Inr cmp
       else if left_inclusive \<and> \<not> right_inclusive then Inr Descending
       else if \<not> left_inclusive \<and> right_inclusive then Inr Ascending
       else Inr Same)"

section \<open>Equality\<close>

fun NumberEquals :: "Value \<Rightarrow> Value \<Rightarrow> bool" where
  "NumberEquals (Integer_value left) (Integer_value right) = (left = right)"
| "NumberEquals (Double_value left) (Double_value right) = DoubleBitwiseEquals left right"
| "NumberEquals _ _ = False"

fun equals_loop :: "('a \<Rightarrow> 'a \<Rightarrow> bool res) \<Rightarrow> 'a list \<Rightarrow> 'a list \<Rightarrow> bool res" where
  "equals_loop eq (x # xs) (y # ys) = bind_res (eq x y) (\<lambda>b. if \<not> b then Inr False else equals_loop eq xs ys)"
| "equals_loop eq _ _ = Inr True"

definition ArrayEquals :: "(Value \<Rightarrow> Value \<Rightarrow> bool res) \<Rightarrow> Value \<Rightarrow> Value \<Rightarrow> bool res" where
  "ArrayEquals eq left right =
     (if length (array_values left) \<noteq> length (array_values right) then Inr False
      else equals_loop eq (array_values left) (array_values right))"

definition MapValueEquals :: "(string \<Rightarrow> string list) \<Rightarrow> Value \<Rightarrow> Value \<Rightarrow> bool res" where
  "MapValueEquals split left right =
     (if length (map_fields left) \<noteq> length (map_fields right) then Inr False
      else bind_res (CompareMaps (Value_Compare split) left right) (\<lambda>r. Inr (r = Same)))"

lemma equals_loop_cong:
  "(\<And>x y. x \<in> set xs \<Longrightarrow> c x y = d x y) \<Longrightarrow> equals_loop c xs ys = equals_loop d xs ys"
  by (induction c xs ys rule: equals_loop.induct) (auto simp: bind_res_def split: sum.splits)

lemma ArrayEquals_cong [fundef_cong]:
  "\<lbrakk>l = l'; r = r'; \<And>x y. size x < size l' \<Longrightarrow> c x y = d x y\<rbrakk> \<Longrightarrow> ArrayEquals c l r = ArrayEquals d l' r'"
  unfolding ArrayEquals_def by (auto intro!: equals_loop_cong dest: size_array_values)

function Value_Equals :: "(string \<Rightarrow> string list) \<Rightarrow> Value \<Rightarrow> Value \<Rightarrow> bool res" where
  "Value_Equals split lhs rhs =
     (let left_type = GetTypeOrder lhs; right_type = GetTypeOrder rhs
      in if left_type \<noteq> right_type then Inr False
         else case left_type of
           kNull \<Rightarrow> Inr True
         | kBoolean \<Rightarrow> (case (lhs, rhs) of
               (Boolean_value l, Boolean_value r) \<Rightarrow> Inr (l = r) | _ \<Rightarrow> Inl InactiveMember)
         | kNumber \<Rightarrow> Inr (NumberEquals lhs rhs)
         | kTimestamp \<Rightarrow> (case (lhs, rhs) of
               (Timestamp_value l, Timestamp_value r) \<Rightarrow>
                 Inr (ts_seconds l = ts_seconds r \<and> ts_nanos l = ts_nanos r)
             | _ \<Rightarrow> Inl InactiveMember)
         | kServerTimestamp \<Rightarrow>
             bind_res (GetLocalWriteTime lhs) (\<lambda>l.
             bind_res (GetLocalWriteTime rhs) (\<lambda>r.
               Inr (ts_seconds l = ts_seconds r \<and> ts_nanos l = ts_nanos r)))
         | kString \<Rightarrow> (case (lhs, rhs) of
               (String_value l, String_value r) \<Rightarrow> Inr (l = r) | _ \<Rightarrow> Inl InactiveMember)
         | kBlob \<Rightarrow> bind_res (CompareBlobs lhs rhs) (\<lambda>r. Inr (r = Same))
         | kReference \<Rightarrow> (case (lhs, rhs) of
               (Reference_value l, Reference_value r) \<Rightarrow> Inr (l = r) | _ \<Rightarrow> Inl InactiveMember)
         | kGeoPoint \<Rightarrow> (case (lhs, rhs) of
               (Geo_point_value a b, Geo_point_value a' b') \<Rightarrow> Inr (double_eq a a' \<and> double_eq b b')
             | _ \<Rightarrow> Inl InactiveMember)
         | kArray \<Rightarrow> ArrayEquals (Value_Equals split) lhs rhs
         | kVector \<Rightarrow> MapValueEquals split lhs rhs
         | kMap \<Rightarrow> MapValueEquals split lhs rhs
         | kMaxValue \<Rightarrow> MapValueEquals split lhs rhs)"
  by pat_completeness auto
termination
  by (relation "measure (\<lambda>(split, left, right). size left)") auto

declare Value_Equals.simps [simp del]

text \<open>The first element that is equal to the needle ends the search.\<close>

fun Contains_loop :: "(string \<Rightarrow> string list) \<Rightarrow> Value list \<Rightarrow> Value \<Rightarrow> bool res" where
  "Contains_loop split [] needle = Inr False"
| "Contains_loop split (v # vs) needle =
     bind_res (Value_Equals split v needle) (\<lambda>b. if b then Inr True else Contains_loop split vs needle)"

definition Value_Contains :: "(string \<Rightarrow> string list) \<Rightarrow> Value \<Rightarrow> Value \<Rightarrow> bool res" where
  "Value_Contains split haystack needle = Contains_loop split (array_values haystack) needle"

section \<open>Least and greatest values of a type\<close>

definition NullValue :: Value where "NullValue = Null_value"

definition IsNullValue :: "Value \<Rightarrow> bool" where "IsNullValue value \<longleftrightarrow> value = Null_value"

definition MinValue :: Value where "MinValue = Null_value"

definition IsMinValue :: "Value \<Rightarrow> bool" where "IsMinValue value \<longleftrightarrow> IsNullValue value"

definition MaxValue :: Value where
  "MaxValue = Map_value [(kRawTypeValueFieldKey, String_value kRawMaxValueFieldValue)]"

definition NaNValue :: Value where "NaNValue = Double_value quiet_NaN"

fun IsNaNValue :: "Value \<Rightarrow> bool" where
  "IsNaNValue (Double_value d) = is_nan d"
| "IsNaNValue _ = False"

definition MinBoolean :: Value where "MinBoolean = Boolean_value False"

definition MinNumber :: Value where "MinNumber = NaNValue"

definition MinTimestamp :: Value where
  "MinTimestamp = Timestamp_value \<lparr>ts_seconds = word_of_int (- (2 ^ 63)), ts_nanos = 0\<rparr>"

definition MinString :: Value where "MinString = String_value []"

definition MinBytes :: Value where "MinBytes = Bytes_value None"

definition MinReference :: Value where "MinReference = Reference_value kMinimumReferenceValue"

text \<open>The doubles -90.0 and -180.0.\<close>

definition MinGeoPoint :: Value where
  "MinGeoPoint = Geo_point_value 0xC056800000000000 0xC066800000000000"

definition MinArray :: Value where "MinArray = Array_value []"

definition MinVector :: Value where
  "MinVector = Map_value [(kRawTypeValueFieldKey, String_value kRawVectorTypeFieldValue),
                          (kRawVectorValueFieldKey, Array_value [])]"

definition MinMap :: Value where "MinMap = Map_value []"

fun GetLowerBound :: "Value \<Rightarrow> Value" where
  "GetLowerBound Null_value = NullValue"
| "GetLowerBound (Boolean_value _) = MinBoolean"
| "GetLowerBound (Integer_value _) = MinNumber"
| "GetLowerBound (Double_value _) = MinNumber"
| "GetLowerBound (Timestamp_value _) = MinTimestamp"
| "GetLowerBound (String_value _) = MinString"
| "GetLowerBound (Bytes_value _) = MinBytes"
| "GetLowerBound (Reference_value _) = MinReference"
| "GetLowerBound (Geo_point_value _ _) = MinGeoPoint"
| "GetLowerBound (Array_value _) = MinArray"
| "GetLowerBound (Map_value fs) = (if IsVectorValue (Map_value fs) then MinVector else MinMap)"

fun GetUpperBound :: "Value \<Rightarrow> Value" where
  "GetUpperBound Null_value = MinBoolean"
| "GetUpperBound (Boolean_value _) = MinNumber"
| "GetUpperBound (Integer_value _) = MinTimestamp"
| "GetUpperBound (Double_value _) = MinTimestamp"
| "GetUpperBound (Timestamp_value _) = MinString"
| "GetUpperBound (String_value _) = MinBytes"
| "GetUpperBound (Bytes_value _) = MinReference"
| "GetUpperBound (Reference_value _) = MinGeoPoint"
| "GetUpperBound (Geo_point_value _ _) = MinArray"
| "GetUpperBound (Array_value _) = MinVector"
| "GetUpperBound (Map_value fs) = (if IsVectorValue (Map_value fs) then MinMap else MaxValue)"

definition RefValue :: "string \<Rightarrow> string \<Rightarrow> string \<Rightarrow> Value" where
  "RefValue project_id database_id document_key =
     Reference_value (''projects/'' @ project_id @ ''/databases/'' @ database_id @ ''/documents/'' @ document_key)"

section \<open>Properties\<close>

lemma GetPreviousValue_not_server: "GetPreviousValue v = Some w \<Longrightarrow> \<not> IsServerTimestamp w"
proof (induction v rule: GetPreviousValue.induct)
  case (1 v)
  then show ?case
    by (subst (asm) (2) GetPreviousValue.simps) (auto split: option.splits if_splits)
qed

text \<open>
  An encoded server timestamp is recognised as one, gives back its local write time, and its
  previous value is the last value that was not itself a pending server timestamp: the chain of
  previous values never nests.
\<close>

theorem EncodeServerTimestamp_roundtrip:
  fixes t p
  defines "v \<equiv> EncodeServerTimestamp t p"
  shows "IsServerTimestamp v \<and> GetLocalWriteTime v = Inr t \<and>
    GetPreviousValue v = (case p of None \<Rightarrow> None
      | Some w \<Rightarrow> if IsServerTimestamp w then GetPreviousValue w else Some w) \<and>
    (\<forall>w. GetPreviousValue v = Some w \<longrightarrow> \<not> IsServerTimestamp w)"
proof -
  define prev where "prev = (case p of None \<Rightarrow> None | Some w \<Rightarrow> if IsServerTimestamp w then GetPreviousValue w else Some w)"
  have v: "v = Map_value ([(kTypeKey, String_value kServerTimestampSentinel), (kLocalWriteTimeKey, Timestamp_value t)] @
      (case prev of Some w \<Rightarrow> [(kPreviousValueKey, w)] | None \<Rightarrow> []))"
    unfolding v_def EncodeServerTimestamp_def prev_def by (cases p) simp_all
  have prev: "prev = Some w \<Longrightarrow> \<not> IsServerTimestamp w" for w
    using GetPreviousValue_not_server by (auto simp: prev_def split: option.splits if_splits)
  have "GetPreviousValue v = prev"
    unfolding v using prev
    by (subst GetPreviousValue.simps)
      (cases prev; simp add: kTypeKey_def kLocalWriteTimeKey_def kPreviousValueKey_def)
  moreover have "IsServerTimestamp v" "GetLocalWriteTime v = Inr t"
    unfolding v by (cases prev; simp add: GetLocalWriteTime_def kTypeKey_def kLocalWriteTimeKey_def)+
  ultimately show ?thesis using prev by (simp add: prev_def[symmetric])
qed

theorem EncodeServerTimestamp_roundtrip_witness:
  "GetPreviousValue (EncodeServerTimestamp \<lparr>ts_seconds = 2, ts_nanos = 0\<rparr>
     (Some (EncodeServerTimestamp \<lparr>ts_seconds = 1, ts_nanos = 0\<rparr> (Some (Integer_value 42))))) = Some (Integer_value 42)"
  using EncodeServerTimestamp_roundtrip[of "\<lparr>ts_seconds = 2, ts_nanos = 0\<rparr>"
      "Some (EncodeServerTimestamp \<lparr>ts_seconds = 1, ts_nanos = 0\<rparr> (Some (Integer_value 42)))"]
    EncodeServerTimestamp_roundtrip[of "\<lparr>ts_seconds = 1, ts_nanos = 0\<rparr>" "Some (Integer_value 42)"]
  by simp

end
