(* ===== verification/Value_Order.thy ===== *)
theory Value_Order
  imports Field_Value
begin

text \<open>
  The order of field values. Every value has a key, a list of integers; comparing two values is
  comparing their keys lexicographically. The comparison is therefore total, antisymmetric in
  direction and transitive, although it mixes number types, sorts copies of maps on the fly and
  treats some maps as sentinels. The only way to fail is a pending server timestamp that lacks its
  local write time, which \<open>value_ok\<close> excludes.
\<close>

definition compare_keys :: "int list cmp" where
  "compare_keys = CompareContainer DefaultComparator"

interpretation keys_cmp: strong_comparator compare_keys
  unfolding compare_keys_def by (rule default_cmp.CompareContainer_strong)

definition then_cmp :: "ComparisonResult \<Rightarrow> ComparisonResult \<Rightarrow> ComparisonResult" where
  "then_cmp c r = (if c = Same then r else c)"

lemma then_cmp_simps [simp]:
  "then_cmp Same r = r" "then_cmp Ascending r = Ascending" "then_cmp Descending r = Descending"
  "then_cmp c Same = c" "then_cmp (then_cmp c d) r = then_cmp c (then_cmp d r)"
  by (simp_all add: then_cmp_def)

lemma compare_keys_simps [simp]:
  "compare_keys (x # xs) (y # ys) = then_cmp (DefaultComparator x y) (compare_keys xs ys)"
  "compare_keys [] (y # ys) = Ascending" "compare_keys (x # xs) [] = Descending" "compare_keys [] [] = Same"
  by (simp_all add: compare_keys_def then_cmp_def)

section \<open>Keys\<close>

text \<open>A range as one list of integers: every element is announced by 1, the end by 0.\<close>

definition enc_list :: "('a \<Rightarrow> int list) \<Rightarrow> 'a list \<Rightarrow> int list" where
  "enc_list f xs = concat (map (\<lambda>x. 1 # f x) xs) @ [0]"

definition enc_string :: "string \<Rightarrow> int list" where
  "enc_string s = enc_list (\<lambda>c. [of_char c]) s"

lemma enc_list_cong [fundef_cong]:
  "\<lbrakk>xs = ys; \<And>x. x \<in> set ys \<Longrightarrow> f x = g x\<rbrakk> \<Longrightarrow> enc_list f xs = enc_list g ys"
  by (simp add: enc_list_def cong: map_cong)

lemma enc_list_simps [simp]:
  "enc_list f [] = [0]" "enc_list f (x # xs) = 1 # f x @ enc_list f xs"
  by (simp_all add: enc_list_def)

lemma enc_list_compare:
  assumes "\<And>x y a b. x \<in> set xs \<Longrightarrow> y \<in> set ys \<Longrightarrow>
    compare_keys (f x @ a) (f y @ b) = then_cmp (c x y) (compare_keys a b)"
  shows "compare_keys (enc_list f xs @ a) (enc_list f ys @ b) =
    then_cmp (CompareContainer c xs ys) (compare_keys a b)"
  using assms
proof (induction xs arbitrary: ys)
  case (Cons x xs)
  show ?case
  proof (cases ys)
    case ys: (Cons y ys')
    have "compare_keys (enc_list f xs @ a) (enc_list f ys' @ b) =
        then_cmp (CompareContainer c xs ys') (compare_keys a b)"
      by (rule Cons.IH) (rule Cons.prems; simp add: ys)
    moreover have "compare_keys (f x @ enc_list f xs @ a) (f y @ enc_list f ys' @ b) =
        then_cmp (c x y) (compare_keys (enc_list f xs @ a) (enc_list f ys' @ b))"
      by (rule Cons.prems) (simp_all add: ys)
    ultimately show ?thesis by (simp add: ys then_cmp_def DefaultComparator_def)
  qed (simp add: DefaultComparator_def)
next
  case Nil
  then show ?case by (cases ys) (simp_all add: DefaultComparator_def)
qed

lemma of_char_less_int: "(of_char c :: int) < of_char d \<longleftrightarrow> (of_char c :: nat) < of_char d"
proof -
  have "int (of_char c) < int (of_char d) \<longleftrightarrow> (of_char c :: nat) < of_char d" by (rule of_nat_less_iff)
  then show ?thesis unfolding of_nat_of_char .
qed

lemma enc_string_compare:
  "compare_keys (enc_string s @ a) (enc_string t @ b) = then_cmp (Compare_string s t) (compare_keys a b)"
proof -
  have "Compare_string s t = CompareContainer (\<lambda>c d. DefaultComparator (of_char c :: int) (of_char d)) s t"
    unfolding string_compare_container
    by (induction s t rule: list_induct2') (auto simp: DefaultComparator_def of_char_less_int)
  then show ?thesis unfolding enc_string_def
    by (simp add: enc_list_compare[where c = "\<lambda>c d. DefaultComparator (of_char c :: int) (of_char d)"])
qed

lemma number_key_compare:
  "compare_keys (double_key x @ a) (double_key y @ b) = then_cmp (compare_keys (double_key x) (double_key y)) (compare_keys a b)"
  "compare_keys (double_key x @ a) (int64_key i @ b) = then_cmp (compare_keys (double_key x) (int64_key i)) (compare_keys a b)"
  "compare_keys (int64_key i @ a) (double_key x @ b) = then_cmp (compare_keys (int64_key i) (double_key x)) (compare_keys a b)"
  "compare_keys (int64_key i @ a) (int64_key j @ b) = then_cmp (compare_keys (int64_key i) (int64_key j)) (compare_keys a b)"
  by (simp_all add: double_key_def int64_key_def DefaultComparator_def)

definition timestamp_key :: "google_protobuf_Timestamp \<Rightarrow> int list" where
  "timestamp_key t = [sint (ts_seconds t), sint (ts_nanos t)]"

lemma timestamp_key_compare:
  "compare_keys (timestamp_key s @ a) (timestamp_key t @ b) = then_cmp (CompareTimestamps s t) (compare_keys a b)"
  by (simp add: timestamp_key_def CompareTimestamps_def then_cmp_def)

fun leaf_key :: "(string \<Rightarrow> string list) \<Rightarrow> Value \<Rightarrow> int list" where
  "leaf_key split (Boolean_value b) = [if b then 1 else 0]"
| "leaf_key split (Integer_value i) = int64_key i"
| "leaf_key split (Double_value d) = double_key d"
| "leaf_key split (Timestamp_value t) = timestamp_key t"
| "leaf_key split (String_value s) = enc_string s"
| "leaf_key split (Bytes_value b) = enc_string (case b of None \<Rightarrow> [] | Some s \<Rightarrow> s)"
| "leaf_key split (Reference_value s) = enc_list enc_string (split s)"
| "leaf_key split (Geo_point_value a b) = double_key a @ double_key b"
| "leaf_key split _ = []"

definition vector_elements :: "Value \<Rightarrow> Value list" where
  "vector_elements v =
     (case IndexOfKey (map_fields v) kRawVectorValueFieldKey of
        Some i \<Rightarrow> array_values (snd (map_fields v ! i)) | None \<Rightarrow> [])"

lemma in_vector_elements:
  assumes "x \<in> set (vector_elements v)"
  obtains f where "f \<in> set (map_fields v)" "x \<in> set (array_values (snd f))"
proof (cases "IndexOfKey (map_fields v) kRawVectorValueFieldKey")
  case (Some i)
  then show ?thesis
    using assms that[of "map_fields v ! i"] IndexOfKey_Some[OF Some] by (simp add: vector_elements_def)
qed (use assms in \<open>simp add: vector_elements_def\<close>)

lemma size_vector_elements: "x \<in> set (vector_elements v) \<Longrightarrow> size x < size v"
  by (elim in_vector_elements) (use size_array_values size_map_fields less_trans in blast)

lemma size_sorted_fields: "f \<in> set (map_fields (SortFields v)) \<Longrightarrow> size (snd f) < size v"
  using size_map_fields[of f "SortFields v"] by simp

function value_key :: "(string \<Rightarrow> string list) \<Rightarrow> Value \<Rightarrow> int list" where
  "value_key split v = TypeOrder_value (GetTypeOrder v) #
     (case GetTypeOrder v of
        kServerTimestamp \<Rightarrow> (case GetLocalWriteTime v of Inr t \<Rightarrow> timestamp_key t | Inl _ \<Rightarrow> [])
      | kArray \<Rightarrow> enc_list (\<lambda>x. value_key split x) (array_values v)
      | kVector \<Rightarrow> int (length (vector_elements v)) # enc_list (\<lambda>x. value_key split x) (vector_elements v)
      | kMap \<Rightarrow> enc_list (\<lambda>f. enc_string (fst f) @ value_key split (snd f)) (map_fields (SortFields v))
      | kMaxValue \<Rightarrow> []
      | _ \<Rightarrow> leaf_key split v)"
  by pat_completeness auto
termination
  by (relation "measure (\<lambda>(split, v). size v)")
    (auto dest: size_array_values size_vector_elements size_sorted_fields)

declare value_key.simps [simp del]

section \<open>Well-formed values\<close>

definition server_timestamp_ok :: "fields \<Rightarrow> bool" where
  "server_timestamp_ok fs \<longleftrightarrow>
     (length fs \<le> 3 \<and> (kTypeKey, String_value kServerTimestampSentinel) \<in> set fs \<longrightarrow>
      (\<exists>f \<in> set fs. fst f = kLocalWriteTimeKey \<and> is_timestamp (snd f)))"

fun value_ok :: "Value \<Rightarrow> bool" where
  "value_ok (Array_value vs) \<longleftrightarrow> (\<forall>v \<in> set vs. value_ok v)"
| "value_ok (Map_value fs) \<longleftrightarrow> server_timestamp_ok fs \<and> (\<forall>f \<in> set fs. value_ok (snd f))"
| "value_ok _ \<longleftrightarrow> True"

lemma is_timestamp_iff: "is_timestamp v \<longleftrightarrow> (\<exists>t. v = Timestamp_value t)"
  by (cases v) simp_all

lemma is_timestamp_SortFields [simp]: "is_timestamp (SortFields v) = is_timestamp v"
  by (cases v) simp_all

lemma SortFields_String [simp]:
  "SortFields v = String_value s \<longleftrightarrow> v = String_value s"
  "String_value s = SortFields v \<longleftrightarrow> v = String_value s"
  by (cases v; auto)+

lemma server_timestamp_ok_sorted:
  assumes "server_timestamp_ok fs"
  shows "server_timestamp_ok (map (\<lambda>f. (fst f, SortFields (snd f))) (std_sort_entries Compare_string fs))"
    (is "server_timestamp_ok ?gs")
  unfolding server_timestamp_ok_def
proof (intro impI, elim conjE)
  assume len: "length ?gs \<le> 3" and mem: "(kTypeKey, String_value kServerTimestampSentinel) \<in> set ?gs"
  then obtain f where f: "f \<in> set fs" "fst f = kTypeKey" "snd f = String_value kServerTimestampSentinel" by auto
  then have "(kTypeKey, String_value kServerTimestampSentinel) \<in> set fs" by (metis prod.collapse)
  then obtain g where "g \<in> set fs" "fst g = kLocalWriteTimeKey" "is_timestamp (snd g)"
    using assms len by (auto simp: server_timestamp_ok_def)
  then show "\<exists>f \<in> set ?gs. fst f = kLocalWriteTimeKey \<and> is_timestamp (snd f)"
    by (intro bexI[of _ "(fst g, SortFields (snd g))"]) (auto intro: rev_image_eqI)
qed

lemma value_ok_SortFields: "value_ok v \<Longrightarrow> value_ok (SortFields v)"
proof (induction v rule: SortFields.induct)
  case (1 fs)
  have "server_timestamp_ok (map (\<lambda>f. (fst f, SortFields (snd f))) (std_sort_entries Compare_string fs))"
    using 1(2) by (intro server_timestamp_ok_sorted) simp
  then show ?case using 1 by auto
qed auto

lemma value_ok_sorted_fields: "value_ok v \<Longrightarrow> f \<in> set (map_fields (SortFields v)) \<Longrightarrow> value_ok (snd f)"
  using value_ok_SortFields[of v] by (cases "SortFields v") auto

lemma value_ok_array_values: "value_ok v \<Longrightarrow> x \<in> set (array_values v) \<Longrightarrow> value_ok x"
  by (cases v) auto

lemma value_ok_map_fields: "value_ok v \<Longrightarrow> f \<in> set (map_fields v) \<Longrightarrow> value_ok (snd f)"
  by (cases v) auto

lemma value_ok_vector_elements: "value_ok v \<Longrightarrow> x \<in> set (vector_elements v) \<Longrightarrow> value_ok x"
  by (elim in_vector_elements) (use value_ok_array_values value_ok_map_fields in blast)

lemma GetLocalWriteTime_ok:
  assumes "value_ok v" "IsServerTimestamp v"
  shows "\<exists>t. GetLocalWriteTime v = Inr t"
proof (cases v)
  case (Map_value fs)
  then obtain f where f: "find (\<lambda>field. fst field = kTypeKey) fs = Some f"
    "snd f = String_value kServerTimestampSentinel" "length fs \<le> 3"
    using assms(2) by (auto split: if_splits option.splits Value.splits)
  then have "f \<in> set fs" "fst f = kTypeKey" by (auto simp: find_Some_iff)
  then have "(kTypeKey, String_value kServerTimestampSentinel) \<in> set fs" using f(2) by (metis prod.collapse)
  then have "find (\<lambda>f. fst f = kLocalWriteTimeKey \<and> is_timestamp (snd f)) fs \<noteq> None"
    using assms(1) Map_value f(3) by (auto simp: server_timestamp_ok_def find_None_iff)
  then obtain g where g: "find (\<lambda>f. fst f = kLocalWriteTimeKey \<and> is_timestamp (snd f)) fs = Some g" by blast
  then have "is_timestamp (snd g)" by (auto simp: find_Some_iff)
  then show ?thesis using g Map_value by (cases g) (auto simp: GetLocalWriteTime_def is_timestamp_iff)
qed (use assms in simp_all)

section \<open>Comparing values is comparing keys\<close>

lemma DefaultComparator_Suc [simp]: "DefaultComparator (Suc a) (Suc b) = DefaultComparator a b"
  by (simp add: DefaultComparator_def)

lemma compare_ranges_container:
  assumes "\<And>x y. x \<in> set xs \<Longrightarrow> y \<in> set ys \<Longrightarrow> c x y = Inr (d x y)"
  shows "compare_ranges c xs ys = Inr (CompareContainer d xs ys)"
  using assms
proof (induction xs ys rule: list_induct2')
  case (4 x xs y ys)
  have "c x y = Inr (d x y)" by (rule 4(2)) simp_all
  moreover have "compare_ranges c xs ys = Inr (CompareContainer d xs ys)"
    by (rule 4(1)) (rule 4(2); simp)
  ultimately show ?case by (cases "d x y = Same") (simp_all add: compare_ranges_def del: bind_res_eq_Inr cong: if_cong)
qed (simp_all add: compare_ranges_def DefaultComparator_def)

text \<open>
  Two values agree with their keys when the comparison succeeds with the order of the keys, and
  no longer key that starts with one of them can change the order.
\<close>

definition key_agrees :: "(string \<Rightarrow> string list) \<Rightarrow> Value \<Rightarrow> Value \<Rightarrow> bool" where
  "key_agrees split l r \<longleftrightarrow>
     Value_Compare split l r = Inr (compare_keys (value_key split l) (value_key split r)) \<and>
     (\<forall>a b. compare_keys (value_key split l @ a) (value_key split r @ b) =
        then_cmp (compare_keys (value_key split l) (value_key split r)) (compare_keys a b))"

lemma key_agreesI:
  assumes "Value_Compare split l r = Inr c"
    and "\<And>a b. compare_keys (value_key split l @ a) (value_key split r @ b) = then_cmp c (compare_keys a b)"
  shows "key_agrees split l r"
  using assms(1) assms(2)[of "[]" "[]"] assms(2) by (simp add: key_agrees_def)

lemma key_agreesD:
  assumes "key_agrees split l r"
  shows "Value_Compare split l r = Inr (compare_keys (value_key split l) (value_key split r))"
    "compare_keys (value_key split l @ a) (value_key split r @ b) =
      then_cmp (compare_keys (value_key split l) (value_key split r)) (compare_keys a b)"
  using assms by (simp_all add: key_agrees_def)

lemma TypeOrder_value_eq [simp]: "TypeOrder_value s = TypeOrder_value t \<longleftrightarrow> s = t"
  by (cases s; cases t) simp_all

lemma string_compare_Nil:
  "string_compare [] a = (if a = [] then 0 else -1)" "string_compare a [] = (if a = [] then 0 else 1)"
  by (cases a; simp)+

lemma memcmp_then_size:
  "(if string_compare (take (min (length a) (length b)) a) (take (min (length a) (length b)) b) \<noteq> 0
    then ComparisonResultFromInt
      (string_compare (take (min (length a) (length b)) a) (take (min (length a) (length b)) b))
    else DefaultComparator (length a) (length b)) = Compare_string a b"
proof (induction a b rule: string_compare.induct)
  case (4 a as b bs)
  consider "(of_char a :: nat) < of_char b" | "(of_char b :: nat) < of_char a" | "(of_char a :: nat) = of_char b"
    by linarith
  then show ?case
  proof cases
    case 3
    then show ?thesis using 4 by (simp add: Compare_string_def del: of_char_eq_iff split: if_splits)
  qed (simp_all add: Compare_string_def)
qed (simp_all add: Compare_string_def ComparisonResultFromInt_def DefaultComparator_def)

lemma blob_compare:
  "CompareBlobs (Bytes_value x) (Bytes_value y) =
     Inr (Compare_string (case x of None \<Rightarrow> [] | Some s \<Rightarrow> s) (case y of None \<Rightarrow> [] | Some s \<Rightarrow> s))"
proof (cases "x = None \<or> y = None")
  case True
  then show ?thesis
    by (cases x; cases y) (auto simp: Compare_string_def ComparisonResultFromInt_def DefaultComparator_def
        string_compare_Nil)
next
  case False
  then obtain a b where "x = Some a" "y = Some b" by auto
  then show ?thesis using memcmp_then_size[of a b] by (simp add: Let_def split: if_splits)
qed

lemma key_agrees_types:
  "GetTypeOrder l \<noteq> GetTypeOrder r \<Longrightarrow> key_agrees split l r"
  by (rule key_agreesI[of _ _ _ "CompareTypeOrder (GetTypeOrder l) (GetTypeOrder r)"])
    (auto simp: Value_Compare.simps[of split l r] CompareTypeOrder_def value_key.simps[of split l]
      value_key.simps[of split r] then_cmp_def DefaultComparator_def)

lemma bool_key: "DefaultComparator (if a then 1 else 0 :: int) (if b then 1 else 0) = DefaultComparator a b"
  by (simp add: DefaultComparator_def)

lemma reference_compare:
  "compare_ranges (\<lambda>l r. Inr (Compare_string l r)) xs ys = Inr (CompareContainer Compare_string xs ys)"
  by (rule compare_ranges_container) simp

lemma mixed_reverse: "ReverseOrder (compare_keys a b) = compare_keys b a"
  by (rule keys_cmp.cmp_sym[symmetric])

lemmas leaf_compares = Compare_double_key[folded compare_keys_def] Compare_int64_key[folded compare_keys_def]
  CompareMixedNumber_key[folded compare_keys_def] mixed_reverse number_key_compare timestamp_key_compare
  enc_string_compare enc_list_compare[OF enc_string_compare] reference_compare blob_compare bool_key

lemma key_agrees_number:
  assumes "GetTypeOrder l = kNumber" "GetTypeOrder r = kNumber"
  shows "key_agrees split l r"
  by (rule key_agreesI[of _ _ _ "compare_keys (leaf_key split l) (leaf_key split r)"])
    (use assms in \<open>cases l; cases r; simp add: Value_Compare.simps value_key.simps leaf_compares
      split: if_splits\<close>)+

lemma key_agrees_leaf:
  assumes "GetTypeOrder l = GetTypeOrder r"
    and "GetTypeOrder l \<in> {kNull, kBoolean, kTimestamp, kString, kBlob, kReference, kGeoPoint}"
  shows "key_agrees split l r"
proof -
  consider "l = Null_value" "r = Null_value" | b b' where "l = Boolean_value b" "r = Boolean_value b'"
    | t t' where "l = Timestamp_value t" "r = Timestamp_value t'" | s s' where "l = String_value s" "r = String_value s'"
    | x y where "l = Bytes_value x" "r = Bytes_value y" | s s' where "l = Reference_value s" "r = Reference_value s'"
    | a b a' b' where "l = Geo_point_value a b" "r = Geo_point_value a' b'"
    using assms by (cases l; cases r) (auto split: if_splits)
  then show ?thesis
  proof cases
    case 7
    then show ?thesis
      by (intro key_agreesI[of _ _ _ "then_cmp (Compare_double a a') (Compare_double b b')"])
        (simp_all add: Value_Compare.simps value_key.simps leaf_compares then_cmp_def)
  next
    case 5
    then show ?thesis
      by (intro key_agreesI[of _ _ _ "Compare_string (case x of None \<Rightarrow> [] | Some s \<Rightarrow> s) (case y of None \<Rightarrow> [] | Some s \<Rightarrow> s)"])
        (simp_all add: Value_Compare.simps value_key.simps leaf_compares)
  next
    case 6
    then show ?thesis
      by (intro key_agreesI[of _ _ _ "CompareContainer Compare_string (split s) (split s')"])
        (simp_all add: Value_Compare.simps value_key.simps leaf_compares)
  qed (rule key_agreesI, (simp add: Value_Compare.simps; rule refl),
      simp add: value_key.simps leaf_compares)+
qed

lemma key_agrees_arrays:
  assumes "\<And>x y. x \<in> set xs \<Longrightarrow> y \<in> set ys \<Longrightarrow> key_agrees split x y"
  shows "compare_ranges (Value_Compare split) xs ys =
      Inr (CompareContainer (\<lambda>x y. compare_keys (value_key split x) (value_key split y)) xs ys)"
    "compare_keys (enc_list (value_key split) xs @ a) (enc_list (value_key split) ys @ b) =
      then_cmp (CompareContainer (\<lambda>x y. compare_keys (value_key split x) (value_key split y)) xs ys) (compare_keys a b)"
  using assms by (auto intro!: compare_ranges_container enc_list_compare dest: key_agreesD)

definition field_order :: "(string \<Rightarrow> string list) \<Rightarrow> (string \<times> Value) cmp" where
  "field_order split f g = then_cmp (Compare_string (fst f) (fst g))
     (compare_keys (value_key split (snd f)) (value_key split (snd g)))"

lemma key_agrees_map:
  assumes "GetTypeOrder l = kMap" "GetTypeOrder r = kMap"
    and "\<And>f g. f \<in> set (map_fields (SortFields l)) \<Longrightarrow> g \<in> set (map_fields (SortFields r)) \<Longrightarrow> key_agrees split (snd f) (snd g)"
  shows "key_agrees split l r"
proof (rule key_agreesI)
  let ?ls = "map_fields (SortFields l)" and ?rs = "map_fields (SortFields r)"
  show "Value_Compare split l r = Inr (CompareContainer (field_order split) ?ls ?rs)"
    using assms(1,2) key_agreesD(1)[OF assms(3)]
    by (subst Value_Compare.simps)
      (auto simp: CompareMaps_def Let_def field_order_def then_cmp_def intro!: compare_ranges_container)
  show "compare_keys (value_key split l @ a) (value_key split r @ b) =
      then_cmp (CompareContainer (field_order split) ?ls ?rs) (compare_keys a b)" for a b
    using assms(1,2) key_agreesD(2)[OF assms(3)]
    by (subst (1 2) value_key.simps)
      (auto simp: field_order_def enc_string_compare intro!: enc_list_compare)
qed

lemma IsVectorValue_elements:
  assumes "IsVectorValue v"
  shows "\<exists>i. IndexOfKey (map_fields v) kRawVectorValueFieldKey = Some i \<and>
    array_values (snd (map_fields v ! i)) = vector_elements v"
  using assms by (cases v) (auto simp: vector_elements_def split: if_splits option.splits Value.splits)

lemma GetTypeOrder_vector: "GetTypeOrder v = kVector \<Longrightarrow> IsVectorValue v"
  by (cases v) (simp_all del: IsServerTimestamp.simps IsMaxValue.simps IsVectorValue.simps split: if_splits)

lemma GetTypeOrder_server: "GetTypeOrder v = kServerTimestamp \<Longrightarrow> IsServerTimestamp v"
  by (cases v) (simp_all del: IsServerTimestamp.simps IsMaxValue.simps IsVectorValue.simps split: if_splits)

lemma key_agrees_vector:
  assumes "GetTypeOrder l = kVector" "GetTypeOrder r = kVector"
    and el: "\<And>x y. x \<in> set (vector_elements l) \<Longrightarrow> y \<in> set (vector_elements r) \<Longrightarrow> key_agrees split x y"
  shows "key_agrees split l r"
proof -
  let ?c = "\<lambda>x y. compare_keys (value_key split x) (value_key split y)"
  let ?C = "then_cmp (DefaultComparator (int (length (vector_elements l))) (int (length (vector_elements r))))
    (CompareContainer ?c (vector_elements l) (vector_elements r))"
  note v = GetTypeOrder_vector[OF assms(1)] GetTypeOrder_vector[OF assms(2)]
  obtain i j where ij: "IndexOfKey (map_fields l) kRawVectorValueFieldKey = Some i"
    "array_values (snd (map_fields l ! i)) = vector_elements l"
    "IndexOfKey (map_fields r) kRawVectorValueFieldKey = Some j"
    "array_values (snd (map_fields r ! j)) = vector_elements r"
    using IsVectorValue_elements v by blast
  have "Value_Compare split l r = Inr ?C"
    using assms(1,2) v ij key_agrees_arrays(1)[OF el]
    by (subst Value_Compare.simps)
      (auto simp: CompareVectors_def CompareArrays_def Let_def then_cmp_def DefaultComparator_def)
  moreover have "compare_keys (value_key split l @ a) (value_key split r @ b) = then_cmp ?C (compare_keys a b)" for a b
    using assms(1,2) key_agrees_arrays(2)[OF el] by (subst (1 2) value_key.simps) simp
  ultimately show ?thesis by (rule key_agreesI)
qed

lemma key_agrees_server:
  assumes "GetTypeOrder l = kServerTimestamp" "GetTypeOrder r = kServerTimestamp" "value_ok l" "value_ok r"
  shows "key_agrees split l r"
proof -
  obtain s where s: "GetLocalWriteTime l = Inr s"
    using GetLocalWriteTime_ok[OF assms(3) GetTypeOrder_server[OF assms(1)]] by blast
  obtain t where t: "GetLocalWriteTime r = Inr t"
    using GetLocalWriteTime_ok[OF assms(4) GetTypeOrder_server[OF assms(2)]] by blast
  show ?thesis using assms(1,2) s t
    by (intro key_agreesI[of _ _ _ "CompareTimestamps s t"])
      (simp_all add: Value_Compare.simps[of split l r] value_key.simps[of split l] value_key.simps[of split r]
        timestamp_key_compare)
qed

lemma value_key_agrees: "value_ok l \<Longrightarrow> value_ok r \<Longrightarrow> key_agrees split l r"
proof (induction l arbitrary: r rule: measure_induct_rule[of size])
  case (less l)
  show ?case
  proof (cases "GetTypeOrder l = GetTypeOrder r")
    case True
    show ?thesis
    proof (cases "GetTypeOrder l")
      case kArray
      have el: "key_agrees split x y" if "x \<in> set (array_values l)" "y \<in> set (array_values r)" for x y
        by (rule less.IH) (use that size_array_values value_ok_array_values less.prems in blast)+
      show ?thesis using True kArray key_agrees_arrays[OF el]
        by (intro key_agreesI[of _ _ _ "CompareContainer (\<lambda>x y. compare_keys (value_key split x) (value_key split y)) (array_values l) (array_values r)"])
          (simp_all add: Value_Compare.simps[of split l r] CompareArrays_def value_key.simps[of split l] value_key.simps[of split r])
    next
      case kMap
      have el: "key_agrees split (snd f) (snd g)"
        if "f \<in> set (map_fields (SortFields l))" "g \<in> set (map_fields (SortFields r))" for f g
        by (rule less.IH) (use that size_sorted_fields value_ok_sorted_fields less.prems in blast)+
      show ?thesis by (rule key_agrees_map[OF kMap kMap[unfolded True] el])
    next
      case kVector
      have el: "key_agrees split x y" if "x \<in> set (vector_elements l)" "y \<in> set (vector_elements r)" for x y
        by (rule less.IH) (use that size_vector_elements value_ok_vector_elements less.prems in blast)+
      show ?thesis by (rule key_agrees_vector[OF kVector kVector[unfolded True] el])
    next
      case kServerTimestamp
      show ?thesis by (rule key_agrees_server[OF kServerTimestamp kServerTimestamp[unfolded True] less.prems])
    next
      case kMaxValue
      then show ?thesis using True
        by (intro key_agreesI[of _ _ _ Same]) (simp_all add: Value_Compare.simps[of split l r] value_key.simps[of split l] value_key.simps[of split r])
    next
      case kNumber
      show ?thesis by (rule key_agrees_number[OF kNumber kNumber[unfolded True]])
    qed (rule key_agrees_leaf[OF True], simp)+
  qed (rule key_agrees_types)
qed

lemma Value_Compare_key:
  "value_ok l \<Longrightarrow> value_ok r \<Longrightarrow>
   Value_Compare split l r = Inr (compare_keys (value_key split l) (value_key split r))"
  by (rule key_agreesD(1)[OF value_key_agrees])

section \<open>Bounds of a type\<close>

text \<open>
  Values for which the bounds are meant: no pending server timestamp or maximum sentinel, nanoseconds
  and coordinates in range. References are excluded; their lower bound is not one (see below).
\<close>

fun bounded_value :: "Value \<Rightarrow> bool" where
  "bounded_value (Timestamp_value t) \<longleftrightarrow> 0 \<le> sint (ts_nanos t)"
| "bounded_value (Geo_point_value lat lng) \<longleftrightarrow>
     double_ge lat 0xC056800000000000 \<and> double_ge lng 0xC066800000000000"
| "bounded_value (Reference_value _) \<longleftrightarrow> False"
| "bounded_value (Map_value fs) \<longleftrightarrow> \<not> IsServerTimestamp (Map_value fs) \<and> \<not> IsMaxValue (Map_value fs)"
| "bounded_value _ \<longleftrightarrow> True"

lemma compare_keys_enc_Nil: "compare_keys [0] (enc_list f ys) \<noteq> Descending"
  by (cases ys) (simp_all add: DefaultComparator_def)

lemma double_key_ge: "double_ge x m \<Longrightarrow> compare_keys (double_key m) (double_key x) \<noteq> Descending"
  by (auto simp: double_key_def double_ge_def DefaultComparator_def)

lemma then_cmp_not_Descending: "c \<noteq> Descending \<Longrightarrow> d \<noteq> Descending \<Longrightarrow> then_cmp c d \<noteq> Descending"
  by (simp add: then_cmp_def)

lemma sentinel_types [simp]:
  "GetTypeOrder MinVector = kVector" "GetTypeOrder MinMap = kMap" "GetTypeOrder MaxValue = kMaxValue"
  by (simp_all add: MinVector_def MinMap_def MaxValue_def IndexOfKey_def kRawTypeValueFieldKey_def kTypeKey_def
      kRawVectorTypeFieldValue_def kRawVectorValueFieldKey_def kServerTimestampSentinel_def kRawMaxValueFieldValue_def)

lemmas bound_defs = NullValue_def MinBoolean_def MinNumber_def NaNValue_def MinTimestamp_def MinString_def
  MinBytes_def MinReference_def MinGeoPoint_def MinArray_def

lemma GetTypeOrder_lower: "bounded_value v \<Longrightarrow> GetTypeOrder (GetLowerBound v) = GetTypeOrder v"
  by (cases v) (simp_all add: bound_defs
      del: IsServerTimestamp.simps IsMaxValue.simps IsVectorValue.simps split: if_splits)

lemma GetTypeOrder_upper:
  "bounded_value v \<Longrightarrow> TypeOrder_value (GetTypeOrder v) < TypeOrder_value (GetTypeOrder (GetUpperBound v))"
  by (cases v) (simp_all add: bound_defs
      del: IsServerTimestamp.simps IsMaxValue.simps IsVectorValue.simps split: if_splits)

lemma value_ok_bounds: "value_ok (GetLowerBound v)" "value_ok (GetUpperBound v)"
  by (cases v; simp add: bound_defs MinVector_def MinMap_def MaxValue_def server_timestamp_ok_def kTypeKey_def
      kRawTypeValueFieldKey_def kRawVectorValueFieldKey_def kServerTimestampSentinel_def
      kRawVectorTypeFieldValue_def kRawMaxValueFieldValue_def)+

lemma is_nan_quiet_NaN: "is_nan quiet_NaN"
  by (simp add: is_nan_def quiet_NaN_def double_code_def infinity_code_def)

lemma number_key_NaN: "compare_keys (double_key quiet_NaN) (double_key d) \<noteq> Descending"
  "compare_keys (double_key quiet_NaN) (int64_key i) \<noteq> Descending"
  by (simp_all add: double_key_def int64_key_def is_nan_quiet_NaN DefaultComparator_def)

lemma vector_elements_MinVector [simp]: "vector_elements MinVector = []"
  by (simp add: vector_elements_def MinVector_def IndexOfKey_def kRawTypeValueFieldKey_def kRawVectorValueFieldKey_def)

lemma sorted_fields_MinMap [simp]: "map_fields (SortFields MinMap) = []"
  by (simp add: MinMap_def)

lemma lower_bound_key:
  assumes "bounded_value v"
  shows "compare_keys (value_key split (GetLowerBound v)) (value_key split v) \<noteq> Descending"
proof (cases v)
  case (Map_value fs)
  then have "GetTypeOrder v = kVector \<and> GetLowerBound v = MinVector \<or> GetTypeOrder v = kMap \<and> GetLowerBound v = MinMap"
    using assms by (simp del: IsServerTimestamp.simps IsMaxValue.simps IsVectorValue.simps)
  then show ?thesis
    by (elim disjE) (auto simp: value_key.simps[of split v] value_key.simps[of split MinVector]
        value_key.simps[of split MinMap] compare_keys_enc_Nil DefaultComparator_def
        intro!: then_cmp_not_Descending)
next
  case (Array_value vs)
  then show ?thesis
    by (simp add: bound_defs value_key.simps[of split v] value_key.simps[of split "Array_value []"]
        value_key.simps[of split "Array_value vs"] compare_keys_enc_Nil)
next
  case (Timestamp_value t)
  then show ?thesis
    using assms sint_int64_bounds(1)[of "ts_seconds t"]
    by (auto simp: bound_defs value_key.simps timestamp_key_def DefaultComparator_def intro!: then_cmp_not_Descending)
next
  case (Geo_point_value a b)
  then show ?thesis
    using assms double_key_ge[of a "0xC056800000000000"] double_key_ge[of b "0xC066800000000000"]
    by (simp add: bound_defs value_key.simps number_key_compare then_cmp_def)
next
  case (String_value s)
  then show ?thesis using compare_keys_enc_Nil by (simp add: bound_defs value_key.simps enc_string_def)
next
  case (Bytes_value s)
  then show ?thesis using compare_keys_enc_Nil by (simp add: bound_defs value_key.simps enc_string_def)
qed (use assms in \<open>simp_all add: bound_defs value_key.simps number_key_NaN DefaultComparator_def\<close>)

section \<open>Equality implies comparing the same\<close>

text \<open>Maps that come from the wire or from the object builder have one field per key.\<close>

fun unique_keys :: "Value \<Rightarrow> bool" where
  "unique_keys (Array_value vs) \<longleftrightarrow> (\<forall>v \<in> set vs. unique_keys v)"
| "unique_keys (Map_value fs) \<longleftrightarrow> distinct (map fst fs) \<and> (\<forall>f \<in> set fs. unique_keys (snd f))"
| "unique_keys _ \<longleftrightarrow> True"

lemma find_unique:
  "distinct (map fst fs) \<Longrightarrow> (k, v) \<in> set fs \<Longrightarrow> P (k, v) \<Longrightarrow>
   find (\<lambda>f. fst f = k \<and> P f) fs = Some (k, v)"
  by (induction fs) (auto simp: rev_image_eqI)

lemma find_key_unique:
  "distinct (map fst fs) \<Longrightarrow> find (\<lambda>f. fst f = k) fs = Some (k, v) \<longleftrightarrow> (k, v) \<in> set fs"
  by (induction fs) (auto simp: rev_image_eqI)

lemma takeWhile_shorter: "length (takeWhile P xs) < length xs \<longleftrightarrow> (\<exists>x \<in> set xs. \<not> P x)"
  by (induction xs) auto

lemma IndexOfKey_unique:
  assumes "distinct (map fst fs)" "(k, v) \<in> set fs"
  obtains i where "IndexOfKey fs k = Some i" "snd (fs ! i) = v"
proof -
  define i where "i = length (takeWhile (\<lambda>f. fst f \<noteq> k) fs)"
  have "\<exists>f \<in> set fs. \<not> fst f \<noteq> k" using assms(2) by (intro bexI[of _ "(k, v)"]) simp_all
  then have i: "i < length fs" unfolding i_def by (rule takeWhile_shorter[THEN iffD2])
  then have "fst (fs ! i) = k" using nth_length_takeWhile[of "\<lambda>f. fst f \<noteq> k" fs] by (simp add: i_def)
  then have "(k, snd (fs ! i)) \<in> set fs" using i by (metis nth_mem prod.collapse)
  then have "snd (fs ! i) = v" using assms eq_key_imp_eq_value by metis
  then show ?thesis using that[of i] i by (simp add: IndexOfKey_def i_def[symmetric])
qed

lemma find_key_cases:
  assumes "distinct (map fst fs)"
  shows "(case find (\<lambda>f. fst f = k) fs of Some f \<Rightarrow> P (snd f) | None \<Rightarrow> False) \<longleftrightarrow> (\<exists>v. (k, v) \<in> set fs \<and> P v)"
proof (cases "find (\<lambda>f. fst f = k) fs")
  case None
  then have "\<forall>v. (k, v) \<notin> set fs" by (auto simp: find_None_iff)
  then show ?thesis using None by simp
next
  case (Some f)
  then have "f \<in> set fs" "fst f = k" by (auto simp: find_Some_iff)
  then have "(k, v) \<in> set fs \<longleftrightarrow> v = snd f" for v
    using find_key_unique[OF assms, of k v] Some by (auto simp: prod_eq_iff)
  then show ?thesis using Some by simp
qed

lemma case_String_value: "(case v of String_value s \<Rightarrow> P s | _ \<Rightarrow> False) \<longleftrightarrow> (\<exists>s. v = String_value s \<and> P s)"
  by (cases v) simp_all

lemma IsServerTimestamp_unique:
  "distinct (map fst fs) \<Longrightarrow> IsServerTimestamp (Map_value fs) \<longleftrightarrow>
   length fs \<le> 3 \<and> (kTypeKey, String_value kServerTimestampSentinel) \<in> set fs"
  unfolding IsServerTimestamp.simps case_String_value
  by (subst find_key_cases[where P = "\<lambda>v. \<exists>s. v = String_value s \<and> s = kServerTimestampSentinel"]) auto

lemma IsMaxValue_set:
  "IsMaxValue (Map_value fs) \<longleftrightarrow> length fs = 1 \<and> (kRawTypeValueFieldKey, String_value kRawMaxValueFieldValue) \<in> set fs"
  by (cases fs) (auto split: Value.splits)

lemma IndexOfKey_None_iff: "IndexOfKey fs k = None \<longleftrightarrow> k \<notin> fst ` set fs"
  using takeWhile_shorter[of "\<lambda>f. fst f \<noteq> k" fs] by (auto simp: IndexOfKey_def Let_def)

lemma IndexOfKey_cases:
  assumes "distinct (map fst fs)"
  shows "(case IndexOfKey fs k of Some i \<Rightarrow> P (snd (fs ! i)) | None \<Rightarrow> False) \<longleftrightarrow> (\<exists>v. (k, v) \<in> set fs \<and> P v)"
proof (cases "IndexOfKey fs k")
  case None
  then have "\<forall>v. (k, v) \<notin> set fs" by (auto simp: IndexOfKey_None_iff rev_image_eqI)
  then show ?thesis using None by simp
next
  case (Some i)
  then have "(k, snd (fs ! i)) \<in> set fs" using IndexOfKey_Some[OF Some] by (metis nth_mem prod.collapse)
  then have "(k, v) \<in> set fs \<longleftrightarrow> v = snd (fs ! i)" for v
    using assms eq_key_imp_eq_value by metis
  then show ?thesis using Some by simp
qed

lemma IsVectorValue_unique:
  assumes "distinct (map fst fs)"
  shows "IsVectorValue (Map_value fs) \<longleftrightarrow> 2 \<le> length fs \<and>
     (kRawTypeValueFieldKey, String_value kRawVectorTypeFieldValue) \<in> set fs \<and>
     (\<exists>vs. (kRawVectorValueFieldKey, Array_value vs) \<in> set fs)"
proof -
  have arr: "(case IndexOfKey fs kRawVectorValueFieldKey of None \<Rightarrow> False
      | Some i \<Rightarrow> IsArray (Some (snd (fs ! i)))) \<longleftrightarrow> (\<exists>vs. (kRawVectorValueFieldKey, Array_value vs) \<in> set fs)"
    by (subst IndexOfKey_cases[OF assms, where P = "\<lambda>v. IsArray (Some v)"]) (auto elim!: IsArray.elims)
  show ?thesis
    unfolding IsVectorValue.simps arr case_String_value
    by (subst IndexOfKey_cases[OF assms, where P = "\<lambda>v. \<exists>s. v = String_value s \<and>
          (if s \<noteq> kRawVectorTypeFieldValue then False
           else \<exists>vs. (kRawVectorValueFieldKey, Array_value vs) \<in> set fs)"]) auto
qed

lemma vector_elements_unique:
  "distinct (map fst fs) \<Longrightarrow> (kRawVectorValueFieldKey, Array_value vs) \<in> set fs \<Longrightarrow>
   vector_elements (Map_value fs) = vs"
  by (erule (1) IndexOfKey_unique) (simp add: vector_elements_def)

lemma GetLocalWriteTime_unique:
  "distinct (map fst fs) \<Longrightarrow> (kLocalWriteTimeKey, Timestamp_value t) \<in> set fs \<Longrightarrow>
   GetLocalWriteTime (Map_value fs) = Inr t"
  unfolding GetLocalWriteTime_def map_fields.simps
  by (subst find_unique[where P = "\<lambda>f. is_timestamp (snd f)" and v = "Timestamp_value t"]) simp_all

lemma find_result: "find P xs = Some x \<Longrightarrow> P x \<and> x \<in> set xs"
  by (auto simp: find_Some_iff)

lemma GetLocalWriteTime_in:
  "GetLocalWriteTime (Map_value fs) = Inr t \<Longrightarrow> (kLocalWriteTimeKey, Timestamp_value t) \<in> set fs"
  by (auto simp: GetLocalWriteTime_def dest!: find_result split: option.splits Value.splits)

text \<open>The fields of a map after \<open>SortFields\<close>.\<close>

definition sorted_fields :: "fields \<Rightarrow> fields" where
  "sorted_fields fs = map (\<lambda>f. (fst f, SortFields (snd f))) (std_sort_entries Compare_string fs)"

lemma SortFields_Map: "SortFields (Map_value fs) = Map_value (sorted_fields fs)"
  by (simp add: sorted_fields_def)

lemma distinct_sorted_fields: "distinct (map fst (sorted_fields fs)) \<longleftrightarrow> distinct (map fst fs)"
proof -
  have "mset (map fst (sorted_fields fs)) = mset (map fst fs)"
    by (simp add: sorted_fields_def comp_def)
  then show ?thesis by (rule mset_eq_imp_distinct_iff)
qed

lemma length_sorted_fields [simp]: "length (sorted_fields fs) = length fs"
  by (simp add: sorted_fields_def)

lemma in_sorted_fields: "(k, v) \<in> set (sorted_fields fs) \<longleftrightarrow> (\<exists>w. (k, w) \<in> set fs \<and> v = SortFields w)"
  by (force simp: sorted_fields_def)

lemma SortFields_leaf [simp]:
  "String_value s = SortFields w \<longleftrightarrow> w = String_value s"
  "Timestamp_value t = SortFields w \<longleftrightarrow> w = Timestamp_value t"
  "Array_value vs = SortFields w \<longleftrightarrow> (\<exists>us. w = Array_value us \<and> vs = map SortFields us)"
  by (cases w; auto)+

lemma in_sorted_fields_String: "(k, String_value s) \<in> set (sorted_fields fs) \<longleftrightarrow> (k, String_value s) \<in> set fs"
  by (simp add: in_sorted_fields)

lemma in_sorted_fields_Array:
  "(\<exists>vs. (k, Array_value vs) \<in> set (sorted_fields fs)) \<longleftrightarrow> (\<exists>vs. (k, Array_value vs) \<in> set fs)"
  by (auto simp: in_sorted_fields)

lemma GetTypeOrder_SortFields:
  assumes "unique_keys v"
  shows "GetTypeOrder (SortFields v) = GetTypeOrder v"
proof (cases v)
  case (Map_value fs)
  then have d: "distinct (map fst fs)" "distinct (map fst (sorted_fields fs))"
    using assms by (simp_all add: distinct_sorted_fields)
  show ?thesis
    unfolding Map_value SortFields_Map GetTypeOrder.simps IsServerTimestamp_unique[OF d(1)] IsServerTimestamp_unique[OF d(2)]
      IsMaxValue_set IsVectorValue_unique[OF d(1)] IsVectorValue_unique[OF d(2)]
    by (simp only: in_sorted_fields_String in_sorted_fields_Array length_sorted_fields)
qed simp_all

lemma sorted_sorted_fields: "distinct (map fst fs) \<Longrightarrow> sorted_entries Compare_string (sorted_fields fs)"
  using string_cmp.std_sort_entries_sorted[of fs]
  by (simp add: sorted_fields_def sorted_entries_def sorted_wrt_map)

lemma SortFields_idem: "unique_keys v \<Longrightarrow> SortFields (SortFields v) = SortFields v"
proof (induction v rule: SortFields.induct)
  case (1 fs)
  have "sorted_entries Compare_string (sorted_fields fs)" using 1(2) sorted_sorted_fields[of fs] by simp
  then have "sorted_fields (sorted_fields fs) = map (\<lambda>f. (fst f, SortFields (snd f))) (sorted_fields fs)"
    by (simp only: sorted_fields_def[of "sorted_fields fs"] string_cmp.std_sort_entries_id)
  also have "\<dots> = sorted_fields fs"
    using 1 by (simp add: sorted_fields_def)
  finally show ?case by (simp only: SortFields_Map)
qed auto

lemma unique_keys_sorted: "unique_keys (Map_value fs) \<Longrightarrow> f \<in> set fs \<Longrightarrow> unique_keys (snd f)"
  by simp

lemma unique_keys_vector_elements: "unique_keys v \<Longrightarrow> x \<in> set (vector_elements v) \<Longrightarrow> unique_keys x"
proof (erule in_vector_elements)
  fix f assume "unique_keys v" "f \<in> set (map_fields v)" "x \<in> set (array_values (snd f))"
  then have "unique_keys (snd f)" by (cases v) auto
  then show "unique_keys x" using \<open>x \<in> set (array_values (snd f))\<close> by (cases "snd f") auto
qed

lemma enc_list_map: "enc_list f (map g xs) = enc_list (\<lambda>x. f (g x)) xs"
  by (simp add: enc_list_def comp_def)

lemma vector_elements_SortFields:
  assumes "unique_keys v" "GetTypeOrder v = kVector"
  shows "vector_elements (SortFields v) = map SortFields (vector_elements v)"
proof (cases v)
  case (Map_value fs)
  then have d: "distinct (map fst fs)" "distinct (map fst (sorted_fields fs))"
    using assms by (simp_all add: distinct_sorted_fields)
  obtain vs where vs: "(kRawVectorValueFieldKey, Array_value vs) \<in> set fs"
    using GetTypeOrder_vector[OF assms(2)] unfolding Map_value IsVectorValue_unique[OF d(1)] by blast
  then have "(kRawVectorValueFieldKey, Array_value (map SortFields vs)) \<in> set (sorted_fields fs)"
    by (force simp: in_sorted_fields)
  then show ?thesis unfolding Map_value SortFields_Map
    by (simp only: vector_elements_unique[OF d(1) vs] vector_elements_unique[OF d(2)])
qed (use assms in simp_all)

lemma GetLocalWriteTime_SortFields:
  assumes "unique_keys v" "GetLocalWriteTime v = Inr t"
  shows "GetLocalWriteTime (SortFields v) = Inr t"
proof (cases v)
  case (Map_value fs)
  then have d: "distinct (map fst (sorted_fields fs))" using assms by (simp add: distinct_sorted_fields)
  have "(kLocalWriteTimeKey, Timestamp_value t) \<in> set (sorted_fields fs)"
    using GetLocalWriteTime_in[of fs t] assms(2) Map_value by (simp add: in_sorted_fields)
  then show ?thesis unfolding Map_value SortFields_Map by (rule GetLocalWriteTime_unique[OF d])
qed (use assms in \<open>simp_all add: GetLocalWriteTime_def\<close>)

text \<open>The key, and so the order, does not depend on the order of the fields.\<close>

lemma value_key_SortFields:
  "unique_keys v \<Longrightarrow> value_ok v \<Longrightarrow> value_key split (SortFields v) = value_key split v"
proof (induction v rule: measure_induct_rule[of size])
  case (less v)
  note t = GetTypeOrder_SortFields[OF less.prems(1)]
  show ?case
  proof (cases "GetTypeOrder v")
    case kArray
    then obtain vs where vs: "v = Array_value vs" by (cases v) (auto split: if_splits)
    then have "value_key split (SortFields x) = value_key split x" if "x \<in> set vs" for x
      using less that by (simp add: size_element)
    then show ?thesis using vs
      by (simp add: value_key.simps[of split "Array_value _"] enc_list_map cong: enc_list_cong)
  next
    case kVector
    have "value_key split (SortFields x) = value_key split x" if "x \<in> set (vector_elements v)" for x
      using less.IH[OF size_vector_elements[OF that]] unique_keys_vector_elements[OF less.prems(1) that]
        value_ok_vector_elements[OF less.prems(2) that] by simp
    then show ?thesis
      using kVector t vector_elements_SortFields[OF less.prems(1) kVector]
      by (simp add: value_key.simps[of split "SortFields v"] value_key.simps[of split v] enc_list_map cong: enc_list_cong)
  next
    case kServerTimestamp
    obtain s where "GetLocalWriteTime v = Inr s"
      using GetLocalWriteTime_ok[OF less.prems(2) GetTypeOrder_server[OF kServerTimestamp]] by blast
    then show ?thesis
      using kServerTimestamp t GetLocalWriteTime_SortFields[OF less.prems(1)]
      by (simp add: value_key.simps[of split "SortFields v"] value_key.simps[of split v])
  next
    case kMap
    then show ?thesis using t SortFields_idem[OF less.prems(1)]
      by (simp add: value_key.simps[of split "SortFields v"] value_key.simps[of split v])
  next
    case kMaxValue
    then show ?thesis using t by (simp add: value_key.simps[of split "SortFields v"] value_key.simps[of split v])
  qed (cases v; simp del: IsServerTimestamp.simps IsMaxValue.simps IsVectorValue.simps split: if_splits)+
qed

lemma CompareContainer_Same_map:
  "CompareContainer c xs ys = Same \<Longrightarrow> (\<And>x y. c x y = Same \<Longrightarrow> f x = g y) \<Longrightarrow> map f xs = map g ys"
  by (induction c xs ys rule: CompareContainer.induct) (auto split: if_splits)

lemma equals_loop_map:
  "equals_loop eq xs ys = Inr True \<Longrightarrow> length xs = length ys \<Longrightarrow>
   (\<And>x y. x \<in> set xs \<Longrightarrow> y \<in> set ys \<Longrightarrow> eq x y = Inr True \<Longrightarrow> f x = f y) \<Longrightarrow> map f xs = map f ys"
  by (induction eq xs ys rule: equals_loop.induct) (auto split: if_splits)

lemma enc_list_eq_map: "map f xs = map f ys \<Longrightarrow> enc_list f xs = enc_list f ys"
  using enc_list_map[of "\<lambda>x. x" f xs] enc_list_map[of "\<lambda>x. x" f ys] by simp

lemma enc_list_pairs:
  "map (\<lambda>f. (fst f, g (snd f))) xs = map (\<lambda>f. (fst f, g (snd f))) ys \<Longrightarrow>
   enc_list (\<lambda>f. h (fst f) @ g (snd f)) xs = enc_list (\<lambda>f. h (fst f) @ g (snd f)) ys"
  using enc_list_map[of "\<lambda>p. h (fst p) @ snd p" "\<lambda>f. (fst f, g (snd f))" xs]
    enc_list_map[of "\<lambda>p. h (fst p) @ snd p" "\<lambda>f. (fst f, g (snd f))" ys] by simp

lemma CompareMaps_container:
  assumes "value_ok l" "value_ok r"
  shows "CompareMaps (Value_Compare split) l r =
    Inr (CompareContainer (field_order split) (map_fields (SortFields l)) (map_fields (SortFields r)))"
proof -
  let ?ls = "map_fields (SortFields l)" and ?rs = "map_fields (SortFields r)"
  have "(let key_cmp = Compare_string (fst f) (fst g) in if key_cmp \<noteq> Same then Inr key_cmp
      else Value_Compare split (snd f) (snd g)) = Inr (field_order split f g)"
    if "f \<in> set ?ls" "g \<in> set ?rs" for f g
    using Value_Compare_key[OF value_ok_sorted_fields[OF assms(1) that(1)] value_ok_sorted_fields[OF assms(2) that(2)]]
    by (simp add: field_order_def then_cmp_def Let_def)
  then have "compare_ranges (\<lambda>f g. let key_cmp = Compare_string (fst f) (fst g) in if key_cmp \<noteq> Same then Inr key_cmp
      else Value_Compare split (snd f) (snd g)) ?ls ?rs = Inr (CompareContainer (field_order split) ?ls ?rs)"
    by (rule compare_ranges_container)
  then show ?thesis by (simp add: CompareMaps_def)
qed

lemma CompareMaps_Same:
  assumes "value_ok l" "value_ok r" "CompareMaps (Value_Compare split) l r = Inr Same"
  shows "map (\<lambda>f. (fst f, value_key split (snd f))) (map_fields (SortFields l)) =
    map (\<lambda>f. (fst f, value_key split (snd f))) (map_fields (SortFields r))"
proof -
  have "CompareContainer (field_order split) (map_fields (SortFields l)) (map_fields (SortFields r)) = Same"
    using assms(3) CompareMaps_container[OF assms(1,2)] by simp
  then show ?thesis
    by (rule CompareContainer_Same_map) (auto simp: field_order_def then_cmp_def split: if_splits)
qed

lemma vector_array_field:
  assumes "unique_keys v" "GetTypeOrder v = kVector"
  shows "(kRawVectorValueFieldKey, Array_value (vector_elements v)) \<in> set (map_fields v)"
proof (cases v)
  case (Map_value fs)
  then have d: "distinct (map fst fs)" using assms(1) by simp
  then show ?thesis
    using GetTypeOrder_vector[OF assms(2)] unfolding Map_value IsVectorValue_unique[OF d]
    using vector_elements_unique[OF d] by auto
qed (use assms in simp_all)

lemma sorted_field_key:
  assumes "unique_keys v" "value_ok v" "(k, w) \<in> set (map_fields v)"
  shows "map_of (map (\<lambda>f. (fst f, value_key split (snd f))) (map_fields (SortFields v))) k = Some (value_key split w)"
proof (cases v)
  case (Map_value fs)
  let ?gs = "map (\<lambda>f. (fst f, value_key split (snd f))) (sorted_fields fs)"
  have "unique_keys w" "value_ok w" using assms Map_value by force+
  then have w: "(k, SortFields w) \<in> set (sorted_fields fs)" "value_key split (SortFields w) = value_key split w"
    using assms(3) Map_value value_key_SortFields[of w split] by (auto simp: in_sorted_fields)
  then have "(k, value_key split w) \<in> set ?gs" by (auto intro: rev_image_eqI)
  moreover have "map fst ?gs = map fst (sorted_fields fs)" by (simp add: comp_def)
  then have "distinct (map fst ?gs)" using assms(1) Map_value by (simp only: distinct_sorted_fields) simp
  ultimately have "map_of ?gs k = Some (value_key split w)" by (simp only: map_of_eq_Some_iff)
  then show ?thesis unfolding Map_value SortFields_Map by simp
qed (use assms in simp_all)

lemma array_key_length:
  assumes "\<And>x y. x \<in> set xs \<Longrightarrow> y \<in> set ys \<Longrightarrow> key_agrees split x y"
    and "enc_list (value_key split) xs = enc_list (value_key split) ys"
  shows "length xs = length ys"
proof -
  have "CompareContainer (\<lambda>x y. compare_keys (value_key split x) (value_key split y)) xs ys = Same"
    using key_agrees_arrays(2)[where xs = xs and ys = ys and a = "[]" and b = "[]", OF assms(1)] assms(2) by simp
  then have "map (\<lambda>_. ()) xs = map (\<lambda>_. ()) ys" by (rule CompareContainer_Same_map) simp
  then show ?thesis by (rule map_eq_imp_length_eq)
qed

lemma vector_key_from_fields:
  assumes l: "value_ok l" "unique_keys l" "GetTypeOrder l = kVector"
    and r: "value_ok r" "unique_keys r" "GetTypeOrder r = kVector"
    and eq: "map (\<lambda>f. (fst f, value_key split (snd f))) (map_fields (SortFields l)) =
      map (\<lambda>f. (fst f, value_key split (snd f))) (map_fields (SortFields r))"
  shows "value_key split l = value_key split r"
proof -
  let ?ls = "vector_elements l" and ?rs = "vector_elements r"
  have "value_key split (Array_value ?ls) = value_key split (Array_value ?rs)"
    using sorted_field_key[OF l(2,1) vector_array_field[OF l(2,3)], of split]
      sorted_field_key[OF r(2,1) vector_array_field[OF r(2,3)], of split] unfolding eq by simp
  then have enc: "enc_list (value_key split) ?ls = enc_list (value_key split) ?rs"
    by (simp add: value_key.simps[of split "Array_value _"])
  have "key_agrees split x y" if "x \<in> set ?ls" "y \<in> set ?rs" for x y
    using value_ok_vector_elements[OF l(1) that(1)] value_ok_vector_elements[OF r(1) that(2)] by (rule value_key_agrees)
  then have "length ?ls = length ?rs" using enc by (rule array_key_length)
  then show ?thesis using l(3) r(3) enc by (simp add: value_key.simps[of split l] value_key.simps[of split r])
qed

lemma leaf_equal_key:
  assumes "GetTypeOrder l = GetTypeOrder r" "Value_Equals split l r = Inr True"
    and "GetTypeOrder l \<in> {kNull, kBoolean, kNumber, kTimestamp, kString, kBlob, kReference, kGeoPoint}"
  shows "value_key split l = value_key split r"
proof -
  consider "l = Null_value" "r = Null_value" | b b' where "l = Boolean_value b" "r = Boolean_value b'"
    | i j where "l = Integer_value i" "r = Integer_value j" | d e where "l = Double_value d" "r = Double_value e"
    | "NumberEquals l r = False" "GetTypeOrder l = kNumber"
    | t t' where "l = Timestamp_value t" "r = Timestamp_value t'" | s s' where "l = String_value s" "r = String_value s'"
    | x y where "l = Bytes_value x" "r = Bytes_value y" | s s' where "l = Reference_value s" "r = Reference_value s'"
    | a b a' b' where "l = Geo_point_value a b" "r = Geo_point_value a' b'"
    using assms(1,3) by (cases l; cases r) (auto split: if_splits)
  then show ?thesis
    by cases (use assms(1,2) in \<open>auto simp: Value_Equals.simps value_key.simps DoubleBitwiseEquals_def DoubleBits_def double_key_def double_eq_def
      timestamp_key_def blob_compare is_nan_quiet_NaN split: if_splits\<close>)
qed

lemma Equals_same_key:
  "\<lbrakk>Value_Equals split l r = Inr True; value_ok l; value_ok r; unique_keys l; unique_keys r\<rbrakk> \<Longrightarrow>
   value_key split l = value_key split r"
proof (induction l arbitrary: r rule: measure_induct_rule[of size])
  case (less l)
  note eq = less.prems(1)[unfolded Value_Equals.simps[of split l r] Let_def]
  have t: "GetTypeOrder l = GetTypeOrder r" using eq by (simp split: if_splits)
  have maps: "map (\<lambda>f. (fst f, value_key split (snd f))) (map_fields (SortFields l)) =
      map (\<lambda>f. (fst f, value_key split (snd f))) (map_fields (SortFields r))"
    if "MapValueEquals split l r = Inr True"
    using that CompareMaps_Same[OF less.prems(2,3)] by (auto simp: MapValueEquals_def split: if_splits)
  show ?case
  proof (cases "GetTypeOrder l")
    case kArray
    then obtain xs ys where xy: "l = Array_value xs" "r = Array_value ys"
      using t by (cases l; cases r) (auto split: if_splits)
    then have "equals_loop (Value_Equals split) xs ys = Inr True" "length xs = length ys"
      using eq t kArray by (auto simp: ArrayEquals_def split: if_splits)
    moreover have "value_key split x = value_key split y"
      if "x \<in> set xs" "y \<in> set ys" "Value_Equals split x y = Inr True" for x y
      using less.IH[OF _ that(3)] less.prems(2-) that(1,2) xy by (simp add: size_element)
    ultimately have "map (value_key split) xs = map (value_key split) ys" by (rule equals_loop_map)
    then show ?thesis using xy enc_list_eq_map by (simp add: value_key.simps[of split "Array_value _"])
  next
    case kMap
    then have "enc_list (\<lambda>f. enc_string (fst f) @ value_key split (snd f)) (map_fields (SortFields l)) =
        enc_list (\<lambda>f. enc_string (fst f) @ value_key split (snd f)) (map_fields (SortFields r))"
      using maps eq t by (intro enc_list_pairs) simp
    then show ?thesis using kMap t by (simp add: value_key.simps[of split l] value_key.simps[of split r])
  next
    case kVector
    then show ?thesis using maps eq t less.prems by (intro vector_key_from_fields) simp_all
  next
    case kServerTimestamp
    then show ?thesis using eq t
      by (auto simp: value_key.simps[of split l] value_key.simps[of split r] timestamp_key_def)
  next
    case kMaxValue
    then show ?thesis using t by (simp add: value_key.simps[of split l] value_key.simps[of split r])
  qed (rule leaf_equal_key[OF t less.prems(1)], simp)+
qed

section \<open>Properties\<close>

text \<open>
  C13. Comparing field values never fails on well-formed values and is a total preorder over all
  value types: reflexive, opposite when the arguments are swapped, and transitive. This holds for
  integers mixed with doubles and NaN, nested arrays and maps, vectors, and sentinel maps.
\<close>

theorem Value_Compare_total_preorder:
  assumes "value_ok x" "value_ok y" "value_ok z"
  shows "Value_Compare split x x = Inr Same \<and>
    (\<exists>c. Value_Compare split x y = Inr c \<and> Value_Compare split y x = Inr (ReverseOrder c)) \<and>
    (Value_Compare split x y \<noteq> Inr Descending \<longrightarrow> Value_Compare split y z \<noteq> Inr Descending \<longrightarrow>
     Value_Compare split x z \<noteq> Inr Descending)"
  using Value_Compare_key[OF assms(1,1)] Value_Compare_key[OF assms(1,2)] Value_Compare_key[OF assms(2,1)]
    Value_Compare_key[OF assms(2,3)] Value_Compare_key[OF assms(1,3)]
    keys_cmp.cmp_sym[of "value_key split y" "value_key split x"]
    keys_cmp.cmp_trans[of "value_key split x" "value_key split y" "value_key split z"]
  by simp

theorem Value_Compare_total_preorder_witness:
  "\<exists>c. Value_Compare (\<lambda>s. [s]) (Array_value [Integer_value 1, Null_value]) (Map_value [(''a'', Double_value 0)]) = Inr c"
  using Value_Compare_total_preorder[of "Array_value [Integer_value 1, Null_value]"
      "Map_value [(''a'', Double_value 0)]" Null_value "\<lambda>s. [s]"]
  by (auto simp: server_timestamp_ok_def kTypeKey_def)

text \<open>
  C16. The order of the fields of a map does not matter: a value and its copy with all maps sorted
  compare alike with every other value.
\<close>

theorem Value_Compare_field_order:
  assumes "unique_keys v" "value_ok v" "value_ok w"
  shows "Value_Compare split (SortFields v) w = Value_Compare split v w"
  using Value_Compare_key[OF value_ok_SortFields[OF assms(2)] assms(3)] Value_Compare_key[OF assms(2,3)]
    value_key_SortFields[OF assms(1,2)] by simp

theorem Value_Compare_field_order_witness:
  "Value_Compare (\<lambda>s. [s]) (SortFields (Map_value [(''b'', Null_value), (''a'', Null_value)])) Null_value =
   Value_Compare (\<lambda>s. [s]) (Map_value [(''b'', Null_value), (''a'', Null_value)]) Null_value"
  by (rule Value_Compare_field_order) (simp_all add: server_timestamp_ok_def kTypeKey_def)

text \<open>
  C15. Values that are equal compare the same, so equality never separates what the order
  identifies.
\<close>

theorem Value_Equals_compare_Same:
  assumes "Value_Equals split l r = Inr True" "value_ok l" "value_ok r" "unique_keys l" "unique_keys r"
  shows "Value_Compare split l r = Inr Same"
  using Value_Compare_key[OF assms(2,3)] Equals_same_key[OF assms] by simp

theorem Value_Equals_compare_Same_witness:
  "Value_Compare (\<lambda>s. [s]) (Array_value [Bytes_value None]) (Array_value [Bytes_value (Some [])]) = Inr Same"
  by (rule Value_Equals_compare_Same)
    (simp_all add: Value_Equals.simps ArrayEquals_def DefaultComparator_def)

text \<open>
  The lower bound of a value's type is not above the value and the upper bound is strictly
  above it.
\<close>

theorem value_between_bounds:
  assumes "value_ok v" "bounded_value v"
  shows "(Value_Compare split (GetLowerBound v) v = Inr Ascending \<or> Value_Compare split (GetLowerBound v) v = Inr Same) \<and>
    Value_Compare split v (GetUpperBound v) = Inr Ascending"
proof -
  have "compare_keys (value_key split v) (value_key split (GetUpperBound v)) = Ascending"
    using GetTypeOrder_upper[OF assms(2)]
    by (simp add: value_key.simps[of split v] value_key.simps[of split "GetUpperBound v"] DefaultComparator_def)
  then show ?thesis
    using Value_Compare_key[OF value_ok_bounds(1) assms(1)] Value_Compare_key[OF assms(1) value_ok_bounds(2)]
      lower_bound_key[OF assms(2), of split]
    by (cases "compare_keys (value_key split (GetLowerBound v)) (value_key split v)") simp_all
qed

theorem value_between_bounds_witness:
  "Value_Compare (\<lambda>s. [s]) (String_value ''x'') MinBytes = Inr Ascending"
  using value_between_bounds[of "String_value ''x''" "\<lambda>s. [s]"] by simp

definition double_one :: double where "double_one = 0x3FF0000000000000"

lemma dval_double_one: "\<not> is_nan double_one" "dval double_one = int double_scale"
proof -
  have c: "double_code double_one = 1022 * 2 ^ 52 + 2 ^ 52" "\<not> double_negative double_one"
    by (simp_all add: double_one_def double_code_def double_negative_def)
  have "code_magnitude (1022 * 2 ^ 52 + 2 ^ 52) = 2 ^ 52 * 2 ^ 1022"
    by (rule code_magnitude_split) simp_all
  also have "\<dots> = double_scale" unfolding double_scale_def by (simp add: power_add[symmetric])
  finally show "dval double_one = int double_scale" using c by (simp add: dval_def)
  show "\<not> is_nan double_one" unfolding is_nan_def c by (simp add: infinity_code_def)
qed




end
