(* ===== verification/Doc_Paths.thy ===== *)
theory Doc_Paths
  imports Number_Compare "HOL-Library.Sublist"
begin

text \<open>
  Paths and document keys: \<^verbatim>\<open>model/base_path.h\<close>, \<^verbatim>\<open>resource_path.cc\<close>, \<^verbatim>\<open>field_path.cc\<close> and
  \<^verbatim>\<open>document_key.cc\<close>. A path is its list of segments. The string functions of Abseil that the
  code calls are the fields of the parameter record \<open>absl_strings\<close>; \<open>absl_ok\<close> states their
  documented behaviour.
\<close>

section \<open>String functions of Abseil\<close>

record absl_strings =
  StrContains :: "string \<Rightarrow> string \<Rightarrow> bool"
  StrSplit :: "string \<Rightarrow> char \<Rightarrow> string list"
  StrSplitSkipEmpty :: "string \<Rightarrow> char \<Rightarrow> string list"
  StrJoin :: "string list \<Rightarrow> string \<Rightarrow> (string \<Rightarrow> string) \<Rightarrow> string"
  StrReplaceAll :: "string \<Rightarrow> (string \<times> string) list \<Rightarrow> string"

text \<open>The pieces between the occurrences of a character.\<close>

fun pieces :: "char \<Rightarrow> string \<Rightarrow> string list" where
  "pieces d [] = [[]]"
| "pieces d (c # cs) =
     (if c = d then [] # pieces d cs else (case pieces d cs of p # ps \<Rightarrow> (c # p) # ps | [] \<Rightarrow> [[c]]))"

fun join_with :: "string \<Rightarrow> string list \<Rightarrow> string" where
  "join_with sep [] = []"
| "join_with sep [x] = x"
| "join_with sep (x # y # ys) = x @ sep @ join_with sep (y # ys)"

text \<open>Replacing single characters, without scanning the replacement again.\<close>

fun replace_chars :: "(string \<times> string) list \<Rightarrow> string \<Rightarrow> string" where
  "replace_chars rs [] = []"
| "replace_chars rs (c # cs) =
     (case find (\<lambda>r. fst r = [c]) rs of Some r \<Rightarrow> snd r | None \<Rightarrow> [c]) @ replace_chars rs cs"

definition absl_ok :: "absl_strings \<Rightarrow> bool" where
  "absl_ok a \<longleftrightarrow>
     (\<forall>s t. StrContains a s t \<longleftrightarrow> sublist t s) \<and>
     (\<forall>s d. StrSplit a s d = pieces d s) \<and>
     (\<forall>s d. StrSplitSkipEmpty a s d = filter (\<lambda>p. p \<noteq> []) (pieces d s)) \<and>
     (\<forall>xs sep f. StrJoin a xs sep f = join_with sep (map f xs)) \<and>
     (\<forall>s rs. (\<forall>r \<in> set rs. length (fst r) = 1) \<longrightarrow> StrReplaceAll a s rs = replace_chars rs s)"

section \<open>Segments\<close>

type_synonym ResourcePath = "string list"
type_synonym FieldPath = "string list"
type_synonym DocumentKey = "string list"

definition path_nth :: "string list \<Rightarrow> nat \<Rightarrow> string res" where
  "path_nth p i = (if i < length p then Inr (p ! i) else Inl HardAssert)"

definition first_segment :: "string list \<Rightarrow> string res" where
  "first_segment p = (if p \<noteq> [] then Inr (p ! 0) else Inl HardAssert)"

definition last_segment :: "string list \<Rightarrow> string res" where
  "last_segment p = (if p \<noteq> [] then Inr (p ! (length p - 1)) else Inl HardAssert)"

definition Append_segment :: "string list \<Rightarrow> string \<Rightarrow> string list" where
  "Append_segment p segment = p @ [segment]"

definition Append_path :: "string list \<Rightarrow> string list \<Rightarrow> string list" where
  "Append_path p path = p @ path"

definition PopFirst :: "string list \<Rightarrow> nat \<Rightarrow> string list res" where
  "PopFirst p n = (if n \<le> length p then Inr (drop n p) else Inl HardAssert)"

definition PopLast :: "string list \<Rightarrow> string list res" where
  "PopLast p = (if p \<noteq> [] then Inr (take (length p - 1) p) else Inl HardAssert)"

definition IsPrefixOf :: "string list \<Rightarrow> string list \<Rightarrow> bool" where
  "IsPrefixOf p rhs \<longleftrightarrow> length p \<le> length rhs \<and> p = take (length p) rhs"

definition IsImmediateParentOf :: "string list \<Rightarrow> string list \<Rightarrow> bool" where
  "IsImmediateParentOf p potential_child \<longleftrightarrow>
     length p + 1 = length potential_child \<and> p = take (length p) potential_child"

definition Path_CompareTo :: "string list cmp" where
  "Path_CompareTo = CompareContainer Compare_string"

interpretation path_cmp: strong_comparator Path_CompareTo
  unfolding Path_CompareTo_def by (rule string_cmp.CompareContainer_strong)

section \<open>Resource paths\<close>

datatype invalid_argument = InvalidPath | InvalidCharacter | EmptySegment | TrailingEscape | UnterminatedBacktick
  | NoSegments

definition ResourcePath_FromString :: "absl_strings \<Rightarrow> string \<Rightarrow> invalid_argument + ResourcePath" where
  "ResourcePath_FromString a path =
     (if StrContains a path ''//'' then Inl InvalidPath else Inr (StrSplitSkipEmpty a path (CHR ''/'')))"

definition ResourcePath_CanonicalString :: "absl_strings \<Rightarrow> ResourcePath \<Rightarrow> string" where
  "ResourcePath_CanonicalString a p = StrJoin a p ''/'' (\<lambda>s. s)"

section \<open>Field paths\<close>

definition between :: "char \<Rightarrow> char \<Rightarrow> char \<Rightarrow> bool" where
  "between lo hi c \<longleftrightarrow> (of_char lo :: nat) \<le> of_char c \<and> (of_char c :: nat) \<le> of_char hi"

definition IsValidIdentifier :: "string \<Rightarrow> bool" where
  "IsValidIdentifier segment =
     (case segment of
        [] \<Rightarrow> False
      | first # rest \<Rightarrow>
          if first \<noteq> CHR ''_'' \<and> \<not> between (CHR ''a'') (CHR ''z'') first \<and> \<not> between (CHR ''A'') (CHR ''Z'') first
          then False
          else list_all (\<lambda>c. c = CHR ''_'' \<or> between (CHR ''a'') (CHR ''z'') c \<or> between (CHR ''A'') (CHR ''Z'') c
                 \<or> between (CHR ''0'') (CHR ''9'') c) rest)"

definition backslash :: char where "backslash = CHR 0x5C"
definition backtick :: char where "backtick = CHR 0x60"
definition nul :: char where "nul = CHR 0x00"

definition escaped_segment :: "absl_strings \<Rightarrow> string \<Rightarrow> string" where
  "escaped_segment a segment =
     (let escaped = StrReplaceAll a segment
            [([backslash], [backslash, backslash]), ([backtick], [backslash, backtick])]
      in if \<not> IsValidIdentifier escaped then [backtick] @ escaped @ [backtick] else escaped)"

definition FieldPath_CanonicalString :: "absl_strings \<Rightarrow> FieldPath \<Rightarrow> string" where
  "FieldPath_CanonicalString a p = StrJoin a p ''.'' (escaped_segment a)"

definition FromDotSeparatedString :: "absl_strings \<Rightarrow> string \<Rightarrow> invalid_argument + FieldPath" where
  "FromDotSeparatedString a path =
     (if list_ex (\<lambda>c. c \<in> set ''~*/[]'') path then Inl InvalidCharacter
      else let segments = StrSplit a path (CHR ''.'')
           in if list_ex (\<lambda>s. s = []) segments then Inl EmptySegment else Inr segments)"

text \<open>The segment under construction is complete.\<close>

definition finish_segment :: "string list \<Rightarrow> string \<Rightarrow> invalid_argument + string list" where
  "finish_segment segments segment = (if segment = [] then Inl EmptySegment else Inr (segments @ [segment]))"

text \<open>The scan; it stops at the end of the string or at the first NUL.\<close>

fun server_loop :: "string \<Rightarrow> bool \<Rightarrow> string list \<Rightarrow> string \<Rightarrow> invalid_argument + (bool \<times> string list \<times> string)" where
  "server_loop [] inside_backticks segments segment = Inr (inside_backticks, segments, segment)"
| "server_loop (c # cs) inside_backticks segments segment =
     (if c = nul then Inr (inside_backticks, segments, segment)
      else if c = CHR ''.'' then
        if \<not> inside_backticks then
          (case finish_segment segments segment of
             Inl e \<Rightarrow> Inl e
           | Inr segments' \<Rightarrow> server_loop cs inside_backticks segments' [])
        else server_loop cs inside_backticks segments (segment @ [c])
      else if c = backtick then server_loop cs (\<not> inside_backticks) segments segment
      else if c = backslash then
        (case cs of
           [] \<Rightarrow> Inl TrailingEscape
         | d # ds \<Rightarrow> server_loop ds inside_backticks segments (segment @ [d]))
      else server_loop cs inside_backticks segments (segment @ [c]))"

definition FromServerFormat :: "string \<Rightarrow> invalid_argument + FieldPath" where
  "FromServerFormat path =
     (case server_loop path False [] [] of
        Inl e \<Rightarrow> Inl e
      | Inr (inside_backticks, segments, segment) \<Rightarrow>
          (case finish_segment segments segment of
             Inl e \<Rightarrow> Inl e
           | Inr segments' \<Rightarrow> if inside_backticks then Inl UnterminatedBacktick else Inr segments'))"

definition kDocumentKeyPath :: string where "kDocumentKeyPath = ''__name__''"

definition EmptyPath :: FieldPath where "EmptyPath = []"

definition KeyFieldPath :: FieldPath where "KeyFieldPath = [kDocumentKeyPath]"

definition IsKeyFieldPath :: "FieldPath \<Rightarrow> bool" where
  "IsKeyFieldPath p \<longleftrightarrow> length p = 1 \<and> first_segment p = Inr kDocumentKeyPath"

definition ValidateSegments :: "string list \<Rightarrow> invalid_argument + unit" where
  "ValidateSegments segments =
     (if segments = [] then Inl NoSegments
      else if list_ex (\<lambda>s. s = []) segments then Inl EmptySegment else Inr ())"

section \<open>Document keys\<close>

definition IsDocumentKey :: "ResourcePath \<Rightarrow> bool" where
  "IsDocumentKey path \<longleftrightarrow> length path mod 2 = 0"

definition make_DocumentKey :: "ResourcePath \<Rightarrow> DocumentKey res" where
  "make_DocumentKey path = (if IsDocumentKey path then Inr path else Inl HardAssert)"

text \<open>An invalid path string throws; the outer sum keeps the two kinds of failure apart.\<close>

definition DocumentKey_FromPathString :: "absl_strings \<Rightarrow> string \<Rightarrow> invalid_argument + DocumentKey res" where
  "DocumentKey_FromPathString a path =
     (case ResourcePath_FromString a path of Inl e \<Rightarrow> Inl e | Inr p \<Rightarrow> Inr (make_DocumentKey p))"

definition DocumentKey_FromName :: "absl_strings \<Rightarrow> string \<Rightarrow> invalid_argument + DocumentKey res" where
  "DocumentKey_FromName a name =
     (case ResourcePath_FromString a name of
        Inl e \<Rightarrow> Inl e
      | Inr resource_name \<Rightarrow>
          if length resource_name > 4 \<and> resource_name ! 0 = ''projects'' \<and> resource_name ! 2 = ''databases'' \<and>
             resource_name ! 4 = ''documents''
          then Inr (bind_res (PopFirst resource_name 5) make_DocumentKey)
          else Inr (Inl HardAssert))"

definition DocumentKey_CompareTo :: "DocumentKey cmp" where
  "DocumentKey_CompareTo lhs other = Path_CompareTo lhs other"

definition GetCollectionGroup :: "DocumentKey \<Rightarrow> string option" where
  "GetCollectionGroup key = (if length key < 2 then None else Some (key ! (length key - 2)))"

definition HasCollectionGroup :: "DocumentKey \<Rightarrow> string \<Rightarrow> bool" where
  "HasCollectionGroup key collection_group \<longleftrightarrow>
     (case GetCollectionGroup key of Some c \<Rightarrow> c = collection_group | None \<Rightarrow> False)"

interpretation key_cmp: strong_comparator DocumentKey_CompareTo
  by (rule strong_comparator_on[OF path_cmp.strong_comparator_axioms, of _ "\<lambda>k. k"])
    (simp_all add: DocumentKey_CompareTo_def)

section \<open>Splitting and joining\<close>

lemma pieces_plain: "d \<notin> set s \<Longrightarrow> pieces d s = [s]"
  by (induction s) auto

lemma pieces_not_Nil [simp]: "pieces d s \<noteq> []"
  by (induction s) (auto split: list.splits)

lemma pieces_append: "pieces d (s @ d # t) = pieces d s @ pieces d t"
proof (induction s)
  case (Cons c s)
  then show ?case by (cases "pieces d s") (auto simp: pieces_not_Nil)
qed simp

lemma pieces_join:
  "p \<noteq> [] \<Longrightarrow> \<forall>x \<in> set p. d \<notin> set x \<Longrightarrow> pieces d (join_with [d] p) = p"
proof (induction "[d]" p rule: join_with.induct)
  case (3 x y ys)
  then show ?case using pieces_append[of d x "join_with [d] (y # ys)"] by (simp add: pieces_plain)
qed (simp_all add: pieces_plain)

lemma double_delimiter: "sublist [d, d] s \<Longrightarrow> [] \<in> set (pieces d s)"
proof -
  assume "sublist [d, d] s"
  then obtain u v where "s = u @ d # d # v" by (auto simp: sublist_def)
  then show ?thesis using pieces_append[of d u "d # v"] by simp
qed

text \<open>Segments that survive a trip through a resource path string.\<close>

definition plain_segments :: "string list \<Rightarrow> bool" where
  "plain_segments p \<longleftrightarrow> (\<forall>x \<in> set p. x \<noteq> [] \<and> CHR ''/'' \<notin> set x)"

lemma ResourcePath_roundtrip_lemma:
  assumes "absl_ok a" "plain_segments p"
  shows "ResourcePath_FromString a (ResourcePath_CanonicalString a p) = Inr p"
proof -
  let ?s = "join_with ''/'' p"
  have c: "ResourcePath_CanonicalString a p = ?s"
    using assms(1) by (simp add: absl_ok_def ResourcePath_CanonicalString_def)
  have "\<not> sublist ''//'' ?s \<and> filter (\<lambda>x. x \<noteq> []) (pieces (CHR ''/'') ?s) = p"
  proof (cases "p = []")
    case False
    then have "pieces (CHR ''/'') ?s = p" using assms(2) by (intro pieces_join) (auto simp: plain_segments_def)
    then show ?thesis
      using assms(2) double_delimiter[of "CHR ''/''" ?s] by (auto simp: plain_segments_def filter_id_conv)
  qed simp
  then show ?thesis using assms(1) by (simp add: c ResourcePath_FromString_def absl_ok_def)
qed

section \<open>Escaping\<close>

definition esc :: "string \<Rightarrow> string" where
  "esc = replace_chars [([backslash], [backslash, backslash]), ([backtick], [backslash, backtick])]"

lemma esc_simps [simp]:
  "esc [] = []"
  "esc (c # cs) = (if c = backslash then [backslash, backslash] else if c = backtick then [backslash, backtick] else [c]) @ esc cs"
  by (auto simp: esc_def)

lemma special_distinct [simp]:
  "nul \<noteq> CHR ''.''" "backtick \<noteq> CHR ''.''" "backslash \<noteq> CHR ''.''" "backtick \<noteq> nul" "backslash \<noteq> nul"
  "backtick \<noteq> backslash" "CHR ''.'' \<noteq> nul" "CHR ''.'' \<noteq> backtick" "CHR ''.'' \<noteq> backslash"
  "nul \<noteq> backtick" "nul \<noteq> backslash" "backslash \<noteq> backtick"
  by (simp_all add: nul_def backtick_def backslash_def)

definition special_chars :: "char set" where
  "special_chars = {nul, CHR ''.'', backtick, backslash}"

lemma special_not_identifier:
  "c \<in> special_chars \<Longrightarrow> \<not> (c = CHR ''_'' \<or> between (CHR ''a'') (CHR ''z'') c \<or> between (CHR ''A'') (CHR ''Z'') c
     \<or> between (CHR ''0'') (CHR ''9'') c)"
  unfolding special_chars_def insert_iff empty_iff nul_def backtick_def backslash_def
  by (elim disjE) (simp_all add: between_def)

lemma IsValidIdentifier_plain: "IsValidIdentifier s \<Longrightarrow> set s \<inter> special_chars = {}"
proof (cases s)
  case (Cons c cs)
  assume "IsValidIdentifier s"
  then have "\<forall>d \<in> set s. d = CHR ''_'' \<or> between (CHR ''a'') (CHR ''z'') d \<or> between (CHR ''A'') (CHR ''Z'') d
     \<or> between (CHR ''0'') (CHR ''9'') d"
    unfolding IsValidIdentifier_def Cons by (simp add: list_all_iff split: if_splits) blast
  then show ?thesis using special_not_identifier by blast
qed simp

lemma esc_plain: "set (esc s) \<inter> special_chars = {} \<Longrightarrow> esc s = s \<and> set s \<inter> special_chars = {}"
  by (induction s) (auto simp: special_chars_def split: if_splits)

lemma server_loop_plain:
  "set s \<inter> special_chars = {} \<Longrightarrow> server_loop (s @ rest) b segs seg = server_loop rest b segs (seg @ s)"
  by (induction s arbitrary: seg) (auto simp: special_chars_def)

lemma server_loop_quoted:
  "nul \<notin> set s \<Longrightarrow> server_loop (esc s @ rest) True segs seg = server_loop rest True segs (seg @ s)"
  by (induction s arbitrary: seg) auto

lemma server_loop_segment:
  assumes "absl_ok a" "nul \<notin> set s"
  shows "server_loop (escaped_segment a s @ rest) False segs [] = server_loop rest False segs s"
proof -
  have e: "StrReplaceAll a s [([backslash], [backslash, backslash]), ([backtick], [backslash, backtick])] = esc s"
    using assms(1) by (simp add: absl_ok_def esc_def)
  show ?thesis
  proof (cases "IsValidIdentifier (esc s)")
    case True
    then have "esc s = s" "set s \<inter> special_chars = {}" using esc_plain[OF IsValidIdentifier_plain] by simp_all
    then show ?thesis using True server_loop_plain[of s rest False segs "[]"]
      by (simp add: escaped_segment_def e)
  next
    case False
    then show ?thesis using server_loop_quoted[OF assms(2), of "backtick # rest" segs "[]"]
      by (simp add: escaped_segment_def e)
  qed
qed

lemma server_loop_path:
  assumes "absl_ok a" "p \<noteq> []" "\<forall>s \<in> set p. s \<noteq> [] \<and> nul \<notin> set s"
  shows "server_loop (join_with ''.'' (map (escaped_segment a) p)) False segs [] = Inr (False, segs @ butlast p, last p)"
  using assms(2,3)
proof (induction p arbitrary: segs)
  case (Cons s p)
  show ?case
  proof (cases p)
    case Nil
    then show ?thesis using server_loop_segment[OF assms(1), of s "[]" segs] Cons.prems by simp
  next
    case (Cons t q)
    then have "join_with ''.'' (map (escaped_segment a) (s # p)) =
        escaped_segment a s @ CHR ''.'' # join_with ''.'' (map (escaped_segment a) p)" by simp
    then show ?thesis
      using server_loop_segment[OF assms(1), of s "CHR ''.'' # join_with ''.'' (map (escaped_segment a) p)" segs]
        Cons.IH[of "segs @ [s]"] Cons.prems \<open>p = t # q\<close>
      by (simp add: finish_segment_def)
  qed
qed simp

lemma finish_segment_ok:
  "finish_segment segs seg = Inr segs' \<Longrightarrow> [] \<notin> set segs \<Longrightarrow> segs' \<noteq> [] \<and> [] \<notin> set segs'"
  by (auto simp: finish_segment_def split: if_splits)

lemma server_loop_segments_ok:
  "server_loop cs b segs seg = Inr (b', segs', seg') \<Longrightarrow> [] \<notin> set segs \<Longrightarrow> [] \<notin> set segs'"
proof (induction cs b segs seg rule: server_loop.induct)
  case (2 c cs b segs seg)
  note IH = "2.IH" and prems = "2.prems"
  show ?case
  proof (cases "c = CHR ''.'' \<and> \<not> b")
    case True
    then obtain segs1 where s1: "finish_segment segs seg = Inr segs1"
      using prems(1) by (cases "finish_segment segs seg") simp_all
    then show ?thesis using True IH(1)[OF _ _ _ s1] prems finish_segment_ok[OF s1] by simp
  next
    case False
    show ?thesis
    proof (cases "c = backslash")
      case bs: True
      then obtain d ds where cs: "cs = d # ds" using prems(1) by (cases cs) simp_all
      then show ?thesis using bs IH(4)[OF _ _ _ _ cs] prems by simp
    next
      case nbs: False
      then show ?thesis using False IH(2,3,5) prems by (cases "c = nul"; cases "c = CHR ''.''"; cases "c = backtick") simp_all
    qed
  qed
qed simp

section \<open>Properties\<close>

text \<open>
  C19. Printing a field path in canonical form and parsing it back in server format gives the same
  path, for segments with dots, backslashes, backticks or characters that need quoting; only a NUL
  character, where the parser stops, is excluded.
\<close>

theorem FieldPath_roundtrip:
  assumes "absl_ok a" "p \<noteq> []" "\<forall>s \<in> set p. s \<noteq> [] \<and> nul \<notin> set s"
  shows "FromServerFormat (FieldPath_CanonicalString a p) = Inr p"
proof -
  have "FieldPath_CanonicalString a p = join_with ''.'' (map (escaped_segment a) p)"
    using assms(1) by (simp add: absl_ok_def FieldPath_CanonicalString_def)
  then show ?thesis
    using server_loop_path[OF assms, of "[]"] assms(2,3) last_in_set[OF assms(2)]
    by (auto simp: FromServerFormat_def finish_segment_def)
qed

definition absl_reference :: absl_strings where
  "absl_reference = \<lparr>StrContains = (\<lambda>s t. sublist t s), StrSplit = (\<lambda>s d. pieces d s),
     StrSplitSkipEmpty = (\<lambda>s d. filter (\<lambda>p. p \<noteq> []) (pieces d s)),
     StrJoin = (\<lambda>xs sep f. join_with sep (map f xs)), StrReplaceAll = (\<lambda>s rs. replace_chars rs s)\<rparr>"

lemma absl_reference_ok: "absl_ok absl_reference"
  by (simp add: absl_ok_def absl_reference_def)

theorem FieldPath_roundtrip_witness:
  "FromServerFormat (FieldPath_CanonicalString absl_reference [''a.b'', ''x`y'', ''ok'']) = Inr [''a.b'', ''x`y'', ''ok'']"
  using FieldPath_roundtrip[OF absl_reference_ok, of "[''a.b'', ''x`y'', ''ok'']"] by (simp add: nul_def)

text \<open>
  Whatever string the parser of server-format paths accepts, the path it returns has at least
  one segment and no empty segment.
\<close>

theorem FromServerFormat_segments:
  assumes "FromServerFormat s = Inr p"
  shows "ValidateSegments p = Inr ()"
proof -
  obtain b segs seg where l: "server_loop s False [] [] = Inr (b, segs, seg)"
    using assms by (auto simp: FromServerFormat_def split: sum.splits)
  then have "finish_segment segs seg = Inr p"
    using assms by (auto simp: FromServerFormat_def split: sum.splits if_splits)
  from finish_segment_ok[OF this] server_loop_segments_ok[OF l] show ?thesis
    by (auto simp: ValidateSegments_def list_ex_iff)
qed

theorem FromServerFormat_segments_witness:
  "FromServerFormat ''a.b'' = Inr [''a'', ''b''] \<and> ValidateSegments [''a'', ''b''] = Inr ()"
  using FromServerFormat_segments[of "''a.b''" "[''a'', ''b'']"]
  by (simp add: FromServerFormat_def finish_segment_def nul_def backtick_def backslash_def)

text \<open>
  C20. Resource paths survive printing and parsing, and the full resource name of a document gives
  back the document's key.
\<close>

theorem ResourcePath_roundtrip:
  assumes "absl_ok a" "plain_segments p" "plain_segments [project, database]" "IsDocumentKey p"
  shows "ResourcePath_FromString a (ResourcePath_CanonicalString a p) = Inr p \<and>
    DocumentKey_FromName a (ResourcePath_CanonicalString a
      ([''projects'', project, ''databases'', database, ''documents''] @ p)) = Inr (Inr p)"
proof -
  have "plain_segments ([''projects'', project, ''databases'', database, ''documents''] @ p)"
    using assms(2,3) by (simp add: plain_segments_def)
  from ResourcePath_roundtrip_lemma[OF assms(1) this] show ?thesis
    using ResourcePath_roundtrip_lemma[OF assms(1,2)] assms(4)
    by (simp add: DocumentKey_FromName_def PopFirst_def make_DocumentKey_def)
qed

theorem ResourcePath_roundtrip_witness:
  "DocumentKey_FromName absl_reference (ResourcePath_CanonicalString absl_reference
      [''projects'', ''p'', ''databases'', ''d'', ''documents'', ''rooms'', ''eros'']) = Inr (Inr [''rooms'', ''eros''])"
  using ResourcePath_roundtrip[OF absl_reference_ok, of "[''rooms'', ''eros'']" "''p''" "''d''"]
  by (simp add: plain_segments_def IsDocumentKey_def)

end
