(* ===== verification/Object_Value.thy ===== *)
theory Object_Value
  imports Value_Order Doc_Paths
begin

text \<open>
  Structured values: \<^verbatim>\<open>model/object_value.cc\<close> and \<^verbatim>\<open>model/field_mask.cc\<close>.

  An object value is a map value whose maps are all sorted by key. The code edits nested maps
  through pointers; here an edit below a path rebuilds the maps on the way. The merge loop of
  \<^verbatim>\<open>ApplyChanges\<close> is kept step by step, because its handling of deletes is delicate.
\<close>

section \<open>Field masks\<close>

text \<open>\<^verbatim>\<open>std::set\<close>: a strictly ascending list.\<close>

fun set_insert :: "'a cmp \<Rightarrow> 'a \<Rightarrow> 'a list \<Rightarrow> 'a list" where
  "set_insert cmp x [] = [x]"
| "set_insert cmp x (y # ys) =
     (case cmp x y of Ascending \<Rightarrow> x # y # ys | Same \<Rightarrow> y # ys | Descending \<Rightarrow> y # set_insert cmp x ys)"

type_synonym FieldMask = "FieldPath list"

definition FieldMask_covers :: "FieldMask \<Rightarrow> FieldPath \<Rightarrow> bool" where
  "FieldMask_covers field_mask field_path \<longleftrightarrow> list_ex (\<lambda>p. IsPrefixOf p field_path) field_mask"

section \<open>Entries\<close>

text \<open>\<^verbatim>\<open>std::equal_range\<close> on the sorted fields; the entry it finds first.\<close>

definition find_entry :: "fields \<Rightarrow> string \<Rightarrow> Value option" where
  "find_entry fs segment =
     (case dropWhile (\<lambda>e. Compare_string (fst e) segment = Ascending) fs of
        [] \<Rightarrow> None
      | e # _ \<Rightarrow> if Compare_string segment (fst e) = Ascending then None else Some (snd e))"

fun FindEntry :: "Value \<Rightarrow> string \<Rightarrow> Value option" where
  "FindEntry (Map_value fs) segment = find_entry fs segment"
| "FindEntry _ segment = None"

text \<open>Writing through the pointer to the entry that was found.\<close>

definition write_entry :: "fields \<Rightarrow> string \<Rightarrow> Value \<Rightarrow> fields" where
  "write_entry fs segment v = map (\<lambda>e. if fst e = segment then (fst e, v) else e) fs"

definition CalculateSizeOfUnion :: "fields \<Rightarrow> fields \<Rightarrow> string list \<Rightarrow> nat" where
  "CalculateSizeOfUnion fs upserts deletes =
     length upserts + length (filter (\<lambda>e. fst e \<notin> set deletes \<and> fst e \<notin> fst ` set upserts) fs)"

text \<open>
  The merge loop; the first argument is the number of target entries still to be written. The
  iterators of the two sorted containers are the remaining lists.
\<close>

function apply_loop :: "nat \<Rightarrow> fields \<Rightarrow> fields \<Rightarrow> string list \<Rightarrow> fields res" where
  "apply_loop 0 source upserts deletes = Inr []"
| "apply_loop (Suc n) [] upserts deletes =
     (case upserts of
        [] \<Rightarrow> Inl UndefinedBehaviour
      | u # us \<Rightarrow> bind_res (apply_loop n [] us deletes) (\<lambda>rest. Inr ((fst u, SortFields (snd u)) # rest)))"
| "apply_loop (Suc n) (e # source) upserts deletes =
     (if deletes \<noteq> [] \<and> hd deletes = fst e then apply_loop (Suc n) source upserts (tl deletes)
      else case upserts of
        [] \<Rightarrow> bind_res (apply_loop n source upserts deletes) (\<lambda>rest. Inr (e # rest))
      | u # us \<Rightarrow>
          if fst u = fst e then
            bind_res (apply_loop n source us deletes) (\<lambda>rest. Inr ((fst e, SortFields (snd u)) # rest))
          else if Compare_string (fst u) (fst e) = Descending then
            bind_res (apply_loop n source upserts deletes) (\<lambda>rest. Inr (e # rest))
          else bind_res (apply_loop n (e # source) us deletes) (\<lambda>rest. Inr ((fst u, SortFields (snd u)) # rest)))"
  by pat_completeness auto
termination
  by (relation "measure (\<lambda>(n, source, upserts, deletes). n + length source)") auto

definition ApplyChanges :: "fields \<Rightarrow> fields \<Rightarrow> string list \<Rightarrow> fields res" where
  "ApplyChanges parent upserts deletes =
     apply_loop (CalculateSizeOfUnion parent upserts deletes) parent upserts deletes"

section \<open>Object values\<close>

text \<open>The wrapped value is always a map, so an object is the list of its fields.\<close>

type_synonym ObjectValue = fields

definition ObjectValue_new :: ObjectValue where
  "ObjectValue_new = []"

definition ObjectValue_of :: "Value \<Rightarrow> ObjectValue res" where
  "ObjectValue_of value = (if IsMap (Some value) then Inr (map_fields (SortFields value)) else Inl HardAssert)"

definition ObjectValue_FromMapValue :: "fields \<Rightarrow> ObjectValue res" where
  "ObjectValue_FromMapValue map_value = ObjectValue_of (Map_value map_value)"

definition ObjectValue_FromFieldsEntry :: "fields \<Rightarrow> ObjectValue res" where
  "ObjectValue_FromFieldsEntry fields_entry = ObjectValue_of (Map_value (map (\<lambda>e. (fst e, snd e)) fields_entry))"

text \<open>Server aliases are replaced by client aliases; an alias that is not in the table is an assertion.\<close>

fun remap_aliases :: "(string \<Rightarrow> string option) \<Rightarrow> fields \<Rightarrow> fields res" where
  "remap_aliases aliasMap [] = Inr []"
| "remap_aliases aliasMap (e # es) =
     (case aliasMap (fst e) of
        None \<Rightarrow> Inl HardAssert
      | Some clientAlias \<Rightarrow> bind_res (remap_aliases aliasMap es) (\<lambda>rest. Inr ((clientAlias, DeepClone (snd e)) # rest)))"

definition ObjectValue_FromAggregateFieldsEntry :: "fields \<Rightarrow> (string \<Rightarrow> string option) \<Rightarrow> ObjectValue res" where
  "ObjectValue_FromAggregateFieldsEntry fields_entry aliasMap =
     bind_res (remap_aliases aliasMap fields_entry) (\<lambda>fs. ObjectValue_of (Map_value fs))"

fun ExtractFieldMask :: "Value \<Rightarrow> FieldMask" where
  "ExtractFieldMask (Map_value fs) =
     fold (\<lambda>entry fields.
       let current_path = [fst entry]
       in if \<not> IsMap (Some (snd entry)) then set_insert Path_CompareTo current_path fields
          else let nested_mask = ExtractFieldMask (snd entry)
               in if nested_mask = [] then set_insert Path_CompareTo current_path fields
                  else fold (\<lambda>nested_path fields. set_insert Path_CompareTo (Append_path current_path nested_path) fields)
                         nested_mask fields) fs []"
| "ExtractFieldMask _ = []"

definition ToFieldMask :: "ObjectValue \<Rightarrow> FieldMask" where
  "ToFieldMask object = ExtractFieldMask (Map_value object)"

fun Get_walk :: "Value \<Rightarrow> FieldPath \<Rightarrow> Value option" where
  "Get_walk nested_value [] = Some nested_value"
| "Get_walk nested_value (segment # path) =
     (case FindEntry nested_value segment of None \<Rightarrow> None | Some entry \<Rightarrow> Get_walk entry path)"

definition ObjectValue_Get :: "ObjectValue \<Rightarrow> FieldPath \<Rightarrow> Value option" where
  "ObjectValue_Get object path = Get_walk (Map_value object) path"

text \<open>
  \<^verbatim>\<open>ParentMap\<close> returns a pointer to the map at a path, creating maps on the way and replacing values
  that are not maps; the caller then edits that map. Both are one function here.
\<close>

fun edit_ParentMap :: "fields \<Rightarrow> FieldPath \<Rightarrow> (fields \<Rightarrow> fields res) \<Rightarrow> fields res" where
  "edit_ParentMap parent [] edit = edit parent"
| "edit_ParentMap parent (segment # path) edit =
     (case find_entry parent segment of
        Some entry \<Rightarrow>
          (let nested = (if IsMap (Some entry) then map_fields entry else [])
           in bind_res (edit_ParentMap nested path edit)
                (\<lambda>fs. Inr (write_entry parent segment (Map_value fs))))
      | None \<Rightarrow>
          bind_res (ApplyChanges parent [(segment, Map_value [])] []) (\<lambda>parent'.
          bind_res (edit_ParentMap [] path edit)
            (\<lambda>fs. Inr (write_entry parent' segment (Map_value fs)))))"

definition ObjectValue_Set :: "ObjectValue \<Rightarrow> FieldPath \<Rightarrow> Value \<Rightarrow> ObjectValue res" where
  "ObjectValue_Set object path value =
     bind_res (PopLast path) (\<lambda>parent.
     bind_res (last_segment path) (\<lambda>segment.
       edit_ParentMap object parent (\<lambda>fs. ApplyChanges fs [(segment, value)] [])))"

text \<open>\<^verbatim>\<open>std::map\<close> assignment at a key.\<close>

fun map_assign :: "'k cmp \<Rightarrow> 'k \<Rightarrow> 'v \<Rightarrow> ('k \<times> 'v) list \<Rightarrow> ('k \<times> 'v) list" where
  "map_assign cmp k v [] = [(k, v)]"
| "map_assign cmp k v (e # es) =
     (case cmp k (fst e) of Ascending \<Rightarrow> (k, v) # e # es | Same \<Rightarrow> (fst e, v) # es | Descending \<Rightarrow> e # map_assign cmp k v es)"

type_synonym TransformMap = "(FieldPath \<times> Value option) list"

fun SetAll_loop :: "TransformMap \<Rightarrow> FieldPath \<Rightarrow> fields \<Rightarrow> string list \<Rightarrow> fields \<Rightarrow> fields res" where
  "SetAll_loop [] parent upserts deletes object =
     edit_ParentMap object parent (\<lambda>fs. ApplyChanges fs upserts deletes)"
| "SetAll_loop ((path, value) # data) parent upserts deletes object =
     bind_res (if \<not> IsImmediateParentOf parent path then
         bind_res (edit_ParentMap object parent (\<lambda>fs. ApplyChanges fs upserts deletes)) (\<lambda>object'.
         bind_res (PopLast path) (\<lambda>parent'. Inr (object', parent', [], [])))
       else Inr (object, parent, upserts, deletes))
     (\<lambda>(object', parent', upserts', deletes').
       bind_res (last_segment path) (\<lambda>segment.
         case value of
           Some v \<Rightarrow> SetAll_loop data parent' (map_assign Compare_string segment v upserts') deletes' object'
         | None \<Rightarrow> SetAll_loop data parent' upserts' (set_insert Compare_string segment deletes') object'))"

definition ObjectValue_SetAll :: "ObjectValue \<Rightarrow> TransformMap \<Rightarrow> ObjectValue res" where
  "ObjectValue_SetAll object data = SetAll_loop data EmptyPath [] [] object"

fun Delete_walk :: "Value \<Rightarrow> string list \<Rightarrow> string \<Rightarrow> Value res" where
  "Delete_walk nested_value [] segment =
     (if IsMap (Some nested_value)
      then bind_res (ApplyChanges (map_fields nested_value) [] [segment]) (\<lambda>fs. Inr (Map_value fs))
      else Inr nested_value)"
| "Delete_walk nested_value (s # path) segment =
     (case FindEntry nested_value s of
        None \<Rightarrow> Inr nested_value
      | Some entry \<Rightarrow> bind_res (Delete_walk entry path segment)
          (\<lambda>entry'. Inr (Map_value (write_entry (map_fields nested_value) s entry'))))"

definition ObjectValue_Delete :: "ObjectValue \<Rightarrow> FieldPath \<Rightarrow> ObjectValue res" where
  "ObjectValue_Delete object path =
     bind_res (PopLast path) (\<lambda>parent. bind_res (last_segment path) (\<lambda>segment.
       bind_res (Delete_walk (Map_value object) parent segment) (\<lambda>v. Inr (map_fields v))))"

section \<open>Sorted fields\<close>

abbreviation sorted_keys :: "(string \<times> 'v) list \<Rightarrow> bool" where
  "sorted_keys \<equiv> sorted_entries Compare_string"

abbreviation ascending :: "string list \<Rightarrow> bool" where
  "ascending \<equiv> sorted_wrt (\<lambda>a b. Compare_string a b = Ascending)"

lemma above_not_key: "entries_above Compare_string fs k \<Longrightarrow> k \<notin> fst ` set fs"
  by (auto simp: entries_above_def)

lemma sorted_keys_distinct: "sorted_keys fs \<Longrightarrow> distinct (map fst fs)"
  by (induction fs) (auto dest: above_not_key)

lemma map_of_above: "entries_above Compare_string fs k \<Longrightarrow> map_of fs k = None"
  by (auto simp: map_of_eq_None_iff dest: above_not_key)

lemma find_entry_map_of: "sorted_keys fs \<Longrightarrow> find_entry fs k = map_of fs k"
proof (induction fs)
  case (Cons e fs)
  show ?case
  proof (cases "Compare_string (fst e) k")
    case Ascending
    then have "fst e \<noteq> k" by auto
    then show ?thesis using Cons Ascending by (cases e) (simp add: find_entry_def)
  next
    case Same
    then show ?thesis by (cases e) (simp add: find_entry_def)
  next
    case Descending
    then have k: "Compare_string k (fst e) = Ascending" by (simp add: string_cmp.Descending_iff)
    then have "entries_above Compare_string (e # fs) k"
      using Cons.prems by (auto intro: string_cmp.entries_above_trans)
    from map_of_above[OF this] show ?thesis using Descending k by (simp add: find_entry_def)
  qed
qed (simp add: find_entry_def)

section \<open>The merge loop\<close>

text \<open>
  The loop skips a deleted key only when it is the next one in the list of deletes. It is correct
  when no missing key precedes a present one.
\<close>

definition deletes_in_order :: "string set \<Rightarrow> string list \<Rightarrow> bool" where
  "deletes_in_order keys ds \<longleftrightarrow> (\<exists>ds1 ds2. ds = ds1 @ ds2 \<and> set ds1 \<subseteq> keys \<and> set ds2 \<inter> keys = {})"

definition merged_get :: "fields \<Rightarrow> fields \<Rightarrow> string list \<Rightarrow> string \<Rightarrow> Value option" where
  "merged_get src ups ds k =
     (if k \<in> set ds then None
      else case map_of ups k of Some v \<Rightarrow> Some (SortFields v) | None \<Rightarrow> map_of src k)"

lemma deletes_in_order_tl:
  assumes "deletes_in_order (insert k keys) (k # ds)" "k \<notin> keys" "k \<notin> set ds"
  shows "deletes_in_order keys ds"
proof -
  obtain ds1 ds2 where d: "k # ds = ds1 @ ds2" "set ds1 \<subseteq> insert k keys" "set ds2 \<inter> insert k keys = {}"
    using assms(1) unfolding deletes_in_order_def by blast
  then obtain ds1' where "ds1 = k # ds1'" by (cases ds1) auto
  then show ?thesis using d assms(3) unfolding deletes_in_order_def
    by (intro exI[of _ ds1'] exI[of _ ds2]) auto
qed

lemma deletes_in_order_skip:
  assumes "deletes_in_order (insert k keys) ds" "k \<notin> set ds"
  shows "deletes_in_order keys ds"
  using assms unfolding deletes_in_order_def by (elim exE conjE) (intro exI conjI, auto)

lemma deletes_head:
  assumes "deletes_in_order (fst ` set (e # src)) ds" "ascending ds" "sorted_keys (e # src)"
    and "\<not> (ds \<noteq> [] \<and> hd ds = fst e)"
  shows "fst e \<notin> set ds"
proof
  assume mem: "fst e \<in> set ds"
  obtain ds1 ds2 where d: "ds = ds1 @ ds2" "set ds1 \<subseteq> fst ` set (e # src)" "set ds2 \<inter> fst ` set (e # src) = {}"
    using assms(1) unfolding deletes_in_order_def by blast
  then have "fst e \<in> set ds1" using mem by auto
  then obtain x xs where x: "ds1 = x # xs" by (cases ds1) auto
  then have "x \<noteq> fst e" using assms(4) d(1) by auto
  then have "Compare_string x (fst e) = Ascending" using assms(2) d(1) x \<open>fst e \<in> set ds1\<close> by auto
  moreover have "x \<in> fst ` set src" using d(2) x \<open>x \<noteq> fst e\<close> by auto
  then have "Compare_string (fst e) x = Ascending" using assms(3) by (auto simp: entries_above_def)
  ultimately show False using string_cmp.Ascending_asym by blast
qed

lemma key_neq: "k \<notin> fst ` set src \<Longrightarrow> x \<in> set src \<Longrightarrow> fst x \<noteq> k"
  by force

lemma size_of_union_cong:
  "(\<And>x. x \<in> set src \<Longrightarrow> (fst x \<notin> set ds \<and> fst x \<notin> fst ` set ups) = (fst x \<notin> set ds' \<and> fst x \<notin> fst ` set ups')) \<Longrightarrow>
   CalculateSizeOfUnion src ups ds + length ups' = CalculateSizeOfUnion src ups' ds' + length ups"
  by (simp add: CalculateSizeOfUnion_def cong: filter_cong)

lemma sorted_keys_bounded:
  assumes "sorted_keys out" "\<And>k. map_of out k \<noteq> None \<Longrightarrow> Compare_string x k = Ascending"
  shows "sorted_keys ((x, v) # out)"
  using assms by (force simp: entries_above_def weak_map_of_SomeI)

lemma merged_get_None_above:
  assumes "entries_above Compare_string src x" "entries_above Compare_string ups x" "merged_get src ups ds k \<noteq> None"
  shows "Compare_string x k = Ascending"
proof -
  have "k \<in> fst ` set src \<or> k \<in> fst ` set ups"
    using assms(3) by (auto simp: merged_get_def split: if_splits option.splits dest!: map_of_SomeD intro: rev_image_eqI)
  then show ?thesis using assms(1,2) by (auto simp: entries_above_def)
qed

definition merge_input :: "fields \<Rightarrow> fields \<Rightarrow> string list \<Rightarrow> bool" where
  "merge_input src ups ds \<longleftrightarrow> sorted_keys src \<and> sorted_keys ups \<and> ascending ds \<and>
     deletes_in_order (fst ` set src) ds \<and> set ds \<inter> fst ` set ups = {}"

definition merge_output :: "fields \<Rightarrow> fields \<Rightarrow> string list \<Rightarrow> fields \<Rightarrow> bool" where
  "merge_output src ups ds out \<longleftrightarrow> sorted_keys out \<and> (\<forall>k. map_of out k = merged_get src ups ds k)"

lemma merge_outputI:
  assumes "merge_output src' ups' ds out"
    and "entries_above Compare_string src' x" "entries_above Compare_string ups' x"
    and "merged_get src ups ds x = Some v"
    and "\<And>k. k \<noteq> x \<Longrightarrow> merged_get src ups ds k = merged_get src' ups' ds k"
  shows "merge_output src ups ds ((x, v) # out)"
  unfolding merge_output_def
proof
  show "sorted_keys ((x, v) # out)"
    using assms(1) merged_get_None_above[OF assms(2,3)]
    by (intro sorted_keys_bounded) (auto simp: merge_output_def)
  show "\<forall>k. map_of ((x, v) # out) k = merged_get src ups ds k"
    using assms(1,4,5) by (simp add: merge_output_def)
qed

lemma map_of_Cons_other: "k \<noteq> fst e \<Longrightarrow> map_of (e # es) k = map_of es k"
  by (cases e) simp

lemma merge_delete:
  assumes "merge_input (e # src) ups ds" "ds \<noteq> []" "hd ds = fst e"
  shows "merge_input src ups (tl ds)"
    and "CalculateSizeOfUnion src ups (tl ds) = CalculateSizeOfUnion (e # src) ups ds"
    and "merge_output src ups (tl ds) out \<Longrightarrow> merge_output (e # src) ups ds out"
proof -
  obtain ds' where ds: "ds = fst e # ds'" using assms(2,3) by (cases ds) auto
  have e: "fst e \<notin> fst ` set src" using assms(1) by (auto simp: merge_input_def dest: above_not_key)
  have d: "fst e \<notin> set ds'" using assms(1) ds by (auto simp: merge_input_def)
  have u: "fst e \<notin> fst ` set ups" using assms(1) ds by (auto simp: merge_input_def)
  show "merge_input src ups (tl ds)"
    using assms(1) ds deletes_in_order_tl[of "fst e" "fst ` set src" ds'] e d by (auto simp: merge_input_def)
  have "(fst x \<notin> set ds \<and> fst x \<notin> fst ` set ups) = (fst x \<notin> set ds' \<and> fst x \<notin> fst ` set ups)" if "x \<in> set src" for x
    using key_neq[OF e that] ds by auto
  from size_of_union_cong[OF this]
  have "CalculateSizeOfUnion src ups ds = CalculateSizeOfUnion src ups ds'" by simp
  then show "CalculateSizeOfUnion src ups (tl ds) = CalculateSizeOfUnion (e # src) ups ds"
    using ds by (simp add: CalculateSizeOfUnion_def)
  assume "merge_output src ups (tl ds) out"
  moreover have "merged_get (e # src) ups ds k = merged_get src ups ds' k" for k
    using d e u map_of_eq_None_iff[of ups "fst e"] map_of_eq_None_iff[of src "fst e"]
    by (cases "k = fst e") (auto simp: merged_get_def ds map_of_Cons_other split: option.split)
  ultimately show "merge_output (e # src) ups ds out" by (simp add: merge_output_def ds)
qed

lemma merge_keep:
  assumes "merge_input (e # src) ups ds" "fst e \<notin> set ds" "entries_above Compare_string ups (fst e)"
  shows "merge_input src ups ds"
    and "CalculateSizeOfUnion (e # src) ups ds = Suc (CalculateSizeOfUnion src ups ds)"
    and "merge_output src ups ds out \<Longrightarrow> merge_output (e # src) ups ds (e # out)"
proof -
  show "merge_input src ups ds"
    using assms(1,2) deletes_in_order_skip[of "fst e" "fst ` set src" ds] by (auto simp: merge_input_def)
  show "CalculateSizeOfUnion (e # src) ups ds = Suc (CalculateSizeOfUnion src ups ds)"
    using assms(2) above_not_key[OF assms(3)] by (simp add: CalculateSizeOfUnion_def)
  assume "merge_output src ups ds out"
  then have "merge_output (e # src) ups ds ((fst e, snd e) # out)"
    by (rule merge_outputI)
      (use assms in \<open>auto simp: merge_input_def merged_get_def map_of_above map_of_Cons_other split: option.splits\<close>)
  then show "merge_output (e # src) ups ds (e # out)" by simp
qed

lemma merge_replace:
  assumes "merge_input (e # src) (u # ups) ds" "fst u = fst e"
  shows "merge_input src ups ds"
    and "CalculateSizeOfUnion (e # src) (u # ups) ds = Suc (CalculateSizeOfUnion src ups ds)"
    and "merge_output src ups ds out \<Longrightarrow> merge_output (e # src) (u # ups) ds ((fst e, SortFields (snd u)) # out)"
proof -
  have d: "fst e \<notin> set ds" using assms by (auto simp: merge_input_def)
  show "merge_input src ups ds"
    using assms d deletes_in_order_skip[of "fst e" "fst ` set src" ds] by (auto simp: merge_input_def)
  have e: "fst e \<notin> fst ` set src" using assms(1) by (auto simp: merge_input_def dest: above_not_key)
  have "(fst x \<notin> set ds \<and> fst x \<notin> fst ` set (u # ups)) = (fst x \<notin> set ds \<and> fst x \<notin> fst ` set ups)" if "x \<in> set src" for x
    using key_neq[OF e that] assms(2) by auto
  from size_of_union_cong[OF this] show "CalculateSizeOfUnion (e # src) (u # ups) ds = Suc (CalculateSizeOfUnion src ups ds)"
    using assms(2) by (simp add: CalculateSizeOfUnion_def)
  assume "merge_output src ups ds out"
  then show "merge_output (e # src) (u # ups) ds ((fst e, SortFields (snd u)) # out)"
    by (rule merge_outputI)
      (use assms d in \<open>auto simp: merge_input_def merged_get_def map_of_Cons_other split: option.split\<close>)
qed

lemma merge_insert:
  assumes "merge_input src (u # ups) ds" "entries_above Compare_string src (fst u)"
  shows "merge_input src ups ds"
    and "CalculateSizeOfUnion src (u # ups) ds = Suc (CalculateSizeOfUnion src ups ds)"
    and "merge_output src ups ds out \<Longrightarrow> merge_output src (u # ups) ds ((fst u, SortFields (snd u)) # out)"
proof -
  show "merge_input src ups ds" using assms(1) by (auto simp: merge_input_def)
  have "(fst x \<notin> set ds \<and> fst x \<notin> fst ` set (u # ups)) = (fst x \<notin> set ds \<and> fst x \<notin> fst ` set ups)" if "x \<in> set src" for x
    using key_neq[OF above_not_key[OF assms(2)] that] by auto
  from size_of_union_cong[OF this] show "CalculateSizeOfUnion src (u # ups) ds = Suc (CalculateSizeOfUnion src ups ds)"
    by (simp add: CalculateSizeOfUnion_def)
  assume "merge_output src ups ds out"
  then show "merge_output src (u # ups) ds ((fst u, SortFields (snd u)) # out)"
    by (rule merge_outputI)
      (use assms in \<open>auto simp: merge_input_def merged_get_def map_of_Cons_other\<close>)
qed

lemma merge_done:
  assumes "CalculateSizeOfUnion src ups ds = 0"
  shows "merge_output src ups ds []"
proof -
  have "ups = []" "\<forall>e \<in> set src. fst e \<in> set ds"
    using assms by (auto simp: CalculateSizeOfUnion_def filter_empty_conv)
  then have "merged_get src ups ds k = None" for k
    by (auto simp: merged_get_def map_of_eq_None_iff)
  then show ?thesis by (simp add: merge_output_def)
qed

lemma apply_loop_correct:
  "merge_input src ups ds \<Longrightarrow> n = CalculateSizeOfUnion src ups ds \<Longrightarrow>
   \<exists>out. apply_loop n src ups ds = Inr out \<and> merge_output src ups ds out"
proof (induction n src ups ds rule: apply_loop.induct)
  case (1 source upserts deletes)
  then show ?case by (simp add: merge_done)
next
  case (2 n upserts deletes)
  then obtain u us where u: "upserts = u # us"
    by (cases upserts) (auto simp: CalculateSizeOfUnion_def)
  note s = merge_insert[OF 2(2)[unfolded u]]
  have "n = CalculateSizeOfUnion [] us deletes" using 2(3) s(2) u by simp
  from 2(1)[OF u s(1) this] show ?case using s(3) u by auto
next
  case (3 n e source upserts deletes)
  show ?case
  proof (cases "deletes \<noteq> [] \<and> hd deletes = fst e")
    case True
    note s = merge_delete[OF 3(6) conjunct1[OF True] conjunct2[OF True]]
    from 3(1)[OF True s(1)] obtain out
      where "apply_loop (Suc n) source upserts (tl deletes) = Inr out" "merge_output source upserts (tl deletes) out"
      using 3(7) s(2) by auto
    then show ?thesis using s(3) True by auto
  next
    case False
    have d: "fst e \<notin> set deletes"
      using deletes_head[OF _ _ _ False] 3(6) by (auto simp: merge_input_def)
    show ?thesis
    proof (cases upserts)
      case Nil
      note s = merge_keep[OF 3(6) d, unfolded Nil, simplified]
      from 3(2)[OF False Nil] 3(7) show ?thesis using s False Nil by auto
    next
      case (Cons u us)
      note input = 3(6)[unfolded Cons] and len = 3(7)[unfolded Cons]
      consider "fst u = fst e" | "fst u \<noteq> fst e" "Compare_string (fst u) (fst e) = Descending"
        | "fst u \<noteq> fst e" "Compare_string (fst u) (fst e) = Ascending"
        by (cases "Compare_string (fst u) (fst e)") auto
      then show ?thesis
      proof cases
        case 1
        note s = merge_replace[OF input 1]
        from 3(3)[OF False Cons 1 s(1)] len show ?thesis using s(2,3) False Cons 1 by auto
      next
        case 2
        then have "entries_above Compare_string (u # us) (fst e)"
          using input by (auto simp: merge_input_def string_cmp.Descending_iff intro: string_cmp.entries_above_trans)
        note s = merge_keep[OF input d this]
        from 3(4)[OF False Cons 2] len s(1) show ?thesis using s(2,3) False Cons 2 by auto
      next
        case 3
        then have "entries_above Compare_string (e # source) (fst u)"
          using input by (auto simp: merge_input_def intro: string_cmp.entries_above_trans)
        note s = merge_insert[OF input this]
        from "3.IH"(5)[OF False Cons] len s(1) show ?thesis using s(2,3) False Cons 3 by auto
      qed
    qed
  qed
qed

lemma ApplyChanges_correct:
  "merge_input src ups ds \<Longrightarrow> \<exists>out. ApplyChanges src ups ds = Inr out \<and> merge_output src ups ds out"
  using apply_loop_correct[of src ups ds] by (simp add: ApplyChanges_def)

section \<open>The invariant of object values\<close>

text \<open>Every map inside the value, at any depth, is strictly sorted by key.\<close>

fun sorted_value :: "Value \<Rightarrow> bool" where
  "sorted_value (Map_value fs) \<longleftrightarrow> sorted_keys fs \<and> (\<forall>f \<in> set fs. sorted_value (snd f))"
| "sorted_value (Array_value vs) \<longleftrightarrow> (\<forall>v \<in> set vs. sorted_value v)"
| "sorted_value _ \<longleftrightarrow> True"

definition object_ok :: "ObjectValue \<Rightarrow> bool" where
  "object_ok object \<longleftrightarrow> sorted_value (Map_value object)"

lemma SortFields_sorted: "unique_keys v \<Longrightarrow> sorted_value (SortFields v)"
proof (induction v rule: SortFields.induct)
  case (1 fs)
  have "sorted_value v" if v: "(k, v) \<in> set (sorted_fields fs)" for k v
  proof -
    obtain w where w: "(k, w) \<in> set fs" "v = SortFields w" using v by (auto simp: in_sorted_fields)
    then show ?thesis using 1(1)[of "(k, w)"] 1(2) by force
  qed
  then show ?case
    using sorted_sorted_fields[of fs] 1(2) by (auto simp only: SortFields_Map sorted_value.simps unique_keys.simps snd_conv)
qed auto

lemma map_at_sorted: "sorted_value v \<Longrightarrow> sorted_value (Map_value (map_fields v))"
  by (cases v) (auto simp: sorted_entries_def)

lemma sorted_value_entry: "sorted_value (Map_value fs) \<Longrightarrow> map_of fs k = Some v \<Longrightarrow> sorted_value v"
  by (force dest!: map_of_SomeD)

lemma sorted_value_mapI:
  "sorted_keys fs \<Longrightarrow> (\<And>k v. map_of fs k = Some v \<Longrightarrow> sorted_value v) \<Longrightarrow> sorted_value (Map_value fs)"
  using sorted_keys_distinct[of fs] by (force simp: map_of_eq_Some_iff)

lemma merge_output_sorted:
  assumes "merge_output src ups ds out" "sorted_value (Map_value src)" "\<forall>f \<in> set ups. unique_keys (snd f)"
  shows "sorted_value (Map_value out)"
proof (rule sorted_value_mapI)
  show "sorted_keys out" using assms(1) by (simp add: merge_output_def)
  fix k v assume "map_of out k = Some v"
  then have "merged_get src ups ds k = Some v" using assms(1) by (simp add: merge_output_def)
  then show "sorted_value v"
    using assms(2,3) sorted_value_entry[of src k v] SortFields_sorted
    by (auto simp: merged_get_def split: if_splits option.splits dest!: map_of_SomeD)
qed

section \<open>Reading below a path\<close>

definition comparable :: "FieldPath \<Rightarrow> FieldPath \<Rightarrow> bool" where
  "comparable p q \<longleftrightarrow> IsPrefixOf p q \<or> IsPrefixOf q p"

lemma IsPrefixOf_iff: "IsPrefixOf p q \<longleftrightarrow> (\<exists>r. q = p @ r)"
  unfolding IsPrefixOf_def by (metis append_eq_conv_conj append_take_drop_id length_append le_add1)

lemma comparable_Cons [simp]:
  "comparable [] q" "comparable q []" "comparable (a # p) (b # q) \<longleftrightarrow> a = b \<and> comparable p q"
  by (auto simp: comparable_def IsPrefixOf_def)

lemma comparable_append: "comparable (p @ r) q \<Longrightarrow> comparable p q"
proof (induction p arbitrary: q)
  case (Cons a p)
  then show ?case by (cases q) auto
qed simp

lemma comparable_sym: "comparable p q \<longleftrightarrow> comparable q p"
  by (auto simp: comparable_def)

definition map_at :: "ObjectValue \<Rightarrow> FieldPath \<Rightarrow> fields" where
  "map_at object p = (case ObjectValue_Get object p of Some v \<Rightarrow> map_fields v | None \<Rightarrow> [])"

lemma Get_walk_append:
  "Get_walk v (p @ q) = (case Get_walk v p of None \<Rightarrow> None | Some w \<Rightarrow> Get_walk w q)"
  by (induction p arbitrary: v) (auto split: option.splits)

lemma FindEntry_map_fields: "FindEntry v s = find_entry (map_fields v) s"
  by (cases v) (simp_all add: find_entry_def)

lemma FindEntry_sorted: "sorted_value v \<Longrightarrow> FindEntry v s = map_of (map_fields v) s"
  using map_at_sorted[of v] by (simp add: FindEntry_map_fields find_entry_map_of)

lemma Get_Nil [simp]: "ObjectValue_Get object [] = Some (Map_value object)"
  by (simp add: ObjectValue_Get_def)

lemma Get_Cons:
  "object_ok object \<Longrightarrow> ObjectValue_Get object (s # p) =
     (case map_of object s of None \<Rightarrow> None | Some v \<Rightarrow> Get_walk v p)"
  by (simp add: ObjectValue_Get_def find_entry_map_of object_ok_def)

lemma Get_empty: "p \<noteq> [] \<Longrightarrow> ObjectValue_Get [] p = None"
  by (cases p) (simp_all add: ObjectValue_Get_def find_entry_def)

lemma Get_below:
  "q \<noteq> [] \<Longrightarrow> ObjectValue_Get object (p @ q) = ObjectValue_Get (map_at object p) q"
  by (cases q)
    (auto simp: ObjectValue_Get_def map_at_def Get_walk_append FindEntry_map_fields find_entry_def split: option.splits)

lemma Get_walk_sorted: "sorted_value v \<Longrightarrow> Get_walk v p = Some w \<Longrightarrow> sorted_value w"
proof (induction p arbitrary: v)
  case (Cons s p)
  then show ?case
    using map_at_sorted[of v] sorted_value_entry[of "map_fields v" s] by (force simp: FindEntry_sorted split: option.splits)
qed simp

lemma object_ok_map_at: "object_ok object \<Longrightarrow> object_ok (map_at object p)"
proof -
  assume "object_ok object"
  then have "sorted_value w" if "Get_walk (Map_value object) p = Some w" for w
    using Get_walk_sorted that by (simp only: object_ok_def)
  then show ?thesis
    using map_at_sorted[of "the (Get_walk (Map_value object) p)"]
    by (cases "Get_walk (Map_value object) p") (simp_all add: map_at_def object_ok_def ObjectValue_Get_def sorted_entries_def)
qed

lemma map_at_Nil [simp]: "map_at object [] = object"
  by (simp add: map_at_def)

lemma map_of_write_entry:
  "map_of (write_entry fs s v) k = (if k = s then map_option (\<lambda>_. v) (map_of fs s) else map_of fs k)"
  by (induction fs) (auto simp: write_entry_def)

lemma sorted_write_entry: "sorted_keys fs \<Longrightarrow> sorted_keys (write_entry fs s v)"
  by (induction fs) (auto simp: write_entry_def entries_above_def sorted_entries_def)

lemma object_ok_write_entry:
  assumes "object_ok fs" "sorted_value v"
  shows "object_ok (write_entry fs s v)"
  unfolding object_ok_def
proof (rule sorted_value_mapI)
  show "sorted_keys (write_entry fs s v)" using assms(1) by (simp add: object_ok_def sorted_write_entry)
  show "map_of (write_entry fs s v) k = Some w \<Longrightarrow> sorted_value w" for k w
    using assms sorted_value_entry[of fs k w] by (auto simp: map_of_write_entry object_ok_def split: if_splits)
qed

section \<open>Editing below a path\<close>

definition edits :: "ObjectValue \<Rightarrow> FieldPath \<Rightarrow> fields \<Rightarrow> ObjectValue \<Rightarrow> bool" where
  "edits object parent out object' \<longleftrightarrow>
     object_ok object' \<and> ObjectValue_Get object' parent = Some (Map_value out) \<and>
     (\<forall>q. \<not> comparable parent q \<longrightarrow> ObjectValue_Get object' q = ObjectValue_Get object q)"

lemma insert_one:
  assumes "object_ok fs"
  obtains out where "ApplyChanges fs [(s, v)] [] = Inr out" "merge_output fs [(s, v)] [] out"
  using ApplyChanges_correct[of fs "[(s, v)]" "[]"] assms
  by (auto simp: merge_input_def object_ok_def sorted_entries_def deletes_in_order_def)

lemma edits_write_entry:
  assumes "object_ok object" "object_ok object1"
    and other: "\<And>k. k \<noteq> s \<Longrightarrow> map_of object1 k = map_of object k" and "map_of object1 s \<noteq> None"
    and inner: "edits nested parent out fs"
    and nested: "\<And>r. r \<noteq> [] \<Longrightarrow> ObjectValue_Get object (s # r) = ObjectValue_Get nested r"
  shows "edits object (s # parent) out (write_entry object1 s (Map_value fs))"
proof -
  let ?o = "write_entry object1 s (Map_value fs)"
  have fs: "object_ok fs" using inner by (simp add: edits_def)
  have ok: "object_ok ?o" using fs by (intro object_ok_write_entry[OF assms(2)]) (simp add: object_ok_def)
  have get: "ObjectValue_Get ?o (s # r) = ObjectValue_Get fs r" for r
    using assms(4) unfolding Get_Cons[OF ok] by (auto simp: map_of_write_entry ObjectValue_Get_def)
  have "ObjectValue_Get ?o q = ObjectValue_Get object q" if q: "\<not> comparable (s # parent) q" for q
  proof -
    obtain t r where t: "q = t # r" using q by (cases q) auto
    show ?thesis
    proof (cases "t = s")
      case True
      then have "\<not> comparable parent r" "r \<noteq> []" using q t by auto
      then show ?thesis using get[of r] nested[of r] inner t True by (simp add: edits_def)
    next
      case False
      then show ?thesis
        using other t by (simp add: Get_Cons[OF ok] Get_Cons[OF assms(1)] map_of_write_entry)
    qed
  qed
  then show ?thesis using ok get[of parent] inner by (simp add: edits_def)
qed

lemma edit_ParentMap_correct:
  assumes "object_ok object" "\<And>fs. object_ok fs \<Longrightarrow> \<exists>out. edit fs = Inr out \<and> object_ok out"
  shows "\<exists>object' out. edit_ParentMap object parent edit = Inr object' \<and>
           edit (map_at object parent) = Inr out \<and> edits object parent out object'"
  using assms(1)
proof (induction parent arbitrary: object)
  case Nil
  then show ?case using assms(2)[of object] by (auto simp: edits_def)
next
  case (Cons s parent)
  have f: "find_entry object s = map_of object s"
    using Cons.prems by (simp add: find_entry_map_of object_ok_def)
  show ?case
  proof (cases "map_of object s")
    case None
    obtain object1 where o1: "ApplyChanges object [(s, Map_value [])] [] = Inr object1"
      "merge_output object [(s, Map_value [])] [] object1" using insert_one[OF Cons.prems] by blast
    have "object_ok object1"
      using merge_output_sorted[OF o1(2)] Cons.prems by (simp add: object_ok_def)
    moreover obtain fs out where fs: "edit_ParentMap [] parent edit = Inr fs"
      "edit (map_at [] parent) = Inr out" "edits [] parent out fs"
      using Cons.IH[of "[]"] by (auto simp: object_ok_def sorted_entries_def)
    ultimately have "edits object (s # parent) out (write_entry object1 s (Map_value fs))"
      using o1(2) Cons.prems None
      by (intro edits_write_entry[OF _ _ _ _ fs(3)])
        (auto simp: merge_output_def merged_get_def Get_Cons Get_empty)
    moreover have "map_at object (s # parent) = map_at [] parent"
      using None by (cases parent) (simp_all add: map_at_def Get_Cons[OF Cons.prems] Get_empty)
    ultimately show ?thesis using o1(1) fs f None by simp
  next
    case (Some entry)
    let ?nested = "if IsMap (Some entry) then map_fields entry else []"
    have nested: "?nested = map_fields entry" by (cases entry) auto
    have "sorted_value entry" using sorted_value_entry[OF _ Some] Cons.prems by (simp add: object_ok_def)
    then have "object_ok ?nested" using map_at_sorted nested by (simp add: object_ok_def)
    then obtain fs out where fs: "edit_ParentMap ?nested parent edit = Inr fs"
      "edit (map_at ?nested parent) = Inr out" "edits ?nested parent out fs"
      using Cons.IH by blast
    have get: "ObjectValue_Get object (s # r) = ObjectValue_Get ?nested r" if "r \<noteq> []" for r
      using Get_below[OF that, of object "[s]"] Some nested
      by (simp add: map_at_def Get_Cons[OF Cons.prems])
    have "edits object (s # parent) out (write_entry object s (Map_value fs))"
      using Some Cons.prems get by (intro edits_write_entry[OF _ _ _ _ fs(3)]) auto
    moreover have "map_at object (s # parent) = map_at ?nested parent"
      using nested Some get by (cases "parent = []") (simp_all add: map_at_def Get_Cons[OF Cons.prems])
    ultimately show ?thesis using fs f Some by simp
  qed
qed

section \<open>Applying a set of changes\<close>

text \<open>
  What an update promises: below every written path the object holds the written value, below every
  deleted path nothing, and a path that is comparable with none of them reads as before.
\<close>

definition written :: "Value option \<Rightarrow> FieldPath \<Rightarrow> Value option" where
  "written x q = (case x of None \<Rightarrow> None | Some v \<Rightarrow> Get_walk (SortFields v) q)"

definition applied :: "ObjectValue \<Rightarrow> ObjectValue \<Rightarrow> (FieldPath \<times> Value option) set \<Rightarrow> bool" where
  "applied object object' changes \<longleftrightarrow>
     (\<forall>p x q. (p, x) \<in> changes \<longrightarrow> ObjectValue_Get object' (p @ q) = written x q) \<and>
     (\<forall>q. q \<noteq> [] \<longrightarrow> (\<forall>p x. (p, x) \<in> changes \<longrightarrow> \<not> comparable p q) \<longrightarrow>
        ObjectValue_Get object' q = ObjectValue_Get object q)"

definition group_changes :: "FieldPath \<Rightarrow> fields \<Rightarrow> string list \<Rightarrow> (FieldPath \<times> Value option) set" where
  "group_changes parent ups ds = (\<lambda>u. (parent @ [fst u], Some (snd u))) ` set ups \<union> (\<lambda>d. (parent @ [d], None)) ` set ds"

lemma appliedI:
  assumes "\<And>p x q. (p, x) \<in> changes \<Longrightarrow> ObjectValue_Get object' (p @ q) = written x q"
    and "\<And>q. q \<noteq> [] \<Longrightarrow> (\<And>p x. (p, x) \<in> changes \<Longrightarrow> \<not> comparable p q) \<Longrightarrow>
          ObjectValue_Get object' q = ObjectValue_Get object q"
  shows "applied object object' changes"
  using assms unfolding applied_def by blast

lemma applied_written:
  "applied object object' changes \<Longrightarrow> (p, x) \<in> changes \<Longrightarrow> ObjectValue_Get object' (p @ q) = written x q"
  unfolding applied_def by blast

lemma applied_other:
  "applied object object' changes \<Longrightarrow> q \<noteq> [] \<Longrightarrow> (\<And>p x. (p, x) \<in> changes \<Longrightarrow> \<not> comparable p q) \<Longrightarrow>
   ObjectValue_Get object' q = ObjectValue_Get object q"
  unfolding applied_def by blast

lemma applied_single:
  assumes "applied object object' {(p, x)}" "\<not> comparable p q"
  shows "ObjectValue_Get object' q = ObjectValue_Get object q"
  using assms(2) by (intro applied_other[OF assms(1)]) auto

lemma applied_trans:
  assumes "applied o0 o1 A" "applied o1 o2 B"
    and disjoint: "\<And>p x p' x'. (p, x) \<in> A \<Longrightarrow> (p', x') \<in> B \<Longrightarrow> \<not> comparable p p'"
    and nonempty: "\<And>p x. (p, x) \<in> A \<Longrightarrow> p \<noteq> []"
  shows "applied o0 o2 (A \<union> B)"
proof (rule appliedI)
  fix p x q assume mem: "(p, x) \<in> A \<union> B"
  show "ObjectValue_Get o2 (p @ q) = written x q"
  proof (cases "(p, x) \<in> B")
    case True
    with assms(2) show ?thesis by (rule applied_written)
  next
    case False
    then have A: "(p, x) \<in> A" using mem by simp
    have "ObjectValue_Get o2 (p @ q) = ObjectValue_Get o1 (p @ q)"
      using assms(2)
    proof (rule applied_other)
      show "p @ q \<noteq> []" using nonempty[OF A] by simp
      show "\<not> comparable p' (p @ q)" if "(p', x') \<in> B" for p' x'
        using disjoint[OF A that] comparable_append comparable_sym by blast
    qed
    then show ?thesis using applied_written[OF assms(1) A] by simp
  qed
next
  fix q :: FieldPath assume "q \<noteq> []" and other: "\<And>p x. (p, x) \<in> A \<union> B \<Longrightarrow> \<not> comparable p q"
  have "ObjectValue_Get o2 q = ObjectValue_Get o1 q"
    using other by (intro applied_other[OF assms(2) \<open>q \<noteq> []\<close>]) blast
  also have "\<dots> = ObjectValue_Get o0 q"
    using other by (intro applied_other[OF assms(1) \<open>q \<noteq> []\<close>]) blast
  finally show "ObjectValue_Get o2 q = ObjectValue_Get o0 q" .
qed

lemma merge_applied:
  assumes "object_ok src" "object_ok out" "merge_output src ups ds out" "sorted_keys ups" "set ds \<inter> fst ` set ups = {}"
  shows "applied src out (group_changes [] ups ds)"
proof (rule appliedI)
  have m: "map_of out k = merged_get src ups ds k" for k using assms(3) by (simp add: merge_output_def)
  fix p x q assume "(p, x) \<in> group_changes [] ups ds"
  then consider u where "u \<in> set ups" "p = [fst u]" "x = Some (snd u)" | d where "d \<in> set ds" "p = [d]" "x = None"
    unfolding group_changes_def by auto
  then show "ObjectValue_Get out (p @ q) = written x q"
  proof cases
    case 1
    then have "map_of ups (fst u) = Some (snd u)" "fst u \<notin> set ds"
      using sorted_keys_distinct[OF assms(4)] assms(5) by auto
    then show ?thesis using 1 by (simp add: Get_Cons[OF assms(2)] m merged_get_def written_def)
  next
    case 2
    then show ?thesis by (simp add: Get_Cons[OF assms(2)] m merged_get_def written_def)
  qed
next
  have m: "map_of out k = merged_get src ups ds k" for k using assms(3) by (simp add: merge_output_def)
  fix q :: FieldPath assume "q \<noteq> []" and other: "\<And>p x. (p, x) \<in> group_changes [] ups ds \<Longrightarrow> \<not> comparable p q"
  then obtain k r where q: "q = k # r" by (cases q) auto
  have "k \<notin> set ds" using other[of "[k]" None] q by (auto simp: group_changes_def)
  moreover have "fst u \<noteq> k" if "u \<in> set ups" for u
    using other[of "[fst u]" "Some (snd u)"] that q by (auto simp: group_changes_def)
  then have "k \<notin> fst ` set ups" by blast
  ultimately have "map_of out k = map_of src k" by (simp add: m merged_get_def map_of_eq_None_iff[THEN iffD2])
  then show "ObjectValue_Get out q = ObjectValue_Get src q"
    by (simp add: q Get_Cons[OF assms(1)] Get_Cons[OF assms(2)])
qed

lemma group_below:
  "(p, x) \<in> group_changes parent ups ds \<longleftrightarrow> (\<exists>p'. p = parent @ p' \<and> (p', x) \<in> group_changes [] ups ds)"
  unfolding group_changes_def by auto

lemma comparable_same_prefix: "comparable (r @ p) (r @ q) \<longleftrightarrow> comparable p q"
  by (induction r) simp_all

lemma edits_applied:
  assumes "edits object parent out object'" "applied (map_at object parent) out (group_changes [] ups ds)"
    and "parent = [] \<or> ups \<noteq> [] \<or> ds \<noteq> []"
  shows "applied object object' (group_changes parent ups ds)"
proof (rule appliedI)
  have out: "map_at object' parent = out" using assms(1) by (simp add: edits_def map_at_def)
  fix p x q assume "(p, x) \<in> group_changes parent ups ds"
  then obtain p' where p': "p = parent @ p'" "(p', x) \<in> group_changes [] ups ds" by (auto simp: group_below[of p])
  then have "p' \<noteq> []" by (auto simp: group_changes_def)
  then have "ObjectValue_Get object' (p @ q) = ObjectValue_Get out (p' @ q)"
    using Get_below[of "p' @ q" object' parent] p'(1) out by simp
  then show "ObjectValue_Get object' (p @ q) = written x q"
    using applied_written[OF assms(2) p'(2)] by simp
next
  have out: "map_at object' parent = out" using assms(1) by (simp add: edits_def map_at_def)
  fix q :: FieldPath assume "q \<noteq> []" and other: "\<And>p x. (p, x) \<in> group_changes parent ups ds \<Longrightarrow> \<not> comparable p q"
  show "ObjectValue_Get object' q = ObjectValue_Get object q"
  proof (cases "comparable parent q")
    case False
    then show ?thesis using assms(1) by (simp add: edits_def)
  next
    case True
    have "\<exists>r. q = parent @ r \<and> r \<noteq> []"
    proof (cases "parent = []")
      case False
      then obtain p' x where "(p', x) \<in> group_changes [] ups ds" using assms(3)
        unfolding group_changes_def by (cases ups; cases ds) auto
      then have "\<not> comparable (parent @ p') q" using other group_below by blast
      then show ?thesis using True
        unfolding comparable_def IsPrefixOf_iff by (metis append.assoc append_Nil2)
    qed (use \<open>q \<noteq> []\<close> in simp)
    then obtain r where r: "q = parent @ r" "r \<noteq> []" by blast
    have "ObjectValue_Get out r = ObjectValue_Get (map_at object parent) r"
      using assms(2) r(2)
    proof (rule applied_other)
      fix p x assume "(p, x) \<in> group_changes [] ups ds"
      then have "\<not> comparable (parent @ p) q" using other group_below by blast
      then show "\<not> comparable p r" using r(1) comparable_same_prefix by blast
    qed
    then show ?thesis using Get_below[OF r(2)] r(1) out by simp
  qed
qed

text \<open>The changes one call of \<^verbatim>\<open>ApplyChanges\<close> can carry out.\<close>

definition group_ok :: "fields \<Rightarrow> string list \<Rightarrow> bool" where
  "group_ok ups ds \<longleftrightarrow> sorted_keys ups \<and> length ds \<le> 1 \<and> set ds \<inter> fst ` set ups = {} \<and>
     (\<forall>f \<in> set ups. unique_keys (snd f))"

lemma deletes_in_order_single: "length ds \<le> 1 \<Longrightarrow> deletes_in_order keys ds"
proof -
  assume "length ds \<le> 1"
  then consider "ds = []" | d where "ds = [d]" by (cases ds) auto
  then show ?thesis
  proof cases
    case (2 d)
    then show ?thesis unfolding deletes_in_order_def
      by (cases "d \<in> keys") (rule exI[of _ "[d]"], simp, rule exI[of _ "[]"], simp)
  qed (simp add: deletes_in_order_def)
qed

lemma ApplyChanges_group:
  assumes "object_ok fs" "group_ok ups ds"
  shows "\<exists>out. ApplyChanges fs ups ds = Inr out \<and> object_ok out \<and> merge_output fs ups ds out"
proof -
  have "ascending ds" using assms(2) by (cases ds) (auto simp: group_ok_def)
  then have "merge_input fs ups ds"
    using assms deletes_in_order_single[of ds] by (simp add: merge_input_def group_ok_def object_ok_def)
  then obtain out where "ApplyChanges fs ups ds = Inr out" "merge_output fs ups ds out"
    using ApplyChanges_correct by blast
  moreover from this(2) have "object_ok out"
    using merge_output_sorted[of fs ups ds out] assms unfolding group_ok_def object_ok_def by blast
  ultimately show ?thesis by blast
qed

lemma edit_group:
  assumes "object_ok object" "group_ok ups ds" "parent = [] \<or> ups \<noteq> [] \<or> ds \<noteq> []"
  shows "\<exists>object'. edit_ParentMap object parent (\<lambda>fs. ApplyChanges fs ups ds) = Inr object' \<and>
           object_ok object' \<and> applied object object' (group_changes parent ups ds)"
proof -
  have "\<exists>out. ApplyChanges fs ups ds = Inr out \<and> object_ok out" if "object_ok fs" for fs
    using ApplyChanges_group[OF that assms(2)] by blast
  from edit_ParentMap_correct[OF assms(1), where edit = "\<lambda>fs. ApplyChanges fs ups ds", OF this]
  obtain object' out where o: "edit_ParentMap object parent (\<lambda>fs. ApplyChanges fs ups ds) = Inr object'"
    "ApplyChanges (map_at object parent) ups ds = Inr out" "edits object parent out object'" by blast
  have at: "object_ok (map_at object parent)" using object_ok_map_at[OF assms(1)] .
  from ApplyChanges_group[OF at assms(2)] o(2)
  have out: "object_ok out" "merge_output (map_at object parent) ups ds out" by auto
  have "applied (map_at object parent) out (group_changes [] ups ds)"
    using merge_applied[OF at out] assms(2) by (simp add: group_ok_def)
  from edits_applied[OF o(3) this assms(3)] show ?thesis using o(1,3) by (auto simp: edits_def)
qed

section \<open>Setting many fields\<close>

text \<open>
  The changes \<^verbatim>\<open>SetAll\<close> is specified for: no path is above another one, and no map loses two
  fields.
\<close>

definition independent :: "FieldPath \<times> Value option \<Rightarrow> FieldPath \<times> Value option \<Rightarrow> bool" where
  "independent c d \<longleftrightarrow> \<not> comparable (fst c) (fst d) \<and>
     (snd c = None \<longrightarrow> snd d = None \<longrightarrow> butlast (fst c) \<noteq> butlast (fst d))"

fun change_ok :: "FieldPath \<times> Value option \<Rightarrow> bool" where
  "change_ok (p, x) \<longleftrightarrow> p \<noteq> [] \<and> (case x of None \<Rightarrow> True | Some v \<Rightarrow> unique_keys v)"

definition changes_ok :: "TransformMap \<Rightarrow> bool" where
  "changes_ok data \<longleftrightarrow> list_all change_ok data \<and> sorted_wrt independent data"

lemma PopLast_butlast: "p \<noteq> [] \<Longrightarrow> PopLast p = Inr (butlast p)"
  by (simp add: PopLast_def butlast_conv_take)

lemma last_segment_last: "p \<noteq> [] \<Longrightarrow> last_segment p = Inr (last p)"
  by (simp add: last_segment_def last_conv_nth)

lemma IsImmediateParentOf_butlast:
  assumes "path \<noteq> []" "IsImmediateParentOf parent path"
  shows "butlast path = parent"
proof -
  have "length parent = length path - 1" "parent = take (length parent) path"
    using assms by (auto simp: IsImmediateParentOf_def)
  then show ?thesis by (simp add: butlast_conv_take)
qed

context strong_comparator
begin

lemma map_assign_entries:
  assumes "sorted_entries cmp es"
  shows "set (map_assign cmp s v es) = insert (s, v) {e \<in> set es. fst e \<noteq> s} \<and> sorted_entries cmp (map_assign cmp s v es)"
  using assms
proof (induction es)
  case Nil
  then show ?case by (simp add: sorted_entries_def)
next
  case (Cons e es)
  have es: "e' \<in> set es \<Longrightarrow> cmp (fst e) (fst e') = Ascending" for e'
    using Cons.prems by (auto simp: entries_above_def)
  show ?case
  proof (cases "cmp s (fst e)")
    case Ascending
    then have above: "entries_above cmp (e # es) s" using Cons.prems by (auto intro: entries_above_trans)
    then have "fst e' \<noteq> s" if "e' \<in> set (e # es)" for e'
      using that by (auto simp: entries_above_def)
    then show ?thesis using Ascending Cons.prems above by auto
  next
    case Same
    then have "fst e' \<noteq> s" if "e' \<in> set es" for e' using es[OF that] by auto
    then show ?thesis using Same Cons.prems by (auto simp: entries_above_def)
  next
    case Descending
    then have d: "cmp (fst e) s = Ascending" "fst e \<noteq> s" by (auto simp: Descending_iff)
    moreover have "entries_above cmp (map_assign cmp s v es) (fst e)"
      using Cons d(1) es by (auto simp: entries_above_def)
    ultimately show ?thesis using Cons Descending by auto
  qed
qed

lemma map_assign_new:
  assumes "sorted_entries cmp es" "s \<notin> fst ` set es"
  shows "sorted_entries cmp (map_assign cmp s v es)" "set (map_assign cmp s v es) = insert (s, v) (set es)"
  using map_assign_entries[OF assms(1), of s v] assms(2) by auto

lemma set_set_insert: "set (set_insert cmp x ys) = insert x (set ys)"
  by (induction ys) (auto split: ComparisonResult.splits)

lemma set_fold_set_insert: "set (fold (set_insert cmp) xs ys) = set xs \<union> set ys"
  by (induction xs arbitrary: ys) (auto simp: set_set_insert)

end

lemma add_change:
  assumes "group_ok ups ds" "change_ok (parent @ [s], x)"
    and new: "\<And>c. c \<in> group_changes parent ups ds \<Longrightarrow> independent c (parent @ [s], x)"
  shows "group_ok (case x of Some v \<Rightarrow> map_assign Compare_string s v ups | None \<Rightarrow> ups)
           (case x of Some v \<Rightarrow> ds | None \<Rightarrow> set_insert Compare_string s ds)"
    and "group_changes parent (case x of Some v \<Rightarrow> map_assign Compare_string s v ups | None \<Rightarrow> ups)
           (case x of Some v \<Rightarrow> ds | None \<Rightarrow> set_insert Compare_string s ds) = insert (parent @ [s], x) (group_changes parent ups ds)"
proof -
  have "fst u \<noteq> s" if "u \<in> set ups" for u
    using new[of "(parent @ [fst u], Some (snd u))"] that
    by (auto simp: group_changes_def independent_def comparable_same_prefix)
  then have u: "s \<notin> fst ` set ups" by blast
  have d: "d \<noteq> s \<and> x \<noteq> None" if "d \<in> set ds" for d
    using new[of "(parent @ [d], None)"] that by (auto simp: group_changes_def independent_def comparable_same_prefix)
  have "group_ok (case x of Some v \<Rightarrow> map_assign Compare_string s v ups | None \<Rightarrow> ups)
      (case x of Some v \<Rightarrow> ds | None \<Rightarrow> set_insert Compare_string s ds) \<and>
    group_changes parent (case x of Some v \<Rightarrow> map_assign Compare_string s v ups | None \<Rightarrow> ups)
      (case x of Some v \<Rightarrow> ds | None \<Rightarrow> set_insert Compare_string s ds) = insert (parent @ [s], x) (group_changes parent ups ds)"
  proof (cases x)
    case None
    then have "ds = []" using d by (cases ds) auto
    then show ?thesis using None u assms(1) by (auto simp: group_ok_def group_changes_def)
  next
    case (Some v)
    have "s \<notin> set ds" using d by auto
    then show ?thesis
      using string_cmp.map_assign_new[OF _ u, of v] assms(1,2) Some by (auto simp: group_ok_def group_changes_def)
  qed
  then show "group_ok (case x of Some v \<Rightarrow> map_assign Compare_string s v ups | None \<Rightarrow> ups)
      (case x of Some v \<Rightarrow> ds | None \<Rightarrow> set_insert Compare_string s ds)"
    "group_changes parent (case x of Some v \<Rightarrow> map_assign Compare_string s v ups | None \<Rightarrow> ups)
      (case x of Some v \<Rightarrow> ds | None \<Rightarrow> set_insert Compare_string s ds) = insert (parent @ [s], x) (group_changes parent ups ds)"
    by auto
qed

lemma SetAll_loop_correct:
  assumes "object_ok object" "group_ok ups ds" "parent = [] \<or> ups \<noteq> [] \<or> ds \<noteq> []" "changes_ok data"
    and "\<And>c d. c \<in> group_changes parent ups ds \<Longrightarrow> d \<in> set data \<Longrightarrow> independent c d"
  shows "\<exists>object'. SetAll_loop data parent ups ds object = Inr object' \<and> object_ok object' \<and>
           applied object object' (group_changes parent ups ds \<union> set data)"
  using assms
proof (induction data arbitrary: parent ups ds object)
  case Nil
  then show ?case using edit_group by simp
next
  case (Cons c data)
  obtain path x where c: "c = (path, x)" by (cases c)
  have path: "path \<noteq> []" and ok: "change_ok c" using Cons.prems(4) c by (auto simp: changes_ok_def)
  have rest: "changes_ok data" "\<And>d. d \<in> set data \<Longrightarrow> independent c d"
    using Cons.prems(4) by (auto simp: changes_ok_def)
  have split: "path = butlast path @ [last path]" using path by simp
  let ?ups = "\<lambda>us. case x of Some v \<Rightarrow> map_assign Compare_string (last path) v us | None \<Rightarrow> us"
  let ?ds = "\<lambda>ds. case x of Some v \<Rightarrow> ds | None \<Rightarrow> set_insert Compare_string (last path) ds"
  have step: "\<exists>object'. SetAll_loop data (butlast path) (?ups us) (?ds es) o1 = Inr object' \<and> object_ok object' \<and>
      applied o1 object' (insert c (group_changes (butlast path) us es) \<union> set data)"
    if o1: "object_ok o1" "group_ok us es"
      and new: "\<And>e d. e \<in> group_changes (butlast path) us es \<Longrightarrow> d \<in> set (c # data) \<Longrightarrow> independent e d" for o1 us es
  proof -
    have chg: "change_ok (butlast path @ [last path], x)" using ok c split by simp
    have ind: "independent e (butlast path @ [last path], x)" if "e \<in> group_changes (butlast path) us es" for e
      using new[OF that, of c] c split by simp
    have g: "group_ok (?ups us) (?ds es)"
      "group_changes (butlast path) (?ups us) (?ds es) = insert c (group_changes (butlast path) us es)"
      using add_change[OF o1(2) chg ind] split c by simp_all
    then have ne: "butlast path = [] \<or> ?ups us \<noteq> [] \<or> ?ds es \<noteq> []" unfolding group_changes_def by auto
    have "independent e d" if "e \<in> group_changes (butlast path) (?ups us) (?ds es)" "d \<in> set data" for e d
      using that new[of e d] rest(2)[of d] unfolding g(2) by auto
    from Cons.IH[OF o1(1) g(1) ne rest(1) this] show ?thesis unfolding g(2) .
  qed
  show ?case
  proof (cases "IsImmediateParentOf parent path")
    case True
    then have "butlast path = parent" using IsImmediateParentOf_butlast path by blast
    then show ?thesis
      using step[OF Cons.prems(1,2)] Cons.prems(5) True c path
      by (auto simp: last_segment_last split: option.split)
  next
    case False
    obtain o1 where o1: "edit_ParentMap object parent (\<lambda>fs. ApplyChanges fs ups ds) = Inr o1"
      "object_ok o1" "applied object o1 (group_changes parent ups ds)"
      using edit_group[OF Cons.prems(1,2,3)] by blast
    have "group_ok [] []" "group_changes (butlast path) [] [] = {}" by (auto simp: group_ok_def group_changes_def sorted_entries_def)
    then obtain o2 where o2: "SetAll_loop data (butlast path) (?ups []) (?ds []) o1 = Inr o2" "object_ok o2"
      "applied o1 o2 (set (c # data))" using step[OF o1(2), of "[]" "[]"] by auto
    have "applied object o2 (group_changes parent ups ds \<union> set (c # data))"
      using o1(3) o2(3)
    proof (rule applied_trans)
      show "\<not> comparable p p'" if "(p, y) \<in> group_changes parent ups ds" "(p', y') \<in> set (c # data)" for p y p' y'
        using Cons.prems(5)[OF that] by (simp add: independent_def)
    qed (auto simp: group_changes_def)
    then show ?thesis using o1(1) o2(1,2) False c path
      by (auto simp: PopLast_butlast last_segment_last split: option.splits)
  qed
qed

lemma Get_walk_map_fields: "r \<noteq> [] \<Longrightarrow> Get_walk v r = ObjectValue_Get (map_fields v) r"
  by (cases r) (simp_all add: ObjectValue_Get_def FindEntry_map_fields)

lemma applied_deleteI:
  assumes "\<And>r. ObjectValue_Get object' (p @ r) = None"
    and "\<And>q. q \<noteq> [] \<Longrightarrow> \<not> comparable p q \<Longrightarrow> ObjectValue_Get object' q = ObjectValue_Get object q"
  shows "applied object object' {(p, None)}"
  using assms by (intro appliedI) (auto simp: written_def)

lemma applied_deleteD:
  assumes "applied object object' {(p, None)}"
  shows "ObjectValue_Get object' (p @ r) = None"
    and "q \<noteq> [] \<Longrightarrow> \<not> comparable p q \<Longrightarrow> ObjectValue_Get object' q = ObjectValue_Get object q"
  using applied_written[OF assms, of p None r] applied_other[OF assms, of q] by (auto simp: written_def)

lemma applied_delete_absent:
  "p \<noteq> [] \<Longrightarrow> ObjectValue_Get object p = None \<Longrightarrow> applied object object {(p, None)}"
  by (intro applied_deleteI) (auto simp: ObjectValue_Get_def Get_walk_append)

lemma Delete_walk_correct:
  "sorted_value v \<Longrightarrow>
   \<exists>v'. Delete_walk v path s = Inr v' \<and> sorted_value v' \<and> IsMap (Some v') = IsMap (Some v) \<and>
     applied (map_fields v) (map_fields v') {(path @ [s], None)}"
proof (induction path arbitrary: v)
  case Nil
  show ?case
  proof (cases "IsMap (Some v)")
    case True
    then obtain fs where v: "v = Map_value fs" by (cases v) auto
    then have ok: "object_ok fs" using Nil by (simp add: object_ok_def)
    have g: "group_ok [] [s]" by (simp add: group_ok_def sorted_entries_def)
    obtain out where out: "ApplyChanges fs [] [s] = Inr out" "object_ok out" "merge_output fs [] [s] out"
      using ApplyChanges_group[OF ok g] by blast
    have "applied fs out {([s], None)}"
      using merge_applied[OF ok out(2,3)] by (simp add: group_changes_def sorted_entries_def)
    then show ?thesis using v out by (simp add: object_ok_def)
  next
    case False
    then have "map_fields v = []" by (cases v) auto
    then show ?thesis using False Nil applied_delete_absent[of "[s]" "[]"] by (simp add: Get_empty)
  qed
next
  case (Cons t path)
  have ok: "object_ok (map_fields v)" using map_at_sorted[OF Cons.prems] by (simp add: object_ok_def)
  show ?case
  proof (cases "FindEntry v t")
    case None
    then have "map_of (map_fields v) t = None" using FindEntry_sorted[OF Cons.prems] by simp
    then show ?thesis
      using None Cons.prems applied_delete_absent[of "t # path @ [s]" "map_fields v"] by (simp add: Get_Cons[OF ok])
  next
    case (Some entry)
    then obtain fs where v: "v = Map_value fs" by (cases v) auto
    then have fs: "object_ok fs" "map_of fs t = Some entry"
      using ok Some FindEntry_sorted[OF Cons.prems] by simp_all
    then have "sorted_value entry" using sorted_value_entry unfolding object_ok_def by blast
    then obtain entry' where e: "Delete_walk entry path s = Inr entry'" "sorted_value entry'"
      "applied (map_fields entry) (map_fields entry') {(path @ [s], None)}" using Cons.IH by blast
    let ?o = "write_entry fs t entry'"
    have o: "object_ok ?o" using object_ok_write_entry[OF fs(1) e(2)] .
    have get: "ObjectValue_Get ?o (t # r) = ObjectValue_Get (map_fields entry') r" if "r \<noteq> []" for r
      using that fs(2) unfolding Get_Cons[OF o] by (simp add: map_of_write_entry Get_walk_map_fields)
    have "applied fs ?o {(t # path @ [s], None)}"
    proof (rule applied_deleteI)
      show "ObjectValue_Get ?o ((t # path @ [s]) @ r) = None" for r
        using get[of "path @ [s] @ r"] applied_deleteD(1)[OF e(3), of r] by simp
      fix q assume q: "q \<noteq> []" "\<not> comparable (t # path @ [s]) q"
      then obtain k r where k: "q = k # r" by (cases q) auto
      show "ObjectValue_Get ?o q = ObjectValue_Get fs q"
      proof (cases "k = t")
        case True
        then have r: "r \<noteq> []" "\<not> comparable (path @ [s]) r" using q k by auto
        have "ObjectValue_Get fs q = Get_walk entry r" using True k fs(2) by (simp add: Get_Cons[OF fs(1)])
        then show ?thesis using get[OF r(1)] applied_deleteD(2)[OF e(3) r] True k
          by (simp add: Get_walk_map_fields[OF r(1)])
      next
        case False
        then show ?thesis using k by (simp add: Get_Cons[OF fs(1)] Get_Cons[OF o] map_of_write_entry)
      qed
    qed
    then show ?thesis using v Some e(1) o by (simp add: object_ok_def)
  qed
qed

section \<open>Leaf paths\<close>

lemmas set_path_insert [simp] = path_cmp.set_set_insert

lemma set_fold_insert:
  "set (fold (\<lambda>x fields. set_insert Path_CompareTo (f x) fields) xs acc) = set acc \<union> f ` set xs"
  by (induction xs arbitrary: acc) auto

fun leaf_paths :: "Value \<Rightarrow> FieldPath set" where
  "leaf_paths (Map_value fs) =
     (\<Union>e \<in> set fs. if leaf_paths (snd e) = {} then {[fst e]} else (#) (fst e) ` leaf_paths (snd e))"
| "leaf_paths _ = {}"

lemma set_fold_step:
  assumes "\<And>e acc. e \<in> set es \<Longrightarrow> set (f e acc) = set acc \<union> g e"
  shows "set (fold f es acc) = set acc \<union> (\<Union>e \<in> set es. g e)"
  using assms by (induction es arbitrary: acc) auto

lemma ExtractFieldMask_leaf_paths: "set (ExtractFieldMask v) = leaf_paths v"
proof (induction v rule: leaf_paths.induct)
  case (1 fs)
  have step: "set (let current_path = [fst e]
       in if \<not> IsMap (Some (snd e)) then set_insert Path_CompareTo current_path acc
          else let nested_mask = ExtractFieldMask (snd e)
               in if nested_mask = [] then set_insert Path_CompareTo current_path acc
                  else fold (\<lambda>nested_path fields. set_insert Path_CompareTo (Append_path current_path nested_path) fields)
                         nested_mask acc)
    = set acc \<union> (if leaf_paths (snd e) = {} then {[fst e]} else (#) (fst e) ` leaf_paths (snd e))"
    if "e \<in> set fs" for e acc
  proof -
    have e: "set (ExtractFieldMask (snd e)) = leaf_paths (snd e)" using 1[OF that] by blast
    show ?thesis
    proof (cases "IsMap (Some (snd e))")
      case True
      have "ExtractFieldMask (snd e) = [] \<longleftrightarrow> leaf_paths (snd e) = {}" using e by (metis set_empty)
      then show ?thesis using True e by (simp add: Let_def set_fold_insert Append_path_def)
    next
      case False
      then have "leaf_paths (snd e) = {}" by (cases "snd e") simp_all
      then show ?thesis using False by simp
    qed
  qed
  show ?case unfolding ExtractFieldMask.simps leaf_paths.simps
    by (rule trans[OF set_fold_step]) (rule step, assumption, simp only: list.set Un_empty_left)
qed simp_all

lemma leaf_paths_empty_iff: "leaf_paths v = {} \<longleftrightarrow> map_fields v = []"
proof (cases v)
  case (Map_value fs)
  show ?thesis
  proof (cases fs)
    case (Cons e es)
    obtain y where "y \<in> (if leaf_paths (snd e) = {} then {[fst e]} else (#) (fst e) ` leaf_paths (snd e))"
      by (cases "leaf_paths (snd e) = {}") auto
    then have "y \<in> leaf_paths v"
      unfolding Map_value leaf_paths.simps by (rule UN_I[rotated]) (simp add: Cons)
    moreover have "map_fields v \<noteq> []" using Map_value Cons by simp
    ultimately show ?thesis by blast
  qed (simp add: Map_value)
qed simp_all

lemma leaf_paths_nonempty: "[] \<notin> leaf_paths v"
  by (cases v) (auto split: if_splits)

lemma Cons_leaf_paths:
  "s # p \<in> leaf_paths (Map_value fs) \<longleftrightarrow>
     (\<exists>e \<in> set fs. fst e = s \<and> (if p = [] then map_fields (snd e) = [] else p \<in> leaf_paths (snd e)))"
proof -
  have "s # p \<in> (if leaf_paths v = {} then {[k]} else (#) k ` leaf_paths v) \<longleftrightarrow>
      k = s \<and> (if p = [] then map_fields v = [] else p \<in> leaf_paths v)" for k v
    using leaf_paths_nonempty[of v] leaf_paths_empty_iff[of v] by (cases "leaf_paths v = {}") auto
  then show ?thesis by (simp only: leaf_paths.simps UN_iff)
qed

lemma leaf_paths_Get_walk:
  "sorted_value v \<Longrightarrow> p \<noteq> [] \<Longrightarrow> p \<in> leaf_paths v \<longleftrightarrow> (\<exists>w. Get_walk v p = Some w \<and> map_fields w = [])"
proof (induction p arbitrary: v)
  case (Cons s p)
  show ?case
  proof (cases v)
    case (Map_value fs)
    then have sorted: "sorted_keys fs" using Cons.prems(1) by simp
    have "s # p \<in> leaf_paths v \<longleftrightarrow>
        (\<exists>x. map_of fs s = Some x \<and> (if p = [] then map_fields x = [] else p \<in> leaf_paths x))"
      using sorted_keys_distinct[OF sorted] unfolding Map_value Cons_leaf_paths by (force simp: map_of_eq_Some_iff)
    also have "\<dots> \<longleftrightarrow> (\<exists>x. map_of fs s = Some x \<and> (\<exists>w. Get_walk x p = Some w \<and> map_fields w = []))"
    proof (rule ex_cong1, rule conj_cong[OF refl])
      fix x assume "map_of fs s = Some x"
      then have "sorted_value x" using sorted_value_entry Cons.prems(1) Map_value by blast
      then show "(if p = [] then map_fields x = [] else p \<in> leaf_paths x) \<longleftrightarrow> (\<exists>w. Get_walk x p = Some w \<and> map_fields w = [])"
        using Cons.IH[of x] by auto
    qed
    finally show ?thesis by (auto simp: Map_value find_entry_map_of[OF sorted] split: option.split)
  qed simp_all
qed simp

section \<open>Single writes\<close>

lemma Set_applied:
  assumes "object_ok object" "unique_keys value" "path \<noteq> []"
  shows "\<exists>object'. ObjectValue_Set object path value = Inr object' \<and> object_ok object' \<and>
           applied object object' {(path, Some value)}"
proof -
  have "group_ok [(last path, value)] []" using assms(2) by (simp add: group_ok_def sorted_entries_def)
  from edit_group[OF assms(1) this, of "butlast path"] show ?thesis
    using assms(3) by (auto simp: ObjectValue_Set_def PopLast_butlast last_segment_last group_changes_def)
qed

lemma SetAll_applied:
  assumes "object_ok object" "changes_ok data"
  shows "\<exists>object'. ObjectValue_SetAll object data = Inr object' \<and> object_ok object' \<and> applied object object' (set data)"
  using SetAll_loop_correct[of object "[]" "[]" EmptyPath data] assms
  by (simp add: ObjectValue_SetAll_def group_ok_def group_changes_def EmptyPath_def sorted_entries_def)

lemma apply_loop_copy: "apply_loop (length source) source [] [] = Inr source"
  by (induction source) simp_all

lemma SetAll_empty [simp]: "ObjectValue_SetAll object [] = Inr object"
  by (simp add: ObjectValue_SetAll_def EmptyPath_def ApplyChanges_def CalculateSizeOfUnion_def apply_loop_copy)

lemma sorted_value_SortFields: "sorted_value v \<Longrightarrow> SortFields v = v"
proof (induction v rule: SortFields.induct)
  case (1 fs)
  then have "std_sort_entries Compare_string fs = fs" by (simp add: string_cmp.std_sort_entries_id)
  moreover have "map (\<lambda>field. (fst field, SortFields (snd field))) fs = fs"
    using 1 by (intro map_idI) auto
  ultimately show ?case by simp
next
  case (2 vs)
  then show ?case by (auto intro: map_idI)
qed simp_all

lemma sorted_value_unique_keys: "sorted_value v \<Longrightarrow> unique_keys v"
  by (induction v rule: sorted_value.induct) (auto intro: sorted_keys_distinct)

lemma ObjectValue_of_object: "object_ok object \<Longrightarrow> ObjectValue_of (Map_value object) = Inr object"
  by (simp only: ObjectValue_of_def object_ok_def sorted_value_SortFields IsMap.simps map_fields.simps if_True)

section \<open>Properties\<close>

text \<open>
  C21. \<^verbatim>\<open>ObjectValue::SetAll\<close> with a set of changes whose paths are pairwise incomparable and that
  deletes at most one field of each map: the call succeeds, all maps of the result are sorted, below
  every written path the result holds the (sorted) written value, below every deleted path it holds
  nothing, and every path unrelated to the changes reads as before.
\<close>

theorem ObjectValue_SetAll_applied:
  assumes "object_ok object" "changes_ok data"
  shows "\<exists>object'. ObjectValue_SetAll object data = Inr object' \<and> object_ok object' \<and> applied object object' (set data)"
  using assms by (rule SetAll_applied)

theorem ObjectValue_SetAll_applied_witness:
  "\<exists>object'. ObjectValue_SetAll [(''a'', Map_value [(''b'', Null_value)]), (''c'', Boolean_value True)]
       [([''a'', ''b''], None), ([''a'', ''d''], Some (Integer_value 7)), ([''e''], Some Null_value)] = Inr object' \<and>
     ObjectValue_Get object' [''a'', ''d''] = Some (Integer_value 7) \<and>
     ObjectValue_Get object' [''a'', ''b''] = None \<and> ObjectValue_Get object' [''c''] = Some (Boolean_value True)"
proof -
  let ?o = "[(''a'', Map_value [(''b'', Null_value)]), (''c'', Boolean_value True)]"
  let ?d = "[([''a'', ''b''], None), ([''a'', ''d''], Some (Integer_value 7)), ([''e''], Some Null_value)]"
  have "object_ok ?o" by code_simp
  moreover have "changes_ok ?d"
    unfolding changes_ok_def by (simp add: independent_def comparable_def IsPrefixOf_def)
  ultimately obtain object' where r: "ObjectValue_SetAll ?o ?d = Inr object'" "object_ok object'"
    "applied ?o object' (set ?d)" using ObjectValue_SetAll_applied by blast
  have "ObjectValue_Get object' [''c''] = ObjectValue_Get ?o [''c'']"
    by (rule applied_other[OF r(3)]) auto
  also have "\<dots> = Some (Boolean_value True)" by code_simp
  finally show ?thesis
    using r applied_written[OF r(3), of "[''a'', ''d'']" "Some (Integer_value 7)" "[]"]
      applied_written[OF r(3), of "[''a'', ''b'']" None "[]"] by (simp add: written_def)
qed

text \<open>
  C22. \<^verbatim>\<open>ObjectValue::Set\<close> then \<^verbatim>\<open>Get\<close>: for a non-empty path the write succeeds, missing and non-map
  parents are replaced by maps, reading the path returns the (sorted) value that was written, and
  every path that is neither above nor below it is unchanged.
\<close>

theorem ObjectValue_Set_Get:
  assumes "object_ok object" "unique_keys value" "path \<noteq> []"
  shows "\<exists>object'. ObjectValue_Set object path value = Inr object' \<and> object_ok object' \<and>
           ObjectValue_Get object' path = Some (SortFields value) \<and>
           (\<forall>q. \<not> comparable path q \<longrightarrow> ObjectValue_Get object' q = ObjectValue_Get object q)"
proof -
  obtain object' where o: "ObjectValue_Set object path value = Inr object'" "object_ok object'"
    "applied object object' {(path, Some value)}" using Set_applied[OF assms] by blast
  then show ?thesis
    using applied_written[OF o(3), of path "Some value" "[]"] applied_single[OF o(3)]
    by (auto simp: written_def)
qed

theorem ObjectValue_Set_Get_witness:
  "\<exists>object'. ObjectValue_Set [(''a'', Null_value)] [''a'', ''x''] (Boolean_value True) = Inr object' \<and>
     ObjectValue_Get object' [''a'', ''x''] = Some (Boolean_value True)"
  using ObjectValue_Set_Get[of "[(''a'', Null_value)]" "Boolean_value True" "[''a'', ''x'']"]
  by (auto simp: object_ok_def sorted_entries_def)

text \<open>
  C23. \<^verbatim>\<open>ObjectValue::Delete\<close>: for a non-empty path the call succeeds, nothing is left at or below the
  path, and every unrelated path is unchanged; a path that leads through a missing or non-map value
  deletes nothing.
\<close>

theorem ObjectValue_Delete_Get:
  assumes "object_ok object" "path \<noteq> []"
  shows "\<exists>object'. ObjectValue_Delete object path = Inr object' \<and> object_ok object' \<and>
           (\<forall>r. ObjectValue_Get object' (path @ r) = None) \<and>
           (\<forall>q. \<not> comparable path q \<longrightarrow> ObjectValue_Get object' q = ObjectValue_Get object q)"
proof -
  obtain v where v: "Delete_walk (Map_value object) (butlast path) (last path) = Inr v" "sorted_value v"
    "IsMap (Some v)" "applied object (map_fields v) {(path, None)}"
    using Delete_walk_correct[of "Map_value object" "butlast path" "last path"] assms
    by (auto simp: object_ok_def)
  then have "ObjectValue_Delete object path = Inr (map_fields v)"
    using assms(2) by (simp add: ObjectValue_Delete_def PopLast_butlast last_segment_last)
  moreover have "object_ok (map_fields v)" using map_at_sorted[OF v(2)] by (simp add: object_ok_def)
  ultimately show ?thesis using applied_deleteD(1)[OF v(4)] applied_single[OF v(4)] by auto
qed

theorem ObjectValue_Delete_Get_witness:
  "\<exists>object'. ObjectValue_Delete [(''a'', Map_value [(''x'', Null_value), (''y'', Null_value)])] [''a'', ''x''] = Inr object' \<and>
     ObjectValue_Get object' [''a'', ''x''] = None"
proof -
  have "object_ok [(''a'', Map_value [(''x'', Null_value), (''y'', Null_value)])]" by code_simp
  from ObjectValue_Delete_Get[OF this, of "[''a'', ''x'']"] obtain object'
    where "ObjectValue_Delete [(''a'', Map_value [(''x'', Null_value), (''y'', Null_value)])] [''a'', ''x''] = Inr object'"
      "ObjectValue_Get object' ([''a'', ''x''] @ []) = None" by blast
  then show ?thesis by auto
qed

text \<open>
  C24. \<^verbatim>\<open>ObjectValue::ToFieldMask\<close> collects exactly the leaf paths of the object: the paths at which
  it holds a value that is not a map, or an empty map.
\<close>

theorem ToFieldMask_leaf_paths:
  assumes "object_ok object"
  shows "p \<in> set (ToFieldMask object) \<longleftrightarrow>
    p \<noteq> [] \<and> (\<exists>v. ObjectValue_Get object p = Some v \<and> map_fields v = [])"
proof (cases "p = []")
  case True
  then show ?thesis using leaf_paths_nonempty by (simp only: ToFieldMask_def ExtractFieldMask_leaf_paths) simp
next
  case False
  then show ?thesis using leaf_paths_Get_walk[of "Map_value object" p] assms
    by (simp only: ToFieldMask_def ExtractFieldMask_leaf_paths object_ok_def ObjectValue_Get_def) simp
qed

theorem ToFieldMask_leaf_paths_witness:
  "[''a'', ''x''] \<in> set (ToFieldMask [(''a'', Map_value [(''x'', Null_value), (''y'', Map_value [])])])"
  by (rule ToFieldMask_leaf_paths[THEN iffD2], code_simp, rule conjI, simp, rule exI[of _ Null_value]) code_simp

text \<open>
  C25. \<^verbatim>\<open>ApplyChanges\<close> compares each field only with the first delete that has not been met. A deleted
  key that the map does not have is never passed, so the deletes after it are ignored; the field that
  should have been removed takes the place counted for a later one, which is lost.
\<close>

theorem ApplyChanges_missing_delete:
  assumes "Compare_string a b = Ascending" "Compare_string b c = Ascending"
  shows "ApplyChanges [(b, x), (c, y)] [] [a, b] = Inr [(b, x)]"
proof -
  have "a \<noteq> b" "b \<noteq> c" "a \<noteq> c"
    using assms string_cmp.Ascending_asym by (metis string_cmp.cmp_Same_iff ComparisonResult.distinct(1))+
  then show ?thesis by (simp add: ApplyChanges_def CalculateSizeOfUnion_def numeral_eq_Suc)
qed

theorem ApplyChanges_missing_delete_witness:
  "ApplyChanges [(''b'', Null_value), (''c'', Boolean_value True)] [] [''a'', ''b''] = Inr [(''b'', Null_value)]"
  by (rule ApplyChanges_missing_delete) code_simp+

end
