(* ===== verification/Transform_Ops.thy ===== *)
theory Transform_Ops
  imports Object_Value
begin

text \<open>
  Field transforms: \<^verbatim>\<open>model/transform_operation.cc\<close>.

  The class hierarchy behind \<^verbatim>\<open>TransformOperation::Rep\<close> is one datatype; its virtual functions are
  case distinctions. \<^verbatim>\<open>long\<close> has 64 bits, as on the supported platforms. The addition of doubles
  is IEEE 754 addition rounded to nearest; the result of an invalid operation is the quiet NaN.
\<close>

section \<open>Addition of doubles\<close>

definition double_add :: "double \<Rightarrow> double \<Rightarrow> double" where
  "double_add a b =
     (if is_nan a \<or> is_nan b then quiet_NaN
      else if is_inf a then (if is_inf b \<and> double_negative a \<noteq> double_negative b then quiet_NaN else a)
      else if is_inf b then b
      else let s = dval a + dval b
           in if s = 0 then make_double (double_negative a \<and> double_negative b) 0
              else make_double (s < 0) (round_magnitude (nat \<bar>s\<bar>)))"

section \<open>Transforms\<close>

datatype TransformType = ServerTimestamp | ArrayUnion | ArrayRemove | Increment

datatype TransformOperation =
    ServerTimestampTransform
  | ArrayTransform TransformType "Value list"
  | NumericIncrementTransform Value

fun TransformOperation_type :: "TransformOperation \<Rightarrow> TransformType" where
  "TransformOperation_type ServerTimestampTransform = ServerTimestamp"
| "TransformOperation_type (ArrayTransform type elements) = type"
| "TransformOperation_type (NumericIncrementTransform operand) = Increment"

definition IsArrayTransform :: "TransformType \<Rightarrow> bool" where
  "IsArrayTransform type \<longleftrightarrow> type = ArrayUnion \<or> type = ArrayRemove"

definition make_ArrayTransform :: "TransformType \<Rightarrow> Value list \<Rightarrow> TransformOperation res" where
  "make_ArrayTransform type elements =
     (if IsArrayTransform type then Inr (ArrayTransform type elements) else Inl HardAssert)"

definition make_NumericIncrementTransform :: "Value \<Rightarrow> TransformOperation res" where
  "make_NumericIncrementTransform operand =
     (if IsNumber (Some operand) then Inr (NumericIncrementTransform operand) else Inl HardAssert)"

fun ArrayTransform_of :: "TransformOperation \<Rightarrow> TransformOperation res" where
  "ArrayTransform_of op = (if IsArrayTransform (TransformOperation_type op) then Inr op else Inl HardAssert)"

fun NumericIncrementTransform_of :: "TransformOperation \<Rightarrow> TransformOperation res" where
  "NumericIncrementTransform_of op = (if TransformOperation_type op = Increment then Inr op else Inl HardAssert)"

definition CoercedFieldValueArray :: "Value option \<Rightarrow> Value list" where
  "CoercedFieldValueArray value = (case value of
     Some v \<Rightarrow> if IsArray (Some v) then array_values (DeepClone v) else []
   | None \<Rightarrow> [])"

fun union_loop :: "(string \<Rightarrow> string list) \<Rightarrow> Value list \<Rightarrow> Value list \<Rightarrow> Value list \<Rightarrow> Value list res" where
  "union_loop split array new_elements [] = Inr new_elements"
| "union_loop split array new_elements (new_element # elements) =
     bind_res (Contains_loop split array new_element) (\<lambda>contained.
     bind_res (if contained then Inr True else Contains_loop split new_elements new_element) (\<lambda>found.
       union_loop split array (if found then new_elements else new_elements @ [DeepClone new_element]) elements))"

fun remove_loop :: "(string \<Rightarrow> string list) \<Rightarrow> Value list \<Rightarrow> Value list \<Rightarrow> Value list res" where
  "remove_loop split elements [] = Inr []"
| "remove_loop split elements (v # vs) =
     bind_res (Contains_loop split elements v) (\<lambda>removed.
     bind_res (remove_loop split elements vs) (\<lambda>rest. Inr (if removed then rest else v # rest)))"

definition ArrayTransform_Apply :: "(string \<Rightarrow> string list) \<Rightarrow> TransformType \<Rightarrow> Value list \<Rightarrow> Value option \<Rightarrow> Value res" where
  "ArrayTransform_Apply split type elements previous_value =
     (let array_value = CoercedFieldValueArray previous_value
      in if type = ArrayUnion then
           bind_res (union_loop split array_value [] elements) (\<lambda>new_elements.
             Inr (Array_value (array_value @ new_elements)))
         else if type = ArrayRemove then
           bind_res (remove_loop split elements array_value) (\<lambda>vs. Inr (Array_value vs))
         else Inl HardAssert)"

definition LONG_MAX :: int64 where "LONG_MAX = word_of_int (2 ^ 63 - 1)"
definition LONG_MIN :: int64 where "LONG_MIN = word_of_int (- (2 ^ 63))"

definition SafeIncrement :: "int64 \<Rightarrow> int64 \<Rightarrow> int64" where
  "SafeIncrement x y =
     (if 0 < sint x \<and> sint (LONG_MAX - x) < sint y then LONG_MAX
      else if sint x < 0 \<and> sint y < sint (LONG_MIN - x) then LONG_MIN
      else x + y)"

fun OperandAsDouble :: "Value \<Rightarrow> double res" where
  "OperandAsDouble (Double_value d) = Inr d"
| "OperandAsDouble (Integer_value i) = Inr (int64_to_double i)"
| "OperandAsDouble _ = Inl HardFail"

definition Increment_ComputeBaseValue :: "Value option \<Rightarrow> Value" where
  "Increment_ComputeBaseValue previous_value = (case previous_value of
     Some v \<Rightarrow> if IsNumber (Some v) then DeepClone v else Integer_value 0
   | None \<Rightarrow> Integer_value 0)"

definition Increment_ApplyToLocalView :: "Value \<Rightarrow> Value option \<Rightarrow> Value res" where
  "Increment_ApplyToLocalView operand previous_value =
     (case (Increment_ComputeBaseValue previous_value, operand) of
        (Integer_value b, Integer_value n) \<Rightarrow> Inr (Integer_value (SafeIncrement b n))
      | (Integer_value b, _) \<Rightarrow>
          bind_res (OperandAsDouble operand) (\<lambda>d. Inr (Double_value (double_add (int64_to_double b) d)))
      | (Double_value b, _) \<Rightarrow>
          bind_res (OperandAsDouble operand) (\<lambda>d. Inr (Double_value (double_add b d)))
      | _ \<Rightarrow> Inl HardAssert)"

fun ApplyToLocalView ::
  "(string \<Rightarrow> string list) \<Rightarrow> TransformOperation \<Rightarrow> Value option \<Rightarrow> google_protobuf_Timestamp \<Rightarrow> Value res" where
  "ApplyToLocalView split ServerTimestampTransform previous_value local_write_time =
     Inr (EncodeServerTimestamp local_write_time previous_value)"
| "ApplyToLocalView split (ArrayTransform type elements) previous_value local_write_time =
     ArrayTransform_Apply split type elements previous_value"
| "ApplyToLocalView split (NumericIncrementTransform operand) previous_value local_write_time =
     Increment_ApplyToLocalView operand previous_value"

fun ApplyToRemoteDocument ::
  "(string \<Rightarrow> string list) \<Rightarrow> TransformOperation \<Rightarrow> Value option \<Rightarrow> Value \<Rightarrow> Value res" where
  "ApplyToRemoteDocument split ServerTimestampTransform previous_value transform_result = Inr transform_result"
| "ApplyToRemoteDocument split (ArrayTransform type elements) previous_value transform_result =
     ArrayTransform_Apply split type elements previous_value"
| "ApplyToRemoteDocument split (NumericIncrementTransform operand) previous_value transform_result = Inr transform_result"

fun ComputeBaseValue :: "TransformOperation \<Rightarrow> Value option \<Rightarrow> Value option" where
  "ComputeBaseValue ServerTimestampTransform previous_value = None"
| "ComputeBaseValue (ArrayTransform type elements) previous_value = None"
| "ComputeBaseValue (NumericIncrementTransform operand) previous_value =
     Some (Increment_ComputeBaseValue previous_value)"

fun TransformOperation_Equals ::
  "(string \<Rightarrow> string list) \<Rightarrow> TransformOperation \<Rightarrow> TransformOperation \<Rightarrow> bool res" where
  "TransformOperation_Equals split ServerTimestampTransform other =
     Inr (TransformOperation_type other = ServerTimestamp)"
| "TransformOperation_Equals split (ArrayTransform type elements) other =
     (if TransformOperation_type other \<noteq> type then Inr False
      else case other of
        ArrayTransform _ other_elements \<Rightarrow>
          if length other_elements \<noteq> length elements then Inr False
          else equals_loop (Value_Equals split) other_elements elements
      | _ \<Rightarrow> Inl UndefinedBehaviour)"
| "TransformOperation_Equals split (NumericIncrementTransform operand) other =
     (if TransformOperation_type other \<noteq> Increment then Inr False
      else case other of
        NumericIncrementTransform other_operand \<Rightarrow> Value_Equals split operand other_operand
      | _ \<Rightarrow> Inl UndefinedBehaviour)"

section \<open>Saturating addition\<close>

lemma sint_in_range: "- (2 ^ 63) \<le> k \<Longrightarrow> k < 2 ^ 63 \<Longrightarrow> sint (word_of_int k :: int64) = k"
  unfolding sint_sbintrunc' by (rule signed_take_bit_int_eq_self) simp_all

lemma int64_add: "(x :: int64) + y = word_of_int (sint x + sint y)"
  by simp

lemma LONG_MAX_minus: "LONG_MAX - x = word_of_int (2 ^ 63 - 1 - sint x)"
  unfolding LONG_MAX_def by (simp only: of_int_diff of_int_sint scast_id)

lemma LONG_MIN_minus: "LONG_MIN - x = word_of_int (- (2 ^ 63) - sint x)"
  unfolding LONG_MIN_def by (simp only: of_int_diff of_int_sint scast_id)

lemma sint_LONG [simp]: "sint LONG_MAX = 2 ^ 63 - 1" "sint LONG_MIN = - (2 ^ 63)"
  unfolding LONG_MAX_def LONG_MIN_def by (rule sint_in_range; simp)+

lemma SafeIncrement_sint: "sint (SafeIncrement x y) = max (- (2 ^ 63)) (min (2 ^ 63 - 1) (sint x + sint y))"
proof -
  note b = sint_int64_bounds[of x] sint_int64_bounds[of y]
  have mx: "sint (LONG_MAX - x) = 2 ^ 63 - 1 - sint x" if "0 < sint x"
    unfolding LONG_MAX_minus using b that by (intro sint_in_range) linarith+
  have mn: "sint (LONG_MIN - x) = - (2 ^ 63) - sint x" if "sint x < 0"
    unfolding LONG_MIN_minus using b that by (intro sint_in_range) linarith+
  consider "0 < sint x" "2 ^ 63 - 1 < sint x + sint y" | "sint x < 0" "sint x + sint y < - (2 ^ 63)"
    | "- (2 ^ 63) \<le> sint x + sint y" "sint x + sint y < 2 ^ 63"
    using b by linarith
  then show ?thesis
  proof cases
    case 1
    then show ?thesis using mx by (simp add: SafeIncrement_def)
  next
    case 2
    then show ?thesis using mn by (simp add: SafeIncrement_def)
  next
    case 3
    then have "SafeIncrement x y = word_of_int (sint x + sint y)"
      using mx mn by (auto simp: SafeIncrement_def int64_add[symmetric])
    then show ?thesis using 3 sint_in_range[OF 3] by simp
  qed
qed

section \<open>Equality never fails\<close>

lemma equals_loop_total:
  "(\<And>x y. x \<in> set xs \<Longrightarrow> y \<in> set ys \<Longrightarrow> \<exists>b. eq x y = Inr b) \<Longrightarrow> \<exists>b. equals_loop eq xs ys = Inr b"
proof (induction eq xs ys rule: equals_loop.induct)
  case (1 eq x xs y ys)
  obtain b where b: "eq x y = Inr b" using 1(2)[of x y] by auto
  show ?case
  proof (cases b)
    case True
    have "\<exists>b. equals_loop eq xs ys = Inr b" using b True 1(2) by (intro 1(1)[of True]) simp_all
    then show ?thesis using b True by simp
  qed (auto simp: b)
qed auto

lemma MapValueEquals_total: "value_ok l \<Longrightarrow> value_ok r \<Longrightarrow> \<exists>b. MapValueEquals split l r = Inr b"
  by (auto simp: MapValueEquals_def CompareMaps_container)

lemma leaf_equals_total:
  assumes "GetTypeOrder l = GetTypeOrder r"
    and "GetTypeOrder l \<in> {kNull, kBoolean, kNumber, kTimestamp, kString, kBlob, kReference, kGeoPoint}"
  shows "\<exists>b. Value_Equals split l r = Inr b"
proof -
  consider "l = Null_value" "r = Null_value" | b b' where "l = Boolean_value b" "r = Boolean_value b'"
    | "GetTypeOrder l = kNumber"
    | t t' where "l = Timestamp_value t" "r = Timestamp_value t'" | s s' where "l = String_value s" "r = String_value s'"
    | x y where "l = Bytes_value x" "r = Bytes_value y" | s s' where "l = Reference_value s" "r = Reference_value s'"
    | a b a' b' where "l = Geo_point_value a b" "r = Geo_point_value a' b'"
    using assms by (cases l; cases r) (auto split: if_splits)
  then show ?thesis
    by cases (use assms(1) in \<open>auto simp: Value_Equals.simps[of split l r, unfolded Let_def] Value_Equals.simps[of split Null_value]
      Value_Equals.simps[of split "Boolean_value _"] Value_Equals.simps[of split "Timestamp_value _"]
      Value_Equals.simps[of split "String_value _"] Value_Equals.simps[of split "Bytes_value _"]
      Value_Equals.simps[of split "Reference_value _"] Value_Equals.simps[of split "Geo_point_value _ _"] blob_compare\<close>)
qed

lemma Value_Equals_total: "value_ok l \<Longrightarrow> value_ok r \<Longrightarrow> \<exists>b. Value_Equals split l r = Inr b"
proof (induction l arbitrary: r rule: measure_induct_rule[of size])
  case (less l)
  show ?case
  proof (cases "GetTypeOrder l = GetTypeOrder r")
    case False
    then show ?thesis by (auto simp: Value_Equals.simps[of split l r])
  next
    case t: True
    show ?thesis
    proof (cases "GetTypeOrder l")
      case kArray
      then obtain xs ys where xy: "l = Array_value xs" "r = Array_value ys"
        using t by (cases l; cases r) (auto split: if_splits)
      have "\<exists>b. equals_loop (Value_Equals split) xs ys = Inr b"
        using less xy by (intro equals_loop_total) (simp add: size_element)
      then show ?thesis unfolding xy by (auto simp: Value_Equals.simps[of split "Array_value _"] ArrayEquals_def)
    next
      case kServerTimestamp
      obtain a b where "GetLocalWriteTime l = Inr a" "GetLocalWriteTime r = Inr b"
        using GetLocalWriteTime_ok[OF less.prems(1) GetTypeOrder_server[OF kServerTimestamp]]
          GetLocalWriteTime_ok[OF less.prems(2) GetTypeOrder_server[OF kServerTimestamp[unfolded t]]] by blast
      then show ?thesis using t kServerTimestamp by (simp add: Value_Equals.simps[of split l r])
    next
      case kMap
      then show ?thesis using t MapValueEquals_total[OF less.prems] by (simp add: Value_Equals.simps[of split l r])
    next
      case kVector
      then show ?thesis using t MapValueEquals_total[OF less.prems] by (simp add: Value_Equals.simps[of split l r])
    next
      case kMaxValue
      then show ?thesis using t MapValueEquals_total[OF less.prems] by (simp add: Value_Equals.simps[of split l r])
    qed (rule leaf_equals_total[OF t], simp)+
  qed
qed

text \<open>A geographical point with a NaN coordinate is not equal to itself; every other value is.\<close>

fun geo_points_ok :: "Value \<Rightarrow> bool" where
  "geo_points_ok (Geo_point_value lat lng) \<longleftrightarrow> \<not> is_nan lat \<and> \<not> is_nan lng"
| "geo_points_ok (Array_value vs) \<longleftrightarrow> (\<forall>v \<in> set vs. geo_points_ok v)"
| "geo_points_ok _ \<longleftrightarrow> True"

lemma equals_loop_refl: "(\<And>x. x \<in> set xs \<Longrightarrow> eq x x = Inr True) \<Longrightarrow> equals_loop eq xs xs = Inr True"
  by (induction xs) simp_all

lemma MapValueEquals_refl: "value_ok v \<Longrightarrow> MapValueEquals split v v = Inr True"
  by (simp add: MapValueEquals_def CompareMaps_container CompareContainer_refl field_order_def then_cmp_def)

lemma Value_Equals_refl: "value_ok v \<Longrightarrow> geo_points_ok v \<Longrightarrow> Value_Equals split v v = Inr True"
proof (induction v rule: measure_induct_rule[of size])
  case (less v)
  show ?case
  proof (cases v)
    case (Array_value vs)
    have "equals_loop (Value_Equals split) vs vs = Inr True"
      using less Array_value by (intro equals_loop_refl) (simp add: size_element)
    then show ?thesis unfolding Array_value by (simp add: Value_Equals.simps[of split "Array_value _"] ArrayEquals_def)
  next
    case (Map_value fs)
    then have "GetTypeOrder v \<in> {kServerTimestamp, kMaxValue, kVector, kMap}" by simp
    moreover have "Value_Equals split v v = Inr True" if "GetTypeOrder v = kServerTimestamp"
      using GetLocalWriteTime_ok[OF less.prems(1) GetTypeOrder_server[OF that]] that
      by (auto simp: Value_Equals.simps[of split v v])
    ultimately show ?thesis
      using MapValueEquals_refl[OF less.prems(1), of split] by (auto simp: Value_Equals.simps[of split v v])
  next
    case (Bytes_value x)
    then show ?thesis by (simp add: Value_Equals.simps[of split "Bytes_value x"] blob_compare)
  qed (use less.prems in \<open>simp_all add: Value_Equals.simps DoubleBitwiseEquals_def double_eq_def\<close>)
qed

section \<open>Array transforms\<close>

definition equal_in :: "(string \<Rightarrow> string list) \<Rightarrow> Value list \<Rightarrow> Value \<Rightarrow> bool" where
  "equal_in split vs x \<longleftrightarrow> (\<exists>v \<in> set vs. Value_Equals split v x = Inr True)"

lemma Contains_loop_equal_in:
  assumes "\<forall>v \<in> set vs. value_ok v" "value_ok x"
  shows "Contains_loop split vs x = Inr (equal_in split vs x)"
  using assms(1)
proof (induction vs)
  case (Cons v vs)
  obtain b where "Value_Equals split v x = Inr b" using Value_Equals_total[of v x split] Cons.prems assms(2) by auto
  then show ?case using Cons by (auto simp: equal_in_def)
qed (simp add: equal_in_def)

lemma equal_in_append: "equal_in split (xs @ ys) x \<longleftrightarrow> equal_in split xs x \<or> equal_in split ys x"
  by (auto simp: equal_in_def)

definition usable :: "Value list \<Rightarrow> bool" where
  "usable vs \<longleftrightarrow> (\<forall>v \<in> set vs. value_ok v \<and> geo_points_ok v)"

lemma equal_in_member: "usable vs \<Longrightarrow> x \<in> set vs \<Longrightarrow> equal_in split vs x"
  unfolding equal_in_def usable_def using Value_Equals_refl by blast

lemma Contains_loop_usable: "usable vs \<Longrightarrow> value_ok x \<Longrightarrow> Contains_loop split vs x = Inr (equal_in split vs x)"
  by (rule Contains_loop_equal_in) (auto simp: usable_def)

lemma union_loop_correct:
  assumes "usable array" "usable new" "usable elements"
  shows "\<exists>added. union_loop split array new elements = Inr (new @ added) \<and> set added \<subseteq> set elements \<and>
    (\<forall>e \<in> set added. \<not> equal_in split array e) \<and> (\<forall>e \<in> set elements. equal_in split (array @ new @ added) e)"
  using assms(2,3)
proof (induction elements arbitrary: new)
  case (Cons e es)
  have e: "value_ok e" "usable [e]" "usable es" using Cons.prems(2) by (auto simp: usable_def)
  note contains = Contains_loop_usable[OF assms(1) e(1), of split] Contains_loop_usable[OF Cons.prems(1) e(1), of split]
  show ?case
  proof (cases "equal_in split array e \<or> equal_in split new e")
    case True
    then have "union_loop split array new (e # es) = union_loop split array new es" using contains by auto
    then show ?thesis using Cons.IH[OF Cons.prems(1) e(3)] True by (auto simp: equal_in_append)
  next
    case False
    have "usable (new @ [e])" using Cons.prems(1) e(2) by (auto simp: usable_def)
    from Cons.IH[OF this e(3)] obtain added
      where a: "union_loop split array (new @ [e]) es = Inr ((new @ [e]) @ added)" "set added \<subseteq> set es"
        "\<forall>e \<in> set added. \<not> equal_in split array e" "\<forall>x \<in> set es. equal_in split (array @ (new @ [e]) @ added) x" by blast
    have "union_loop split array new (e # es) = union_loop split array (new @ [e]) es" using contains False by simp
    then show ?thesis
      using a False equal_in_member[OF e(2), of e split]
      by (intro exI[of _ "e # added"]) (auto simp: equal_in_append equal_in_def)
  qed
qed simp

lemma union_loop_contained:
  assumes "usable array" "usable elements" "\<forall>e \<in> set elements. equal_in split array e"
  shows "union_loop split array [] elements = Inr []"
  using assms(2,3) by (induction elements) (auto simp: usable_def Contains_loop_usable[OF assms(1)])

lemma remove_loop_filter:
  assumes "usable elements" "usable vs"
  shows "remove_loop split elements vs = Inr (filter (\<lambda>v. \<not> equal_in split elements v) vs)"
  using assms(2) by (induction vs) (auto simp: usable_def Contains_loop_usable[OF assms(1)])

lemma Increment_cases:
  assumes "IsNumber (Some (Increment_ComputeBaseValue previous))" "IsNumber (Some operand)"
  shows "\<exists>result. IsNumber (Some (Increment_ComputeBaseValue previous)) \<and>
    Increment_ApplyToLocalView operand previous = Inr result \<and> IsNumber (Some result) \<and>
    (IsInteger (Some result) \<longleftrightarrow> IsInteger (Some (Increment_ComputeBaseValue previous)) \<and> IsInteger (Some operand)) \<and>
    (\<forall>b n. Increment_ComputeBaseValue previous = Integer_value b \<longrightarrow> operand = Integer_value n \<longrightarrow>
       result = Integer_value (SafeIncrement b n))"
  using assms unfolding Increment_ApplyToLocalView_def
  by (cases "Increment_ComputeBaseValue previous"; cases operand) (simp_all add: IsNumber_def)

text \<open>The array an operation starts from.\<close>

definition old_array :: "Value option \<Rightarrow> Value list" where
  "old_array previous = (case previous of Some (Array_value vs) \<Rightarrow> vs | _ \<Rightarrow> [])"

lemma CoercedFieldValueArray_old [simp]: "CoercedFieldValueArray previous = old_array previous"
  by (auto simp: CoercedFieldValueArray_def old_array_def split: option.splits Value.splits)

section \<open>Properties\<close>




text \<open>
  Array transforms are idempotent, as the code relies on when it computes no base value for them:
  applying the operation to its own result returns that result, for the local view and for the
  acknowledged document alike.
\<close>

theorem ArrayTransform_idempotent:
  assumes "usable elements" "usable (old_array previous)" "IsArrayTransform type"
  shows "\<exists>result. ApplyToLocalView split (ArrayTransform type elements) previous t = Inr result \<and>
     ApplyToLocalView split (ArrayTransform type elements) (Some result) t = Inr result \<and>
     ApplyToRemoteDocument split (ArrayTransform type elements) previous r = Inr result"
proof (cases "type = ArrayUnion")
  case True
  obtain added where a: "union_loop split (old_array previous) [] elements = Inr added"
    "set added \<subseteq> set elements" "\<forall>e \<in> set elements. equal_in split (old_array previous @ added) e"
    using union_loop_correct[OF assms(2) _ assms(1), of "[]" split] by (auto simp: usable_def)
  have "usable (old_array previous @ added)" using assms(1,2) a(2) by (auto simp: usable_def)
  from union_loop_contained[OF this assms(1) a(3)] show ?thesis
    using a(1) True by (simp add: ArrayTransform_Apply_def old_array_def)
next
  case False
  let ?vs = "filter (\<lambda>v. \<not> equal_in split elements v) (old_array previous)"
  have "usable ?vs" using assms(2) by (simp add: usable_def)
  from remove_loop_filter[OF assms(1) this, of split] show ?thesis
    using False assms(3) remove_loop_filter[OF assms(1,2), of split]
    by (simp add: ArrayTransform_Apply_def old_array_def IsArrayTransform_def)
qed

theorem ArrayTransform_idempotent_witness:
  "\<exists>result. ApplyToLocalView (\<lambda>s. [s]) (ArrayTransform ArrayRemove [Null_value]) None \<lparr>ts_seconds = 0, ts_nanos = 0\<rparr> = Inr result \<and>
     ApplyToLocalView (\<lambda>s. [s]) (ArrayTransform ArrayRemove [Null_value]) (Some result) \<lparr>ts_seconds = 0, ts_nanos = 0\<rparr> = Inr result"
  using ArrayTransform_idempotent[of "[Null_value]" None ArrayRemove "\<lambda>s. [s]" "\<lparr>ts_seconds = 0, ts_nanos = 0\<rparr>"]
  by (auto simp: usable_def old_array_def IsArrayTransform_def)

text \<open>
  C28. An increment always yields a number: an integer when the operand and the base value are
  integers, and then their saturated sum, and a double otherwise. A previous value that is missing or
  not a number counts as the integer 0, which is also the base value sent to the server.
\<close>

theorem Increment_result:
  assumes "make_NumericIncrementTransform operand = Inr op"
  shows "\<exists>base result. ComputeBaseValue op previous = Some base \<and> IsNumber (Some base) \<and>
     (base = (if IsNumber previous then the previous else Integer_value 0)) \<and>
     ApplyToLocalView split op previous t = Inr result \<and> IsNumber (Some result) \<and>
     (IsInteger (Some result) \<longleftrightarrow> IsInteger (Some base) \<and> IsInteger (Some operand)) \<and>
     (\<forall>b n. base = Integer_value b \<longrightarrow> operand = Integer_value n \<longrightarrow>
        (\<exists>i. result = Integer_value i \<and> sint i = max (- (2 ^ 63)) (min (2 ^ 63 - 1) (sint b + sint n))))"
proof -
  have op: "op = NumericIncrementTransform operand" and number: "IsNumber (Some operand)"
    using assms by (auto simp: make_NumericIncrementTransform_def split: if_splits)
  have base: "Increment_ComputeBaseValue previous = (if IsNumber previous then the previous else Integer_value 0)"
    by (cases previous) (simp_all add: Increment_ComputeBaseValue_def IsNumber_def)
  then have "IsNumber (Some (Increment_ComputeBaseValue previous))"
    by (cases previous) (simp_all add: IsNumber_def)
  from Increment_cases[OF this number] obtain result
    where r: "Increment_ApplyToLocalView operand previous = Inr result" "IsNumber (Some result)"
      "IsInteger (Some result) \<longleftrightarrow> IsInteger (Some (Increment_ComputeBaseValue previous)) \<and> IsInteger (Some operand)"
      "\<forall>b n. Increment_ComputeBaseValue previous = Integer_value b \<longrightarrow> operand = Integer_value n \<longrightarrow>
        result = Integer_value (SafeIncrement b n)" by blast
  show ?thesis
    by (rule exI[of _ "Increment_ComputeBaseValue previous"], rule exI[of _ result])
      (use r base \<open>IsNumber (Some (Increment_ComputeBaseValue previous))\<close> in \<open>simp add: op SafeIncrement_sint\<close>)
qed

theorem Increment_result_witness:
  "\<exists>result. ApplyToLocalView (\<lambda>s. [s]) (NumericIncrementTransform (Integer_value 2)) None \<lparr>ts_seconds = 0, ts_nanos = 0\<rparr> = Inr result \<and> IsInteger (Some result)"
  using Increment_result[of "Integer_value 2" "NumericIncrementTransform (Integer_value 2)" None "\<lambda>s. [s]" "\<lparr>ts_seconds = 0, ts_nanos = 0\<rparr>"]
  by (auto simp: make_NumericIncrementTransform_def IsNumber_def)

end
