(* ===== verification/Mutations.thy ===== *)
theory Mutations
  imports Transform_Ops
begin

text \<open>
  Documents and writes: \<^verbatim>\<open>model/mutable_document.cc\<close>, \<^verbatim>\<open>model/precondition.cc\<close>,
  \<^verbatim>\<open>model/mutation.cc\<close> and its four subclasses, \<^verbatim>\<open>model/mutation_batch.cc\<close>.

  A document is a record that every operation returns updated; a mutation that the code applies
  through a reference to a document returns the new document and the new mask. The class hierarchy
  behind \<^verbatim>\<open>Mutation::Rep\<close> is one datatype. A document owns its object value.
\<close>

section \<open>Documents\<close>

type_synonym SnapshotVersion = google_protobuf_Timestamp

definition SnapshotVersion_None :: SnapshotVersion where
  "SnapshotVersion_None = \<lparr>ts_seconds = 0, ts_nanos = 0\<rparr>"

datatype DocumentType = kInvalid | kFoundDocument | kNoDocument | kUnknownDocument

datatype DocumentState = kHasLocalMutations | kHasCommittedMutations | kSynced

record MutableDocument =
  doc_key :: DocumentKey
  document_type :: DocumentType
  doc_version :: SnapshotVersion
  read_time :: SnapshotVersion
  doc_data :: ObjectValue
  document_state :: DocumentState

definition InvalidDocument :: "DocumentKey \<Rightarrow> MutableDocument" where
  "InvalidDocument document_key =
     \<lparr>doc_key = document_key, document_type = kInvalid, doc_version = SnapshotVersion_None,
      read_time = SnapshotVersion_None, doc_data = ObjectValue_new, document_state = kSynced\<rparr>"

definition ConvertToFoundDocument_value :: "SnapshotVersion \<Rightarrow> ObjectValue \<Rightarrow> MutableDocument \<Rightarrow> MutableDocument" where
  "ConvertToFoundDocument_value v object doc =
     doc\<lparr>doc_version := v, document_type := kFoundDocument, doc_data := object, document_state := kSynced\<rparr>"

definition ConvertToFoundDocument :: "SnapshotVersion \<Rightarrow> MutableDocument \<Rightarrow> MutableDocument" where
  "ConvertToFoundDocument v doc = doc\<lparr>doc_version := v, document_type := kFoundDocument, document_state := kSynced\<rparr>"

definition ConvertToNoDocument :: "SnapshotVersion \<Rightarrow> MutableDocument \<Rightarrow> MutableDocument" where
  "ConvertToNoDocument v doc =
     doc\<lparr>doc_version := v, document_type := kNoDocument, doc_data := ObjectValue_new, document_state := kSynced\<rparr>"

definition ConvertToUnknownDocument :: "SnapshotVersion \<Rightarrow> MutableDocument \<Rightarrow> MutableDocument" where
  "ConvertToUnknownDocument v doc =
     doc\<lparr>doc_version := v, document_type := kUnknownDocument, doc_data := ObjectValue_new,
         document_state := kHasCommittedMutations\<rparr>"

definition FoundDocument :: "DocumentKey \<Rightarrow> SnapshotVersion \<Rightarrow> ObjectValue \<Rightarrow> MutableDocument" where
  "FoundDocument document_key v object = ConvertToFoundDocument_value v object (InvalidDocument document_key)"

definition NoDocument :: "DocumentKey \<Rightarrow> SnapshotVersion \<Rightarrow> MutableDocument" where
  "NoDocument document_key v = ConvertToNoDocument v (InvalidDocument document_key)"

definition UnknownDocument :: "DocumentKey \<Rightarrow> SnapshotVersion \<Rightarrow> MutableDocument" where
  "UnknownDocument document_key v = ConvertToUnknownDocument v (InvalidDocument document_key)"

definition SetHasCommittedMutations :: "MutableDocument \<Rightarrow> MutableDocument" where
  "SetHasCommittedMutations doc = doc\<lparr>document_state := kHasCommittedMutations\<rparr>"

definition SetHasLocalMutations :: "MutableDocument \<Rightarrow> MutableDocument" where
  "SetHasLocalMutations doc = doc\<lparr>document_state := kHasLocalMutations, doc_version := SnapshotVersion_None\<rparr>"

definition WithReadTime :: "SnapshotVersion \<Rightarrow> MutableDocument \<Rightarrow> MutableDocument" where
  "WithReadTime v doc = doc\<lparr>read_time := v\<rparr>"

definition MutableDocument_Clone :: "MutableDocument \<Rightarrow> MutableDocument res" where
  "MutableDocument_Clone doc =
     bind_res (ObjectValue_of (DeepClone (Map_value (doc_data doc)))) (\<lambda>object. Inr (doc\<lparr>doc_data := object\<rparr>))"

definition has_local_mutations :: "MutableDocument \<Rightarrow> bool" where
  "has_local_mutations doc \<longleftrightarrow> document_state doc = kHasLocalMutations"

definition has_committed_mutations :: "MutableDocument \<Rightarrow> bool" where
  "has_committed_mutations doc \<longleftrightarrow> document_state doc = kHasCommittedMutations"

definition has_pending_writes :: "MutableDocument \<Rightarrow> bool" where
  "has_pending_writes doc \<longleftrightarrow> has_local_mutations doc \<or> has_committed_mutations doc"

definition is_valid_document :: "MutableDocument \<Rightarrow> bool" where
  "is_valid_document doc \<longleftrightarrow> document_type doc \<noteq> kInvalid"

definition is_found_document :: "MutableDocument \<Rightarrow> bool" where
  "is_found_document doc \<longleftrightarrow> document_type doc = kFoundDocument"

definition is_no_document :: "MutableDocument \<Rightarrow> bool" where
  "is_no_document doc \<longleftrightarrow> document_type doc = kNoDocument"

definition is_unknown_document :: "MutableDocument \<Rightarrow> bool" where
  "is_unknown_document doc \<longleftrightarrow> document_type doc = kUnknownDocument"

section \<open>Preconditions\<close>

datatype PreconditionType = Precondition_None | Precondition_Exists | Precondition_UpdateTime

record Precondition =
  precondition_type :: PreconditionType
  update_time :: SnapshotVersion
  precondition_exists :: bool

definition make_Exists :: "bool \<Rightarrow> Precondition" where
  "make_Exists e = \<lparr>precondition_type = Precondition_Exists, update_time = SnapshotVersion_None, precondition_exists = e\<rparr>"

definition make_UpdateTime :: "SnapshotVersion \<Rightarrow> Precondition" where
  "make_UpdateTime v = \<lparr>precondition_type = Precondition_UpdateTime, update_time = v, precondition_exists = False\<rparr>"

definition make_None :: Precondition where
  "make_None = \<lparr>precondition_type = Precondition_None, update_time = SnapshotVersion_None, precondition_exists = False\<rparr>"

definition IsValidFor :: "Precondition \<Rightarrow> MutableDocument \<Rightarrow> bool" where
  "IsValidFor pre document = (case precondition_type pre of
     Precondition_UpdateTime \<Rightarrow> is_found_document document \<and> doc_version document = update_time pre
   | Precondition_Exists \<Rightarrow> precondition_exists pre = is_found_document document
   | Precondition_None \<Rightarrow> True)"

section \<open>Mutations\<close>

type_synonym FieldTransform = "FieldPath \<times> TransformOperation"

datatype Mutation =
    SetMutation (mutation_key: DocumentKey) (mutation_value: ObjectValue) (precondition: Precondition)
      (field_transforms: "FieldTransform list")
  | PatchMutation (mutation_key: DocumentKey) (mutation_value: ObjectValue) (field_mask: FieldMask)
      (precondition: Precondition) (field_transforms: "FieldTransform list")
  | DeleteMutation (mutation_key: DocumentKey) (precondition: Precondition)
  | VerifyMutation (mutation_key: DocumentKey) (precondition: Precondition)

record MutationResult =
  result_version :: SnapshotVersion
  transform_results :: "Value list"

definition VerifyKeyMatches :: "Mutation \<Rightarrow> MutableDocument \<Rightarrow> unit res" where
  "VerifyKeyMatches mutation document =
     (if doc_key document = mutation_key mutation then Inr () else Inl HardAssert)"

fun server_transforms ::
  "(string \<Rightarrow> string list) \<Rightarrow> ObjectValue \<Rightarrow> FieldTransform list \<Rightarrow> Value list \<Rightarrow> TransformMap \<Rightarrow> TransformMap res" where
  "server_transforms split previous_data ((path, transform) # transforms) (v # values) results =
     bind_res (ApplyToRemoteDocument split transform (ObjectValue_Get previous_data path) (DeepClone v)) (\<lambda>transformed_value.
       server_transforms split previous_data transforms values
         (map_assign Path_CompareTo path (Some transformed_value) results))"
| "server_transforms split previous_data _ _ results = Inr results"

definition ServerTransformResults ::
  "(string \<Rightarrow> string list) \<Rightarrow> FieldTransform list \<Rightarrow> ObjectValue \<Rightarrow> Value list \<Rightarrow> TransformMap res" where
  "ServerTransformResults split transforms previous_data server_transform_results =
     (if length transforms = length server_transform_results
      then server_transforms split previous_data transforms server_transform_results []
      else Inl HardAssert)"

fun local_transforms ::
  "(string \<Rightarrow> string list) \<Rightarrow> ObjectValue \<Rightarrow> google_protobuf_Timestamp \<Rightarrow> FieldTransform list \<Rightarrow> TransformMap \<Rightarrow> TransformMap res" where
  "local_transforms split previous_data local_write_time [] results = Inr results"
| "local_transforms split previous_data local_write_time ((path, transform) # transforms) results =
     bind_res (ApplyToLocalView split transform (ObjectValue_Get previous_data path) local_write_time) (\<lambda>transformed_value.
       local_transforms split previous_data local_write_time transforms
         (map_assign Path_CompareTo path (Some transformed_value) results))"

definition LocalTransformResults ::
  "(string \<Rightarrow> string list) \<Rightarrow> FieldTransform list \<Rightarrow> ObjectValue \<Rightarrow> google_protobuf_Timestamp \<Rightarrow> TransformMap res" where
  "LocalTransformResults split transforms previous_data local_write_time =
     local_transforms split previous_data local_write_time transforms []"

fun transform_base :: "MutableDocument \<Rightarrow> FieldTransform list \<Rightarrow> ObjectValue option \<Rightarrow> ObjectValue option res" where
  "transform_base document [] base_object = Inr base_object"
| "transform_base document ((path, transform) # transforms) base_object =
     (case ComputeBaseValue transform (ObjectValue_Get (doc_data document) path) of
        None \<Rightarrow> transform_base document transforms base_object
      | Some coerced_value \<Rightarrow>
          bind_res (ObjectValue_Set (case base_object of None \<Rightarrow> ObjectValue_new | Some b \<Rightarrow> b) path coerced_value) (\<lambda>b.
            transform_base document transforms (Some b)))"

definition ExtractTransformBaseValue :: "FieldTransform list \<Rightarrow> MutableDocument \<Rightarrow> ObjectValue option res" where
  "ExtractTransformBaseValue transforms document = transform_base document transforms None"

definition GetPatch :: "ObjectValue \<Rightarrow> FieldMask \<Rightarrow> TransformMap" where
  "GetPatch object paths =
     fold (\<lambda>path result. if path \<noteq> [] then map_assign Path_CompareTo path (map_option DeepClone (ObjectValue_Get object path)) result
                         else result) paths []"

fun Mutation_ApplyToRemoteDocument ::
  "(string \<Rightarrow> string list) \<Rightarrow> Mutation \<Rightarrow> MutableDocument \<Rightarrow> MutationResult \<Rightarrow> MutableDocument res" where
  "Mutation_ApplyToRemoteDocument split (SetMutation key object pre transforms) document mutation_result =
     bind_res (VerifyKeyMatches (SetMutation key object pre transforms) document) (\<lambda>_.
     bind_res (ServerTransformResults split transforms (doc_data document) (transform_results mutation_result)) (\<lambda>results.
     bind_res (ObjectValue_of (DeepClone (Map_value object))) (\<lambda>new_data.
     bind_res (ObjectValue_SetAll new_data results) (\<lambda>new_data'.
       Inr (SetHasCommittedMutations (ConvertToFoundDocument_value (result_version mutation_result) new_data' document))))))"
| "Mutation_ApplyToRemoteDocument split (PatchMutation key object paths pre transforms) document mutation_result =
     bind_res (VerifyKeyMatches (PatchMutation key object paths pre transforms) document) (\<lambda>_.
       if \<not> IsValidFor pre document then Inr (ConvertToUnknownDocument (result_version mutation_result) document)
       else
         bind_res (ServerTransformResults split transforms (doc_data document) (transform_results mutation_result)) (\<lambda>results.
         bind_res (ObjectValue_SetAll (doc_data document) (GetPatch object paths)) (\<lambda>data.
         bind_res (ObjectValue_SetAll data results) (\<lambda>data'.
           Inr (SetHasCommittedMutations
             (ConvertToFoundDocument (result_version mutation_result) (document\<lparr>doc_data := data'\<rparr>)))))))"
| "Mutation_ApplyToRemoteDocument split (DeleteMutation key pre) document mutation_result =
     bind_res (VerifyKeyMatches (DeleteMutation key pre) document) (\<lambda>_.
       if transform_results mutation_result = []
       then Inr (SetHasCommittedMutations (ConvertToNoDocument (result_version mutation_result) document))
       else Inl HardAssert)"
| "Mutation_ApplyToRemoteDocument split (VerifyMutation key pre) document mutation_result = Inl HardFail"

fun Mutation_ApplyToLocalView ::
  "(string \<Rightarrow> string list) \<Rightarrow> Mutation \<Rightarrow> MutableDocument \<Rightarrow> FieldMask option \<Rightarrow> google_protobuf_Timestamp \<Rightarrow>
   (MutableDocument \<times> FieldMask option) res" where
  "Mutation_ApplyToLocalView split (SetMutation key object pre transforms) document previous_mask local_write_time =
     bind_res (VerifyKeyMatches (SetMutation key object pre transforms) document) (\<lambda>_.
       if \<not> IsValidFor pre document then Inr (document, previous_mask)
       else
         bind_res (LocalTransformResults split transforms (doc_data document) local_write_time) (\<lambda>results.
         bind_res (ObjectValue_of (DeepClone (Map_value object))) (\<lambda>new_data.
         bind_res (ObjectValue_SetAll new_data results) (\<lambda>new_data'.
           Inr (SetHasLocalMutations (ConvertToFoundDocument_value (doc_version document) new_data' document), None)))))"
| "Mutation_ApplyToLocalView split (PatchMutation key object paths pre transforms) document previous_mask local_write_time =
     bind_res (VerifyKeyMatches (PatchMutation key object paths pre transforms) document) (\<lambda>_.
       if \<not> IsValidFor pre document then Inr (document, previous_mask)
       else
         bind_res (LocalTransformResults split transforms (doc_data document) local_write_time) (\<lambda>results.
         bind_res (ObjectValue_SetAll (doc_data document) (GetPatch object paths)) (\<lambda>data.
         bind_res (ObjectValue_SetAll data results) (\<lambda>data'.
           Inr (SetHasLocalMutations (ConvertToFoundDocument (doc_version document) (document\<lparr>doc_data := data'\<rparr>)),
                map_option (\<lambda>previous.
                  fold (set_insert Path_CompareTo) (map fst transforms)
                    (fold (set_insert Path_CompareTo) paths previous)) previous_mask)))))"
| "Mutation_ApplyToLocalView split (DeleteMutation key pre) document previous_mask local_write_time =
     bind_res (VerifyKeyMatches (DeleteMutation key pre) document) (\<lambda>_.
       if IsValidFor pre document
       then Inr (SetHasLocalMutations (ConvertToNoDocument SnapshotVersion_None document), None)
       else Inr (document, previous_mask))"
| "Mutation_ApplyToLocalView split (VerifyMutation key pre) document previous_mask local_write_time = Inl HardFail"

section \<open>Overlays\<close>

fun overlay_loop :: "ObjectValue \<Rightarrow> FieldMask \<Rightarrow> ObjectValue \<Rightarrow> FieldMask \<Rightarrow> (ObjectValue \<times> FieldMask) res" where
  "overlay_loop doc_value [] patch_value mask_set = Inr (patch_value, mask_set)"
| "overlay_loop doc_value (p # ps) patch_value mask_set =
     (if p \<in> set mask_set then overlay_loop doc_value ps patch_value mask_set
      else
        bind_res (if ObjectValue_Get doc_value p = None \<and> 1 < length p then PopLast p else Inr p) (\<lambda>path.
        bind_res (case ObjectValue_Get doc_value path of
                    Some v \<Rightarrow> ObjectValue_Set patch_value path (DeepClone v)
                  | None \<Rightarrow> ObjectValue_Delete patch_value path) (\<lambda>patch_value'.
          overlay_loop doc_value ps patch_value' (set_insert Path_CompareTo path mask_set))))"

definition CalculateOverlayMutation :: "MutableDocument \<Rightarrow> FieldMask option \<Rightarrow> Mutation option res" where
  "CalculateOverlayMutation doc mask_paths =
     (if \<not> has_local_mutations doc then Inr None
      else case mask_paths of
        None \<Rightarrow> Inr (Some (if is_no_document doc then DeleteMutation (doc_key doc) make_None
                             else SetMutation (doc_key doc) (doc_data doc) make_None []))
      | Some paths \<Rightarrow>
          bind_res (overlay_loop (doc_data doc) paths ObjectValue_new []) (\<lambda>(patch_value, mask_set).
            Inr (Some (PatchMutation (doc_key doc) patch_value mask_set make_None []))))"

section \<open>Batches\<close>

record MutationBatch =
  batch_id :: int
  local_write_time :: google_protobuf_Timestamp
  base_mutations :: "Mutation list"
  mutations :: "Mutation list"

definition make_MutationBatch ::
  "int \<Rightarrow> google_protobuf_Timestamp \<Rightarrow> Mutation list \<Rightarrow> Mutation list \<Rightarrow> MutationBatch res" where
  "make_MutationBatch i t bases muts =
     (if muts \<noteq> [] then Inr \<lparr>batch_id = i, local_write_time = t, base_mutations = bases, mutations = muts\<rparr>
      else Inl HardAssert)"

fun remote_loop ::
  "(string \<Rightarrow> string list) \<Rightarrow> Mutation list \<Rightarrow> MutationResult list \<Rightarrow> MutableDocument \<Rightarrow> MutableDocument res" where
  "remote_loop split (m # ms) (r # rs) document =
     (if mutation_key m = doc_key document
      then bind_res (Mutation_ApplyToRemoteDocument split m document r) (\<lambda>document'. remote_loop split ms rs document')
      else remote_loop split ms rs document)"
| "remote_loop split _ _ document = Inr document"

definition Batch_ApplyToRemoteDocument ::
  "(string \<Rightarrow> string list) \<Rightarrow> MutationBatch \<Rightarrow> MutableDocument \<Rightarrow> MutationResult list \<Rightarrow> MutableDocument res" where
  "Batch_ApplyToRemoteDocument split batch document mutation_results =
     (if length mutation_results = length (mutations batch)
      then remote_loop split (mutations batch) mutation_results document
      else Inl HardAssert)"

fun local_loop ::
  "(string \<Rightarrow> string list) \<Rightarrow> google_protobuf_Timestamp \<Rightarrow> Mutation list \<Rightarrow> MutableDocument \<Rightarrow> FieldMask option \<Rightarrow>
   (MutableDocument \<times> FieldMask option) res" where
  "local_loop split t [] document mutated_fields = Inr (document, mutated_fields)"
| "local_loop split t (m # ms) document mutated_fields =
     (if mutation_key m = doc_key document
      then bind_res (Mutation_ApplyToLocalView split m document mutated_fields t)
             (\<lambda>(document', mutated_fields'). local_loop split t ms document' mutated_fields')
      else local_loop split t ms document mutated_fields)"

definition ApplyToLocalDocument_from ::
  "(string \<Rightarrow> string list) \<Rightarrow> MutationBatch \<Rightarrow> MutableDocument \<Rightarrow> FieldMask option \<Rightarrow>
   (MutableDocument \<times> FieldMask option) res" where
  "ApplyToLocalDocument_from split batch document previously_mutated_fields =
     bind_res (local_loop split (local_write_time batch) (base_mutations batch) document previously_mutated_fields)
       (\<lambda>(document', mutated_fields).
         local_loop split (local_write_time batch) (mutations batch) document' mutated_fields)"

definition ApplyToLocalDocument ::
  "(string \<Rightarrow> string list) \<Rightarrow> MutationBatch \<Rightarrow> MutableDocument \<Rightarrow> (MutableDocument \<times> FieldMask option) res" where
  "ApplyToLocalDocument split batch document = ApplyToLocalDocument_from split batch document (Some [])"

record OverlayedDocument =
  overlayed_document :: MutableDocument
  mutated_fields :: "FieldMask option"

text \<open>
  The documents are changed in place. \<^verbatim>\<open>emplace\<close> keeps the overlay that is already there for a key.
\<close>

fun document_set_loop ::
  "(string \<Rightarrow> string list) \<Rightarrow> MutationBatch \<Rightarrow> Mutation list \<Rightarrow> (DocumentKey \<rightharpoonup> OverlayedDocument) \<Rightarrow>
   (DocumentKey \<rightharpoonup> Mutation) \<Rightarrow> ((DocumentKey \<rightharpoonup> OverlayedDocument) \<times> (DocumentKey \<rightharpoonup> Mutation)) res" where
  "document_set_loop split batch [] document_map overlays = Inr (document_map, overlays)"
| "document_set_loop split batch (m # ms) document_map overlays =
     (case document_map (mutation_key m) of
        None \<Rightarrow> Inl HardAssert
      | Some entry \<Rightarrow>
          bind_res (ApplyToLocalDocument_from split batch (overlayed_document entry) (mutated_fields entry))
            (\<lambda>(document, new_fields).
          bind_res (CalculateOverlayMutation document new_fields) (\<lambda>overlay.
            let overlays' = (case overlay of
                   Some ov \<Rightarrow> if overlays (mutation_key m) = None then overlays(mutation_key m \<mapsto> ov) else overlays
                 | None \<Rightarrow> overlays);
                document' = (if \<not> is_valid_document document then ConvertToNoDocument SnapshotVersion_None document else document)
            in document_set_loop split batch ms
                 (document_map(mutation_key m \<mapsto> entry\<lparr>overlayed_document := document'\<rparr>)) overlays')))"

definition ApplyToLocalDocumentSet ::
  "(string \<Rightarrow> string list) \<Rightarrow> MutationBatch \<Rightarrow> (DocumentKey \<rightharpoonup> OverlayedDocument) \<Rightarrow>
   ((DocumentKey \<rightharpoonup> OverlayedDocument) \<times> (DocumentKey \<rightharpoonup> Mutation)) res" where
  "ApplyToLocalDocumentSet split batch document_map =
     document_set_loop split batch (mutations batch) document_map (\<lambda>_. None)"

definition Batch_keys :: "MutationBatch \<Rightarrow> DocumentKey list" where
  "Batch_keys batch = fold (set_insert DocumentKey_CompareTo) (map mutation_key (mutations batch)) []"

record MutationBatchResult =
  result_batch :: MutationBatch
  commit_version :: SnapshotVersion
  mutation_results :: "MutationResult list"
  doc_versions :: "DocumentKey \<rightharpoonup> SnapshotVersion"

definition make_MutationBatchResult ::
  "MutationBatch \<Rightarrow> SnapshotVersion \<Rightarrow> MutationResult list \<Rightarrow> MutationBatchResult res" where
  "make_MutationBatchResult batch v results =
     (if length (mutations batch) = length results then
        Inr \<lparr>result_batch = batch, commit_version = v, mutation_results = results,
             doc_versions = fold (\<lambda>(m, r) versions. versions(mutation_key m \<mapsto> result_version r)) (zip (mutations batch) results) (\<lambda>_. None)\<rparr>
      else Inl HardAssert)"

section \<open>Effect on the document\<close>

lemmas document_updates = ConvertToFoundDocument_value_def ConvertToFoundDocument_def ConvertToNoDocument_def
  ConvertToUnknownDocument_def SetHasLocalMutations_def SetHasCommittedMutations_def

lemma Mutation_ApplyToLocalView_effect:
  assumes "Mutation_ApplyToLocalView split m d fs t = Inr (d', fs')"
  shows "doc_key d' = doc_key d \<and> read_time d' = read_time d \<and>
    (d' = d \<and> fs' = fs \<or> has_local_mutations d' \<and> doc_version d' = SnapshotVersion_None)"
  using assms by (cases m) (auto simp: document_updates has_local_mutations_def split: if_splits)

lemma local_loop_effect:
  assumes "local_loop split t ms d fs = Inr (d', fs')"
  shows "doc_key d' = doc_key d \<and> read_time d' = read_time d \<and>
    (d' = d \<and> fs' = fs \<or> has_local_mutations d' \<and> doc_version d' = SnapshotVersion_None)"
  using assms
proof (induction ms arbitrary: d fs)
  case (Cons m ms)
  show ?case
  proof (cases "mutation_key m = doc_key d")
    case True
    then obtain d1 fs1 where s: "Mutation_ApplyToLocalView split m d fs t = Inr (d1, fs1)"
      "local_loop split t ms d1 fs1 = Inr (d', fs')" using Cons.prems by auto
    show ?thesis using Mutation_ApplyToLocalView_effect[OF s(1)] Cons.IH[OF s(2)] by auto
  next
    case False
    then show ?thesis using Cons by simp
  qed
qed simp

lemma local_loop_filter:
  "local_loop split t ms d fs = local_loop split t (filter (\<lambda>m. mutation_key m = doc_key d) ms) d fs"
proof (induction ms arbitrary: d fs)
  case (Cons m ms)
  show ?case
  proof (cases "mutation_key m = doc_key d")
    case True
    have "(case r of (d1, fs1) \<Rightarrow> local_loop split t ms d1 fs1) =
        (case r of (d1, fs1) \<Rightarrow> local_loop split t (filter (\<lambda>m. mutation_key m = doc_key d) ms) d1 fs1)"
      if "Mutation_ApplyToLocalView split m d fs t = Inr r" for r
      using Cons.IH Mutation_ApplyToLocalView_effect[of split m d fs t "fst r" "snd r"] that by (cases r) simp
    then show ?thesis using True
      by (cases "Mutation_ApplyToLocalView split m d fs t") simp_all
  next
    case False
    then show ?thesis using Cons by simp
  qed
qed simp

lemma Mutation_ApplyToRemoteDocument_effect:
  assumes "Mutation_ApplyToRemoteDocument split m d r = Inr d'"
  shows "doc_key d' = doc_key d" "has_committed_mutations d'" "doc_version d' = result_version r"
  using assms by (cases m; auto simp: document_updates has_committed_mutations_def split: if_splits)+

definition versions_for :: "DocumentKey \<Rightarrow> Mutation list \<Rightarrow> MutationResult list \<Rightarrow> SnapshotVersion list" where
  "versions_for k ms rs = map (\<lambda>p. result_version (snd p)) (filter (\<lambda>p. mutation_key (fst p) = k) (zip ms rs))"

lemma remote_loop_effect:
  assumes "remote_loop split ms rs d = Inr d'"
  shows "doc_key d' = doc_key d \<and>
    (if versions_for (doc_key d) ms rs = [] then d' = d
     else has_committed_mutations d' \<and> doc_version d' = last (versions_for (doc_key d) ms rs))"
  using assms
proof (induction split ms rs d rule: remote_loop.induct)
  case (1 split m ms r rs d)
  show ?case
  proof (cases "mutation_key m = doc_key d")
    case True
    then obtain d1 where s: "Mutation_ApplyToRemoteDocument split m d r = Inr d1" "remote_loop split ms rs d1 = Inr d'"
      using 1(3) by auto
    note e = Mutation_ApplyToRemoteDocument_effect[OF s(1)]
    show ?thesis using 1(1)[OF True s(2)] e True
      by (cases "versions_for (doc_key d) ms rs = []") (simp_all add: versions_for_def)
  next
    case False
    then show ?thesis using 1(2)[OF False] 1(3) by (simp add: versions_for_def)
  qed
qed (auto simp: versions_for_def)

lemma doc_versions_last:
  "fold (\<lambda>(m, r) versions. versions(mutation_key m \<mapsto> result_version r)) ps f k =
     (if map (\<lambda>p. result_version (snd p)) (filter (\<lambda>p. mutation_key (fst p) = k) ps) = [] then f k
      else Some (last (map (\<lambda>p. result_version (snd p)) (filter (\<lambda>p. mutation_key (fst p) = k) ps))))"
  by (induction ps arbitrary: f) (auto split: if_splits)

section \<open>Overlay mutations\<close>

lemma IsValidFor_None [simp]: "IsValidFor make_None d"
  by (simp add: IsValidFor_def make_None_def)

lemma overlay_whole:
  assumes "has_local_mutations doc" "object_ok (doc_data doc)" "doc_version doc = SnapshotVersion_None"
    and "is_found_document doc \<or> is_no_document doc \<and> doc_data doc = ObjectValue_new"
    and "CalculateOverlayMutation doc None = Inr (Some m)" "doc_key base = doc_key doc"
  shows "Mutation_ApplyToLocalView split m base fs t = Inr (doc\<lparr>read_time := read_time base\<rparr>, None)"
proof (cases "is_no_document doc")
  case True
  then have "m = DeleteMutation (doc_key doc) make_None" "doc_data doc = ObjectValue_new"
    using assms by (auto simp: CalculateOverlayMutation_def is_found_document_def is_no_document_def)
  then show ?thesis
    using assms True by (auto simp: VerifyKeyMatches_def document_updates has_local_mutations_def is_no_document_def)
next
  case False
  then have "m = SetMutation (doc_key doc) (doc_data doc) make_None []" "is_found_document doc"
    using assms by (auto simp: CalculateOverlayMutation_def)
  then show ?thesis
    using assms by (auto simp: VerifyKeyMatches_def document_updates has_local_mutations_def is_found_document_def
        LocalTransformResults_def ObjectValue_of_object)
qed

text \<open>The paths of a mask that name present, unrelated fields.\<close>

definition mask_ok :: "ObjectValue \<Rightarrow> FieldMask \<Rightarrow> bool" where
  "mask_ok object paths \<longleftrightarrow> sorted_wrt (\<lambda>p q. \<not> comparable p q) paths \<and>
     (\<forall>p \<in> set paths. p \<noteq> [] \<and> ObjectValue_Get object p \<noteq> None)"

lemma comparable_refl [simp]: "comparable p p"
  by (induction p) simp_all

lemma sorted_wrt_incomparable:
  "sorted_wrt (\<lambda>p q. \<not> comparable p q) ps \<Longrightarrow> p \<in> set ps \<Longrightarrow> q \<in> set ps \<Longrightarrow> p \<noteq> q \<Longrightarrow> \<not> comparable p q"
  by (induction ps) (auto dest: comparable_sym[THEN iffD1])

lemma Get_unique_keys: "object_ok object \<Longrightarrow> ObjectValue_Get object p = Some v \<Longrightarrow> unique_keys v \<and> SortFields v = v"
  using Get_walk_sorted[of "Map_value object" p v]
  by (simp only: object_ok_def ObjectValue_Get_def sorted_value_unique_keys sorted_value_SortFields simp_thms)

lemma overlay_loop_correct:
  assumes "object_ok object" "mask_ok object paths" "object_ok patch"
    and "\<And>p q. p \<in> set done \<Longrightarrow> q \<in> set paths \<Longrightarrow> \<not> comparable p q"
  shows "\<exists>patch' paths'. overlay_loop object paths patch done = Inr (patch', paths') \<and> object_ok patch' \<and>
    set paths' = set done \<union> set paths \<and> applied patch patch' ((\<lambda>p. (p, ObjectValue_Get object p)) ` set paths)"
  using assms(2-)
proof (induction paths arbitrary: patch "done")
  case Nil
  then show ?case by (auto intro: appliedI)
next
  case (Cons p ps)
  obtain v where v: "ObjectValue_Get object p = Some v" "p \<noteq> []" using Cons.prems(1) by (auto simp: mask_ok_def)
  obtain patch1 where p1: "ObjectValue_Set patch p v = Inr patch1" "object_ok patch1" "applied patch patch1 {(p, Some v)}"
    using Set_applied[OF Cons.prems(2) _ v(2)] Get_unique_keys[OF assms(1) v(1)] by blast
  have ps: "mask_ok object ps" "\<And>q. q \<in> set ps \<Longrightarrow> \<not> comparable p q" using Cons.prems(1) by (auto simp: mask_ok_def)
  have new: "p \<notin> set done" using Cons.prems(3)[of p p] by auto
  have "\<not> comparable q r" if "q \<in> set (set_insert Path_CompareTo p done)" "r \<in> set ps" for q r
    using that ps(2) Cons.prems(3)[of q r] by auto
  from Cons.IH[OF ps(1) p1(2) this] obtain patch' paths'
    where r: "overlay_loop object ps patch1 (set_insert Path_CompareTo p done) = Inr (patch', paths')" "object_ok patch'"
      "set paths' = set (set_insert Path_CompareTo p done) \<union> set ps"
      "applied patch1 patch' ((\<lambda>p. (p, ObjectValue_Get object p)) ` set ps)" by blast
  have "applied patch patch' ({(p, Some v)} \<union> (\<lambda>p. (p, ObjectValue_Get object p)) ` set ps)"
    using p1(3) r(4) by (rule applied_trans) (use ps(2) v(2) in auto)
  then show ?case using new v p1(1) r(1,2,3) by auto
qed

lemma GetPatch_entries:
  assumes "\<And>p. p \<in> set paths \<Longrightarrow> p \<noteq> []"
  shows "set (GetPatch object paths) = (\<lambda>p. (p, ObjectValue_Get object p)) ` set paths \<and>
    sorted_entries Path_CompareTo (GetPatch object paths)"
proof -
  have "set (fold (\<lambda>path result. if path \<noteq> [] then map_assign Path_CompareTo path (map_option DeepClone (ObjectValue_Get object path)) result
          else result) paths acc) = (\<lambda>p. (p, ObjectValue_Get object p)) ` (S \<union> set paths) \<and>
      sorted_entries Path_CompareTo (fold (\<lambda>path result. if path \<noteq> [] then map_assign Path_CompareTo path (map_option DeepClone (ObjectValue_Get object path)) result
          else result) paths acc)"
    if "sorted_entries Path_CompareTo acc" "set acc = (\<lambda>p. (p, ObjectValue_Get object p)) ` S" for acc S
    using assms that
  proof (induction paths arbitrary: acc S)
    case (Cons p ps)
    have "map_option DeepClone (ObjectValue_Get object p) = ObjectValue_Get object p"
      by (cases "ObjectValue_Get object p") simp_all
    moreover have "insert (p, ObjectValue_Get object p) {e \<in> set acc. fst e \<noteq> p} =
        (\<lambda>p. (p, ObjectValue_Get object p)) ` (insert p S)" using Cons.prems(3) by auto
    ultimately show ?case
      using Cons.IH[of "map_assign Path_CompareTo p (ObjectValue_Get object p) acc" "insert p S"]
        path_cmp.map_assign_entries[OF Cons.prems(2), of p "ObjectValue_Get object p"] Cons.prems(1) by simp
  qed simp
  from this[of "[]" "{}"] show ?thesis by (simp add: GetPatch_def sorted_entries_def)
qed

lemma GetPatch_changes_ok:
  assumes "object_ok object" "\<And>p. p \<in> set paths \<Longrightarrow> p \<noteq> [] \<and> ObjectValue_Get object p \<noteq> None"
    and "\<And>p q. p \<in> set paths \<Longrightarrow> q \<in> set paths \<Longrightarrow> p \<noteq> q \<Longrightarrow> \<not> comparable p q"
  shows "changes_ok (GetPatch object paths)"
proof -
  note e = GetPatch_entries[of paths object]
  have s: "set (GetPatch object paths) = (\<lambda>p. (p, ObjectValue_Get object p)) ` set paths"
    "sorted_entries Path_CompareTo (GetPatch object paths)" using e assms(2) by blast+
  have "change_ok c" if "c \<in> set (GetPatch object paths)" for c
    using that assms(2) Get_unique_keys[OF assms(1)] unfolding s(1) by (auto split: option.split)
  moreover have "sorted_wrt independent (GetPatch object paths)"
  proof (rule sorted_wrt_mono_rel[OF _ s(2)[unfolded sorted_entries_def]])
    fix c d assume c: "c \<in> set (GetPatch object paths)" "d \<in> set (GetPatch object paths)"
      and "Path_CompareTo (fst c) (fst d) = Ascending"
    then have "fst c \<noteq> fst d" by auto
    moreover obtain p where "c = (p, ObjectValue_Get object p)" "p \<in> set paths" using c(1) unfolding s(1) by blast
    then have "snd c \<noteq> None" using assms(2)[of p] by simp
    ultimately show "independent c d" using c assms(3) unfolding s(1) by (auto simp: independent_def)
  qed
  ultimately show ?thesis by (simp add: changes_ok_def list_all_iff)
qed

lemma overlay_patch:
  assumes "has_local_mutations doc" "object_ok (doc_data doc)" "mask_ok (doc_data doc) paths"
    and "CalculateOverlayMutation doc (Some paths) = Inr (Some m)"
    and "doc_key base = doc_key doc" "object_ok (doc_data base)"
    and agree: "\<And>q. (\<And>p. p \<in> set paths \<Longrightarrow> \<not> comparable p q) \<Longrightarrow>
      ObjectValue_Get (doc_data base) q = ObjectValue_Get (doc_data doc) q"
  shows "\<exists>base' fs'. Mutation_ApplyToLocalView split m base fs t = Inr (base', fs') \<and> is_found_document base' \<and>
    object_ok (doc_data base') \<and>
    (\<forall>q. q \<noteq> [] \<longrightarrow> (\<forall>p \<in> set paths. IsPrefixOf q p \<longrightarrow> q = p) \<longrightarrow>
      ObjectValue_Get (doc_data base') q = ObjectValue_Get (doc_data doc) q)"
proof -
  let ?get = "ObjectValue_Get (doc_data doc)"
  have "object_ok ObjectValue_new" by (simp add: object_ok_def ObjectValue_new_def sorted_entries_def)
  from overlay_loop_correct[OF assms(2,3) this, of "[]"] obtain patch paths'
    where loop: "overlay_loop (doc_data doc) paths ObjectValue_new [] = Inr (patch, paths')" "object_ok patch"
      "set paths' = set paths" "applied ObjectValue_new patch ((\<lambda>p. (p, ?get p)) ` set paths)" by auto
  have m: "m = PatchMutation (doc_key doc) patch paths' make_None []"
    using assms(1,4) loop(1) by (simp add: CalculateOverlayMutation_def)
  have get: "ObjectValue_Get patch p = ?get p" if p: "p \<in> set paths" for p
  proof -
    obtain v where v: "?get p = Some v" using assms(3) p by (auto simp: mask_ok_def)
    have "ObjectValue_Get patch (p @ []) = written (?get p) []"
      using loop(4) by (rule applied_written) (rule imageI[OF p])
    then show ?thesis using v Get_unique_keys[OF assms(2) v] by (simp add: written_def)
  qed
  have paths: "p \<noteq> [] \<and> ObjectValue_Get patch p \<noteq> None" if "p \<in> set paths'" for p
    using that get assms(3) loop(3) by (auto simp: mask_ok_def)
  have "\<not> comparable p q" if "p \<in> set paths'" "q \<in> set paths'" "p \<noteq> q" for p q
    using sorted_wrt_incomparable[of paths p q] that loop(3) assms(3) by (simp add: mask_ok_def)
  from SetAll_applied[OF assms(6) GetPatch_changes_ok[OF loop(2) paths this]]
  obtain data where d: "ObjectValue_SetAll (doc_data base) (GetPatch patch paths') = Inr data" "object_ok data"
    "applied (doc_data base) data (set (GetPatch patch paths'))" by blast
  have entries: "set (GetPatch patch paths') = (\<lambda>p. (p, ?get p)) ` set paths"
    using GetPatch_entries[of paths' patch] paths get loop(3) by (auto simp: image_iff)
  have "ObjectValue_Get data q = ?get q" if q: "q \<noteq> []" "\<forall>p \<in> set paths. IsPrefixOf q p \<longrightarrow> q = p" for q
  proof (cases "\<exists>p \<in> set paths. IsPrefixOf p q")
    case True
    then obtain p r where p: "p \<in> set paths" "q = p @ r" by (auto simp: IsPrefixOf_iff)
    then obtain v where v: "?get p = Some v" using assms(3) by (auto simp: mask_ok_def)
    have "ObjectValue_Get data (p @ r) = written (?get p) r"
      using p(1) by (intro applied_written[OF d(3)]) (simp add: entries)
    then show ?thesis using p(2) v Get_unique_keys[OF assms(2) v]
      by (simp add: written_def ObjectValue_Get_def Get_walk_append)
  next
    case False
    then have none: "\<not> comparable p q" if "p \<in> set paths" for p
      using that q(2) unfolding comparable_def by (metis append_Nil2 IsPrefixOf_iff)
    have "ObjectValue_Get data q = ObjectValue_Get (doc_data base) q"
      using none by (intro applied_other[OF d(3) q(1)]) (auto simp: entries)
    then show ?thesis using agree[OF none] by simp
  qed
  then show ?thesis
    using d(1,2) assms(5) unfolding m
    by (auto simp: VerifyKeyMatches_def LocalTransformResults_def document_updates is_found_document_def)
qed

section \<open>Properties\<close>


text \<open>
  C30. Applying a batch locally keeps the key and the read time of the document, and either leaves the
  document and the mask as they are or marks the document as having local mutations and no version.
  Only the mutations for the key of the document matter.
\<close>

theorem Batch_local_effect:
  assumes "ApplyToLocalDocument_from split batch d fs = Inr (d', fs')"
  shows "doc_key d' = doc_key d \<and> read_time d' = read_time d \<and>
    (d' = d \<and> fs' = fs \<or> has_local_mutations d' \<and> doc_version d' = SnapshotVersion_None) \<and>
    ApplyToLocalDocument_from split (batch\<lparr>base_mutations := filter (\<lambda>m. mutation_key m = doc_key d) (base_mutations batch),
      mutations := filter (\<lambda>m. mutation_key m = doc_key d) (mutations batch)\<rparr>) d fs = Inr (d', fs')"
proof -
  obtain d1 fs1 where s: "local_loop split (local_write_time batch) (base_mutations batch) d fs = Inr (d1, fs1)"
    "local_loop split (local_write_time batch) (mutations batch) d1 fs1 = Inr (d', fs')"
    using assms by (auto simp: ApplyToLocalDocument_from_def)
  show ?thesis
    using local_loop_effect[OF s(1)] local_loop_effect[OF s(2)] s
      local_loop_filter[of split "local_write_time batch" "base_mutations batch" d fs]
      local_loop_filter[of split "local_write_time batch" "mutations batch" d1 fs1]
    by (auto simp: ApplyToLocalDocument_from_def)
qed

definition witness_batch :: MutationBatch where
  "witness_batch = \<lparr>batch_id = 1, local_write_time = SnapshotVersion_None, base_mutations = [],
     mutations = [SetMutation [''c'', ''d''] [(''x'', Integer_value 1)] make_None [],
                  DeleteMutation [''c'', ''e''] make_None]\<rparr>"

theorem Batch_local_effect_witness:
  "\<exists>d'. ApplyToLocalDocument_from (\<lambda>s. [s]) witness_batch (InvalidDocument [''c'', ''d'']) (Some []) = Inr (d', None) \<and>
     has_local_mutations d'"
proof -
  let ?d = "InvalidDocument [''c'', ''d'']"
  let ?d' = "SetHasLocalMutations (ConvertToFoundDocument_value SnapshotVersion_None [(''x'', Integer_value 1)] ?d)"
  have r: "ApplyToLocalDocument_from (\<lambda>s. [s]) witness_batch ?d (Some []) = Inr (?d', None)"
    by (simp add: ApplyToLocalDocument_from_def witness_batch_def InvalidDocument_def VerifyKeyMatches_def
        LocalTransformResults_def ObjectValue_of_object object_ok_def sorted_entries_def document_updates)
  show ?thesis using Batch_local_effect[OF r] r by auto
qed

text \<open>
  C31. Acknowledging a batch: when the batch writes the document, the document ends with committed
  mutations at exactly the version that the batch result records for its key, the version of the last
  write to it; otherwise the document is unchanged.
\<close>

theorem Batch_remote_version:
  assumes "make_MutationBatchResult batch v results = Inr r"
    and "Batch_ApplyToRemoteDocument split batch d (mutation_results r) = Inr d'"
  shows "doc_key d' = doc_key d \<and>
    (case doc_versions r (doc_key d) of None \<Rightarrow> d' = d
     | Some version \<Rightarrow> has_committed_mutations d' \<and> doc_version d' = version)"
proof -
  have r: "mutation_results r = results" "length (mutations batch) = length results"
    "doc_versions r = fold (\<lambda>(m, r) versions. versions(mutation_key m \<mapsto> result_version r)) (zip (mutations batch) results) (\<lambda>_. None)"
    using assms(1) by (auto simp: make_MutationBatchResult_def split: if_splits)
  have "remote_loop split (mutations batch) results d = Inr d'"
    using assms(2) r by (simp add: Batch_ApplyToRemoteDocument_def)
  from remote_loop_effect[OF this] show ?thesis
    using doc_versions_last[of "zip (mutations batch) results" "\<lambda>_. None" "doc_key d"] r(3)
    by (auto simp: versions_for_def split: if_splits)
qed

theorem Batch_remote_version_witness:
  "\<exists>r d'. make_MutationBatchResult witness_batch SnapshotVersion_None
      [\<lparr>result_version = \<lparr>ts_seconds = 5, ts_nanos = 0\<rparr>, transform_results = []\<rparr>,
       \<lparr>result_version = \<lparr>ts_seconds = 6, ts_nanos = 0\<rparr>, transform_results = []\<rparr>] = Inr r \<and>
     Batch_ApplyToRemoteDocument (\<lambda>s. [s]) witness_batch (InvalidDocument [''c'', ''e'']) (mutation_results r) = Inr d' \<and>
     doc_version d' = \<lparr>ts_seconds = 6, ts_nanos = 0\<rparr>"
proof -
  let ?rs = "[\<lparr>result_version = \<lparr>ts_seconds = 5, ts_nanos = 0\<rparr>, transform_results = []\<rparr>,
       \<lparr>result_version = \<lparr>ts_seconds = 6, ts_nanos = 0\<rparr>, transform_results = []\<rparr>]"
  let ?d = "InvalidDocument [''c'', ''e'']"
  obtain r where r: "make_MutationBatchResult witness_batch SnapshotVersion_None ?rs = Inr r"
    "doc_versions r [''c'', ''e''] = Some \<lparr>ts_seconds = 6, ts_nanos = 0\<rparr>" "mutation_results r = ?rs"
    by (simp add: make_MutationBatchResult_def witness_batch_def)
  obtain d' where d: "Batch_ApplyToRemoteDocument (\<lambda>s. [s]) witness_batch ?d (mutation_results r) = Inr d'"
    by (simp add: r(3) Batch_ApplyToRemoteDocument_def witness_batch_def InvalidDocument_def VerifyKeyMatches_def)
  show ?thesis using Batch_remote_version[OF r(1) d] r d by (auto simp: InvalidDocument_def)
qed

text \<open>
  C32. Overlays for whole documents: when the local view comes from a set or a delete (no mask), the
  overlay mutation computed from it, applied to any cached version of the document, yields the local
  view again, up to the read time of that version.
\<close>

theorem CalculateOverlayMutation_whole:
  assumes "has_local_mutations doc" "object_ok (doc_data doc)" "doc_version doc = SnapshotVersion_None"
    and "is_found_document doc \<or> is_no_document doc \<and> doc_data doc = ObjectValue_new"
    and "doc_key base = doc_key doc"
  shows "\<exists>m. CalculateOverlayMutation doc None = Inr (Some m) \<and>
    Mutation_ApplyToLocalView split m base fs t = Inr (doc\<lparr>read_time := read_time base\<rparr>, None)"
proof -
  obtain m where m: "CalculateOverlayMutation doc None = Inr (Some m)"
    using assms(1) by (simp add: CalculateOverlayMutation_def)
  from overlay_whole[OF assms(1-4) m assms(5)] m show ?thesis by blast
qed

theorem CalculateOverlayMutation_whole_witness:
  "\<exists>m. CalculateOverlayMutation (SetHasLocalMutations (NoDocument [''c'', ''d''] SnapshotVersion_None)) None = Inr (Some m) \<and>
     Mutation_ApplyToLocalView (\<lambda>s. [s]) m (InvalidDocument [''c'', ''d'']) None SnapshotVersion_None =
       Inr ((SetHasLocalMutations (NoDocument [''c'', ''d''] SnapshotVersion_None))\<lparr>read_time := read_time (InvalidDocument [''c'', ''d''])\<rparr>, None)"
  by (rule CalculateOverlayMutation_whole)
    (simp_all add: NoDocument_def InvalidDocument_def document_updates has_local_mutations_def is_no_document_def
      object_ok_def ObjectValue_new_def sorted_entries_def)



end
