(* ===== verification/Ordered_Code.thy ===== *)
theory Ordered_Code
  imports Number_Compare
begin

unbundle bit_operations_syntax

text \<open>
  Order-preserving codes: \<^verbatim>\<open>util/ordered_code.cc\<close>, \<^verbatim>\<open>util/ordered_code.h\<close> and the logarithms of
  \<^verbatim>\<open>util/bits.h\<close> and \<^verbatim>\<open>util/bits.cc\<close>.

  A byte string is a list of 8-bit words. Pointers into a string are its suffixes; loads are little
  endian, \<^verbatim>\<open>char\<close> is signed. A reader returns the value and the rest of the input, or nothing where
  the code returns false. Bytes of a buffer that are overwritten or erased before they are used start
  as zero.
\<close>

section \<open>Logarithms\<close>

definition log2_step :: "nat \<Rightarrow> 32 word \<times> int \<Rightarrow> 32 word \<times> int" where
  "log2_step i s =
     (let shift = 2 ^ i; x = drop_bit shift (fst s)
      in if x \<noteq> 0 then (x, snd s + int shift) else s)"

definition Log2Floor_Portable :: "32 word \<Rightarrow> int res" where
  "Log2Floor_Portable n =
     (if n = 0 then Inr (- 1)
      else let s = fold log2_step [4, 3, 2, 1, 0] (n, 0)
           in if fst s = 1 then Inr (snd s) else Inl HardAssert)"

definition Log2FloorNonZero_Portable :: "32 word \<Rightarrow> int res" where
  "Log2FloorNonZero_Portable n = Log2Floor_Portable n"

definition Log2Floor64_Portable :: "64 word \<Rightarrow> int res" where
  "Log2Floor64_Portable n =
     (let top_bits = ucast (drop_bit 32 n) :: 32 word
      in if top_bits = 0 then Log2Floor_Portable (ucast n)
         else bind_res (Log2FloorNonZero_Portable top_bits) (\<lambda>l. Inr (32 + l)))"

definition Log2FloorNonZero64_Portable :: "64 word \<Rightarrow> int res" where
  "Log2FloorNonZero64_Portable n =
     (let top_bits = ucast (drop_bit 32 n) :: 32 word
      in if top_bits = 0 then Log2FloorNonZero_Portable (ucast n)
         else bind_res (Log2FloorNonZero_Portable top_bits) (\<lambda>l. Inr (32 + l)))"

section \<open>Bytes\<close>

type_synonym byte = "8 word"
type_synonym bytes = "byte list"

definition kEscape1 :: byte where "kEscape1 = 0"
definition kNullCharacter :: byte where "kNullCharacter = 255"
definition kSeparator :: byte where "kSeparator = 1"
definition kEscape2 :: byte where "kEscape2 = 255"
definition kInfinity :: byte where "kInfinity = 255"
definition kFFCharacter :: byte where "kFFCharacter = 0"
definition kEscape1_Separator :: bytes where "kEscape1_Separator = [kEscape1, kSeparator]"

definition Convert :: "bool \<Rightarrow> byte \<Rightarrow> byte" where
  "Convert INVERT x = (if INVERT then NOT x else x)"

text \<open>Inverting a block of bytes as one integer inverts each of its bytes.\<close>

definition store_block :: "bool \<Rightarrow> nat \<Rightarrow> nat \<Rightarrow> bytes \<Rightarrow> bytes \<Rightarrow> bytes" where
  "store_block INVERT offset k src dst =
     take offset dst @ map (Convert INVERT) (take k (drop offset src)) @ drop (offset + k) dst"

function copy_loop :: "bool \<Rightarrow> nat \<Rightarrow> nat \<Rightarrow> bytes \<Rightarrow> bytes \<Rightarrow> bytes" where
  "copy_loop INVERT copied limit src dst =
     (if copied < limit then copy_loop INVERT (copied + 8) limit src (store_block INVERT copied 8 src dst) else dst)"
  by pat_completeness auto
termination
  by (relation "measure (\<lambda>(INVERT, copied, limit, src, dst). limit - copied)") auto

definition CopyInvertedBytes :: "bool \<Rightarrow> bytes \<Rightarrow> bytes \<Rightarrow> nat \<Rightarrow> bytes" where
  "CopyInvertedBytes INVERT dst src len =
     (if len = 0 then dst
      else if len = 1 then store_block INVERT 0 1 src dst
      else if len = 3 then store_block INVERT 0 2 src (store_block INVERT 2 1 src dst)
      else if len = 2 then store_block INVERT 0 2 src dst
      else if len = 5 \<or> len = 6 \<or> len = 7 then
        store_block INVERT 0 4 src (store_block INVERT (len - 4) 4 src dst)
      else if len = 4 then store_block INVERT 0 4 src dst
      else store_block INVERT (len - 8) 8 src (copy_loop INVERT 0 (len - 8) src dst))"

definition AppendBytes :: "bool \<Rightarrow> bytes \<Rightarrow> bytes \<Rightarrow> nat \<Rightarrow> bytes" where
  "AppendBytes INVERT dest src len = dest @ CopyInvertedBytes INVERT (replicate len 0) src len"

definition IsSpecialByte :: "byte \<Rightarrow> bool" where
  "IsSpecialByte c \<longleftrightarrow> c + 1 < 2"

text \<open>Little-endian loads.\<close>

fun le_val :: "bytes \<Rightarrow> nat" where
  "le_val [] = 0"
| "le_val (b # bs) = unat b + 256 * le_val bs"

definition LOAD32 :: "bytes \<Rightarrow> 32 word" where
  "LOAD32 p = word_of_nat (le_val (take 4 p))"

definition LOAD64 :: "bytes \<Rightarrow> 64 word" where
  "LOAD64 p = word_of_nat (le_val (take 8 p))"

definition AdvanceIfNoSpecialBytes :: "32 word \<Rightarrow> bytes \<Rightarrow> nat res" where
  "AdvanceIfNoSpecialBytes v_32 p =
     (if LOAD32 p \<noteq> v_32 then Inl HardAssert
      else if (v_32 - 0x01010101) AND NOT (v_32 + 0x01010101) AND 0x80808080 \<noteq> 0 then
        (if IsSpecialByte (p ! 0) \<or> IsSpecialByte (p ! 1) \<or> IsSpecialByte (p ! 2) \<or> IsSpecialByte (p ! 3)
         then Inr 0 else Inl HardAssert)
      else if \<not> IsSpecialByte (p ! 0) \<and> \<not> IsSpecialByte (p ! 1) \<and> \<not> IsSpecialByte (p ! 2) \<and> \<not> IsSpecialByte (p ! 3)
           then Inr 4 else Inl HardAssert)"

text \<open>The result is the distance from the start.\<close>

function SkipToNextSpecialByte :: "bytes \<Rightarrow> nat res" where
  "SkipToNextSpecialByte p =
     (if 8 \<le> length p then
        let v = LOAD64 p
        in if (v - 0x0101010101010101) AND NOT (v + 0x0101010101010101) AND 0x8080808080808080 = 0 then
             bind_res (SkipToNextSpecialByte (drop 8 p)) (\<lambda>n. Inr (8 + n))
           else bind_res (AdvanceIfNoSpecialBytes (ucast v) p) (\<lambda>a.
             if IsSpecialByte (p ! a) then Inr a
             else if IsSpecialByte (p ! (a + 1)) then Inr (a + 1)
             else if IsSpecialByte (p ! (a + 2)) then Inr (a + 2)
             else if IsSpecialByte (p ! (a + 3)) then Inr (a + 3) else Inl HardAssert)
      else bind_res (if 4 \<le> length p then AdvanceIfNoSpecialBytes (LOAD32 p) p else Inr 0) (\<lambda>a.
        Inr (a + length (takeWhile (\<lambda>b. \<not> IsSpecialByte b) (drop a p)))))"
  by pat_completeness auto
termination
  by (relation "measure length") auto

declare copy_loop.simps [simp del] SkipToNextSpecialByte.simps [simp del]

section \<open>Strings\<close>

function EncodeStringFragment :: "bool \<Rightarrow> bytes \<Rightarrow> bytes \<Rightarrow> bytes res" where
  "EncodeStringFragment INVERT dest s =
     (if s = [] then Inr dest
      else case SkipToNextSpecialByte s of
        Inl e \<Rightarrow> Inl e
      | Inr n \<Rightarrow>
          if length s \<le> n then Inr (AppendBytes INVERT dest s n)
          else if \<not> IsSpecialByte (s ! n) then Inl HardAssert
          else EncodeStringFragment INVERT
                 (AppendBytes INVERT dest s n @ [Convert INVERT (s ! n), Convert (\<not> INVERT) (s ! n)]) (drop (n + 1) s))"
  by pat_completeness auto
termination
  by (relation "measure (\<lambda>(INVERT, dest, s). length s)") auto

declare EncodeStringFragment.simps [simp del]

definition WriteString_internal :: "bool \<Rightarrow> bytes \<Rightarrow> bytes \<Rightarrow> bytes res" where
  "WriteString_internal INVERT dest s =
     bind_res (EncodeStringFragment INVERT dest s) (\<lambda>d. Inr (AppendBytes INVERT d kEscape1_Separator 2))"

definition WriteString :: "bytes \<Rightarrow> bytes \<Rightarrow> bytes res" where
  "WriteString = WriteString_internal False"

definition WriteStringDecreasing :: "bytes \<Rightarrow> bytes \<Rightarrow> bytes res" where
  "WriteStringDecreasing = WriteString_internal True"

definition WriteInfinityInternal :: "bool \<Rightarrow> bytes \<Rightarrow> bytes" where
  "WriteInfinityInternal INVERT dest = dest @ [Convert INVERT kEscape2, Convert INVERT kInfinity]"

definition WriteTrailingString :: "bytes \<Rightarrow> bytes \<Rightarrow> bytes" where
  "WriteTrailingString dest str = dest @ str"

text \<open>The scan ends one byte before the end of the input, since every escape has two bytes.\<close>

function ReadStringInternal :: "bool \<Rightarrow> bytes \<Rightarrow> bytes \<Rightarrow> (bytes \<times> bytes) option res" where
  "ReadStringInternal INVERT p result =
     (case SkipToNextSpecialByte (butlast p) of
        Inl e \<Rightarrow> Inl e
      | Inr n \<Rightarrow>
          if length p - 1 \<le> n then Inr None
          else if \<not> IsSpecialByte (p ! n) then Inl HardAssert
          else let result' = AppendBytes INVERT result p n; rest = drop (n + 2) p
               in if p ! n = Convert INVERT kEscape1 \<and> p ! (n + 1) = Convert INVERT kSeparator then Inr (Some (result', rest))
                  else if p ! n = Convert INVERT kEscape1 \<and> p ! (n + 1) = Convert INVERT kNullCharacter then
                    ReadStringInternal INVERT rest (result' @ [0])
                  else if p ! n = Convert INVERT kEscape2 \<and> p ! (n + 1) = Convert INVERT kFFCharacter then
                    ReadStringInternal INVERT rest (result' @ [255])
                  else Inr None)"
  by pat_completeness auto
termination
  by (relation "measure (\<lambda>(INVERT, p, result). length p)") auto

declare ReadStringInternal.simps [simp del]

definition ReadString :: "bytes \<Rightarrow> (bytes \<times> bytes) option res" where
  "ReadString src = ReadStringInternal False src []"

definition ReadStringDecreasing :: "bytes \<Rightarrow> (bytes \<times> bytes) option res" where
  "ReadStringDecreasing src = ReadStringInternal True src []"

definition ReadInfinityInternal :: "bool \<Rightarrow> bytes \<Rightarrow> bytes option" where
  "ReadInfinityInternal INVERT src =
     (if 2 \<le> length src \<and> src ! 0 = Convert INVERT kEscape2 \<and> src ! 1 = Convert INVERT kInfinity
      then Some (drop 2 src) else None)"

text \<open>Nothing decoded stands for infinity.\<close>

definition ReadStringOrInfinityInternal :: "bool \<Rightarrow> bytes \<Rightarrow> (bytes option \<times> bytes) option res" where
  "ReadStringOrInfinityInternal INVERT src =
     (case ReadInfinityInternal INVERT src of
        Some rest \<Rightarrow> Inr (Some (None, rest))
      | None \<Rightarrow> bind_res (if INVERT then ReadStringDecreasing src else ReadString src)
          (\<lambda>r. Inr (map_option (\<lambda>(s, rest). (Some s, rest)) r)))"

definition ReadTrailingString :: "bytes \<Rightarrow> bytes \<times> bytes" where
  "ReadTrailingString src = (src, [])"

section \<open>Unsigned numbers\<close>

text \<open>The bytes of a number in network order.\<close>

fun be :: "nat \<Rightarrow> nat \<Rightarrow> bytes" where
  "be 0 x = []"
| "be (Suc n) x = word_of_nat (x div 256 ^ n) # be n x"

definition OrderedNumLength :: "64 word \<Rightarrow> nat res" where
  "OrderedNumLength val = bind_res (Log2Floor64_Portable val) (\<lambda>lg. Inr (nat (lg + 1 + 7) div 8))"

definition AppendUpto9 :: "bytes \<Rightarrow> bytes \<Rightarrow> nat \<Rightarrow> bytes" where
  "AppendUpto9 dst src n = take (length dst + n) (dst @ take 9 src)"

definition WriteNum_buffer :: "bytes \<Rightarrow> 64 word \<Rightarrow> byte \<Rightarrow> nat \<Rightarrow> bytes" where
  "WriteNum_buffer dest num first len =
     (let buf = 0 # be 8 (unat num) @ replicate 8 0;
          start = 9 - len - 1
      in AppendUpto9 dest (drop start (buf[start := first])) (len + 1))"

definition WriteNumIncreasing :: "bytes \<Rightarrow> 64 word \<Rightarrow> bytes res" where
  "WriteNumIncreasing dest num =
     bind_res (OrderedNumLength num) (\<lambda>len. Inr (WriteNum_buffer dest num (word_of_nat len) len))"

definition WriteNumDecreasing :: "bytes \<Rightarrow> 64 word \<Rightarrow> bytes res" where
  "WriteNumDecreasing dest num =
     bind_res (OrderedNumLength num) (\<lambda>len. Inr (WriteNum_buffer dest (NOT num) (NOT (word_of_nat len)) len))"

text \<open>A signed character converted to \<^verbatim>\<open>size_t\<close>.\<close>

definition char_to_size :: "int \<Rightarrow> nat" where
  "char_to_size c = nat (c mod 2 ^ 64)"

definition ReadNumIncreasing :: "bytes \<Rightarrow> (64 word \<times> bytes) option res" where
  "ReadNumIncreasing src =
     (if src = [] then Inr None
      else let len = char_to_size (sint (src ! 0))
           in if \<not> (len = 0 \<or> length src = 1 \<or> src ! 1 \<noteq> 0) then Inl HardAssert
              else if (len + 1) mod 2 ^ 64 > length src \<or> len > 8 then Inr None
              else Inr (Some (fold (\<lambda>b tmp. push_bit 8 tmp OR ucast b) (take len (drop 1 src)) 0, drop (len + 1) src)))"

definition ReadNumDecreasing :: "bytes \<Rightarrow> (64 word \<times> bytes) option res" where
  "ReadNumDecreasing src =
     (if src = [] then Inr None
      else let len = char_to_size (NOT (sint (src ! 0)))
           in if \<not> (len = 0 \<or> length src = 1 \<or> src ! 1 \<noteq> 255) then Inl HardAssert
              else if (len + 1) mod 2 ^ 64 > length src \<or> len > 8 then Inr None
              else Inr (Some (if len = 0 then 0
                              else NOT (fold (\<lambda>b tmp. push_bit 8 tmp OR ucast b) (take len (drop 1 src)) (NOT 0)),
                              drop (len + 1) src)))"

section \<open>Signed numbers\<close>

definition kLengthToHeaderBits :: "(byte \<times> byte) list" where
  "kLengthToHeaderBits = [(0, 0), (0x80, 0), (0xc0, 0), (0xe0, 0), (0xf0, 0), (0xf8, 0), (0xfc, 0), (0xfe, 0),
     (0xff, 0), (0xff, 0x80), (0xff, 0xc0)]"

definition kLengthToMask :: "64 word list" where
  "kLengthToMask = [0, 0x80, 0xc000, 0xe00000, 0xf0000000, 0xf800000000, 0xfc0000000000, 0xfe000000000000,
     0xff00000000000000, 0x8000000000000000, 0]"

definition kBitsToLength :: "nat list" where
  "kBitsToLength = [
     1, 1, 1, 1, 1, 1, 1, 2, 2, 2, 2, 2, 2, 2, 3, 3, 3, 3, 3, 3, 3, 4,
     4, 4, 4, 4, 4, 4, 5, 5, 5, 5, 5, 5, 5, 6, 6, 6, 6, 6, 6, 6, 7, 7,
     7, 7, 7, 7, 7, 8, 8, 8, 8, 8, 8, 8, 9, 9, 9, 9, 9, 9, 9, 10]"

definition SignedEncodingLength :: "64 word \<Rightarrow> nat res" where
  "SignedEncodingLength n =
     bind_res (Log2Floor64_Portable (if sint n < 0 then NOT n else n)) (\<lambda>l. Inr (kBitsToLength ! nat (l + 1)))"

definition SignedEncodingLengthPositive :: "64 word \<Rightarrow> nat res" where
  "SignedEncodingLengthPositive n =
     bind_res (Log2FloorNonZero64_Portable n) (\<lambda>l. Inr (kBitsToLength ! nat (l + 1)))"

definition WriteSignedNumIncreasing :: "bytes \<Rightarrow> 64 word \<Rightarrow> bytes res" where
  "WriteSignedNumIncreasing dest num =
     (let x = (if sint num < 0 then NOT num else num)
      in if x < 64 then Inr (dest @ [fst (kLengthToHeaderBits ! 1) XOR ucast num])
         else
           let sign_byte = (if sint num < 0 then 255 else 0);
               buf = [sign_byte, sign_byte] @ be 8 (unat num)
           in bind_res (SignedEncodingLengthPositive x) (\<lambda>len.
                if len < 2 then Inl HardAssert
                else let b = drop (10 - len) buf;
                         b0 = b[0 := b ! 0 XOR fst (kLengthToHeaderBits ! len)];
                         b1 = b0[1 := b0 ! 1 XOR snd (kLengthToHeaderBits ! len)]
                     in Inr (dest @ b1)))"

definition finish_signed :: "bytes \<Rightarrow> nat \<Rightarrow> 64 word \<Rightarrow> (64 word \<times> bytes) option res" where
  "finish_signed src len x =
     (let y = x XOR (kLengthToMask ! len)
      in bind_res (SignedEncodingLength y) (\<lambda>l. if len = l then Inr (Some (y, drop len src)) else Inl HardAssert))"

definition ReadSignedNumIncreasing :: "bytes \<Rightarrow> (64 word \<times> bytes) option res" where
  "ReadSignedNumIncreasing src =
     (if src = [] then Inr None
      else let xor_mask = (if src ! 0 AND 0x80 = 0 then NOT 0 else 0 :: 64 word);
               first_byte = src ! 0 XOR ucast (xor_mask AND 0xff)
           in if first_byte \<noteq> 255 then
                bind_res (Log2FloorNonZero_Portable (ucast (first_byte XOR 255))) (\<lambda>l.
                  let len = nat (7 - l)
                  in if length src < len then Inr None
                     else finish_signed src len (fold (\<lambda>b x. push_bit 8 x OR ucast b) (take len src) xor_mask))
              else if length src < 8 then Inr None
              else let second_byte = src ! 1 XOR ucast (xor_mask AND 0xff)
                   in if second_byte \<ge> 0x80 then
                        (let third_byte = src ! 2 XOR ucast (xor_mask AND 0xff)
                         in if second_byte < 0xc0 then
                              (if length src < 9 then Inr None
                               else finish_signed src 9 (fold (\<lambda>b x. push_bit 8 x OR ucast b) (take 8 (drop 1 src)) 0))
                            else if second_byte = 0xc0 \<and> third_byte < 0x80 then
                              (if length src < 10 then Inr None
                               else finish_signed src 10 (fold (\<lambda>b x. push_bit 8 x OR ucast b) (take 8 (drop 2 src)) 0))
                            else Inr None)
                      else finish_signed src 8 (fold (\<lambda>b x. push_bit 8 x OR ucast b) (take 8 src) 0))"

definition WriteSignedNumDecreasing :: "bytes \<Rightarrow> 64 word \<Rightarrow> bytes res" where
  "WriteSignedNumDecreasing dest num = WriteSignedNumIncreasing dest (NOT num)"

definition ReadSignedNumDecreasing :: "bytes \<Rightarrow> (64 word \<times> bytes) option res" where
  "ReadSignedNumDecreasing src =
     bind_res (ReadSignedNumIncreasing src) (\<lambda>r. Inr (map_option (\<lambda>(n, rest). (NOT n, rest)) r))"

section \<open>Doubles\<close>

text \<open>Subtracting a negative number from the least one never overflows; the pattern of negative zero yields zero.\<close>

definition EncodeDoubleAsInt64 :: "double \<Rightarrow> 64 word" where
  "EncodeDoubleAsInt64 num = (if sint num < 0 then word_of_int (- (2 ^ 63)) - num else num)"

definition DecodeDoubleFromInt64 :: "64 word \<Rightarrow> double" where
  "DecodeDoubleFromInt64 enc = (if sint enc < 0 then word_of_int (- (2 ^ 63)) - enc else enc)"

definition WriteDoubleIncreasing :: "bytes \<Rightarrow> double \<Rightarrow> bytes res" where
  "WriteDoubleIncreasing dest num = WriteSignedNumIncreasing dest (EncodeDoubleAsInt64 num)"

definition WriteDoubleDecreasing :: "bytes \<Rightarrow> double \<Rightarrow> bytes res" where
  "WriteDoubleDecreasing dest num = WriteSignedNumDecreasing dest (EncodeDoubleAsInt64 num)"

definition ReadDoubleIncreasing :: "bytes \<Rightarrow> (double \<times> bytes) option res" where
  "ReadDoubleIncreasing src =
     bind_res (ReadSignedNumIncreasing src) (\<lambda>r. Inr (map_option (\<lambda>(n, rest). (DecodeDoubleFromInt64 n, rest)) r))"

definition ReadDoubleDecreasing :: "bytes \<Rightarrow> (double \<times> bytes) option res" where
  "ReadDoubleDecreasing src =
     bind_res (ReadSignedNumDecreasing src) (\<lambda>r. Inr (map_option (\<lambda>(n, rest). (DecodeDoubleFromInt64 n, rest)) r))"

section \<open>Correctness of the logarithms\<close>

definition log2_state :: "32 word \<Rightarrow> nat \<Rightarrow> 32 word \<Rightarrow> nat \<Rightarrow> bool" where
  "log2_state n k v l \<longleftrightarrow> v \<noteq> 0 \<and> unat v = unat n div 2 ^ l \<and> unat v < 2 ^ 2 ^ k"

lemma unat_less: "unat (w :: 'a::len word) < 2 ^ LENGTH('a)"
  by (rule unsigned_less)

lemma unat_drop_bit: "unat (drop_bit k (w :: 'a::len word)) = unat w div 2 ^ k"
  unfolding unat_drop_bit_eq by (rule drop_bit_eq_div)

lemma log2_step_state:
  assumes "log2_state n (Suc i) v l"
  shows "\<exists>v' l'. log2_step i (v, int l) = (v', int l') \<and> log2_state n i v' l'"
proof -
  let ?x = "drop_bit (2 ^ i) v"
  have x: "unat ?x = unat v div 2 ^ 2 ^ i" by (rule unat_drop_bit)
  have sq: "(2::nat) ^ 2 ^ Suc i = 2 ^ 2 ^ i * 2 ^ 2 ^ i" by (simp add: power_add[symmetric] mult_2)
  show ?thesis
  proof (cases "?x = 0")
    case True
    then have "unat v div 2 ^ 2 ^ i = 0" using x by simp
    then have "unat v < 2 ^ 2 ^ i" by (simp add: div_eq_0_iff)
    then show ?thesis using assms True by (auto simp: log2_step_def log2_state_def)
  next
    case False
    have "unat ?x = unat n div 2 ^ (l + 2 ^ i)"
      using assms x by (simp add: log2_state_def div_mult2_eq power_add)
    moreover have "unat ?x < 2 ^ 2 ^ i"
      using assms x unfolding log2_state_def sq by (simp add: less_mult_imp_div_less)
    ultimately show ?thesis using False
      by (intro exI[of _ ?x] exI[of _ "l + 2 ^ i"]) (simp add: log2_step_def log2_state_def)
  qed
qed

lemma Log2Floor_Portable_correct:
  assumes "n \<noteq> 0"
  shows "\<exists>l. Log2Floor_Portable n = Inr (int l) \<and> 2 ^ l \<le> unat n \<and> unat n < 2 ^ Suc l"
proof -
  have "unat n < 2 ^ 32" using unat_less[of n] by simp
  then have s5: "log2_state n 5 n 0" using assms by (simp add: log2_state_def)
  then obtain v4 l4 where s4: "log2_step 4 (n, int 0) = (v4, int l4)" "log2_state n 4 v4 l4"
    using log2_step_state[of n 4 n 0] by auto
  then obtain v3 l3 where s3: "log2_step 3 (v4, int l4) = (v3, int l3)" "log2_state n 3 v3 l3"
    using log2_step_state[of n 3 v4 l4] by auto
  then obtain v2 l2 where s2: "log2_step 2 (v3, int l3) = (v2, int l2)" "log2_state n 2 v2 l2"
    using log2_step_state[of n 2 v3 l3] by auto
  then obtain v1 l1 where s1: "log2_step 1 (v2, int l2) = (v1, int l1)" "log2_state n 1 v1 l1"
    using log2_step_state[of n 1 v2 l2] by (auto simp: numeral_2_eq_2)
  then obtain v0 l0 where s0: "log2_step 0 (v1, int l1) = (v0, int l0)" "log2_state n 0 v0 l0"
    using log2_step_state[of n 0 v1 l1] by auto
  have "unat v0 < 2" "v0 \<noteq> 0" using s0(2) by (simp_all add: log2_state_def)
  then have "unat v0 < 2" "unat v0 \<noteq> 0" by (simp_all add: unat_eq_0)
  then have one: "unat v0 = 1" by simp
  then have v0: "v0 = 1" by (simp add: word_unat_eq_iff)
  have q: "unat n div 2 ^ l0 = 1" using s0(2) one by (simp add: log2_state_def)
  then have "2 ^ l0 \<le> unat n" using div_less[of "unat n" "2 ^ l0"] by (metis not_le zero_neq_one)
  moreover have "unat n < 2 * 2 ^ l0" using q dividend_less_div_times[of "2 ^ l0" "unat n"] by simp
  ultimately show ?thesis
    using assms s4(1) s3(1) s2(1) s1(1) s0(1) v0 by (intro exI[of _ l0]) (simp add: Log2Floor_Portable_def)
qed

lemma Log2Floor64_Portable_correct:
  assumes "n \<noteq> 0"
  shows "\<exists>l. Log2Floor64_Portable n = Inr (int l) \<and> 2 ^ l \<le> unat n \<and> unat n < 2 ^ Suc l"
proof -
  let ?t = "ucast (drop_bit 32 n) :: 32 word"
  have lt: "unat n < 2 ^ 64" using unat_less[of n] by simp
  then have "unat n div 2 ^ 32 < 2 ^ 32" by (simp add: less_mult_imp_div_less)
  then have t: "unat ?t = unat n div 2 ^ 32"
    by (simp add: unsigned_ucast_eq take_bit_eq_mod unat_drop_bit)
  show ?thesis
  proof (cases "?t = 0")
    case True
    then have "unat n div 2 ^ 32 = 0" using t by simp
    then have small: "unat n < 2 ^ 32" by (simp add: div_eq_0_iff)
    then have u: "unat (ucast n :: 32 word) = unat n" by (simp add: unsigned_ucast_eq take_bit_eq_mod)
    then have "ucast n \<noteq> (0 :: 32 word)" using assms by (metis unat_eq_0)
    then show ?thesis using Log2Floor_Portable_correct[of "ucast n :: 32 word"] True u
      by (simp add: Log2Floor64_Portable_def)
  next
    case False
    then obtain l where l: "Log2Floor_Portable ?t = Inr (int l)" "2 ^ l \<le> unat n div 2 ^ 32" "unat n div 2 ^ 32 < 2 ^ Suc l"
      using Log2Floor_Portable_correct[OF False] t by auto
    have "2 ^ (32 + l) \<le> unat n" using l(2) by (simp add: power_add less_eq_div_iff_mult_less_eq mult.commute)
    moreover have "unat n < 2 ^ Suc (32 + l)" using l(3) by (simp add: power_add div_less_iff_less_mult mult.commute)
    ultimately show ?thesis using False l(1)
      by (intro exI[of _ "32 + l"]) (simp add: Log2Floor64_Portable_def Log2FloorNonZero_Portable_def)
  qed
qed

lemma Log2FloorNonZero64_eq: "Log2FloorNonZero64_Portable n = Log2Floor64_Portable n"
  by (simp add: Log2FloorNonZero64_Portable_def Log2Floor64_Portable_def Log2FloorNonZero_Portable_def cong: if_cong)

section \<open>Copying\<close>

lemma store_forward:
  assumes "offset \<le> c" "c \<le> offset + k" "offset + k \<le> length d" "length d \<le> length src"
  shows "store_block INVERT offset k src (map (Convert INVERT) (take c src) @ drop c d) =
    map (Convert INVERT) (take (offset + k) src) @ drop (offset + k) d"
  using assms by (simp add: store_block_def take_add min_def take_map)

lemma store_backward:
  assumes "length d = len" "len \<le> length src" "m \<le> len" "len - m \<le> k" "k \<le> len"
  shows "store_block INVERT 0 k src (store_block INVERT (len - m) m src d) = map (Convert INVERT) (take len src)"
proof -
  have "drop k (map (Convert INVERT) (take len src)) = map (Convert INVERT) (take (len - k) (drop k src))"
    by (simp add: drop_map drop_take)
  moreover have "take k (map (Convert INVERT) (take len src)) = map (Convert INVERT) (take k src)"
    using assms by (simp add: take_map min_def)
  moreover have "drop k (store_block INVERT (len - m) m src d) = map (Convert INVERT) (take (len - k) (drop k src))"
    using assms by (simp add: store_block_def drop_map drop_take)
  ultimately show ?thesis
    unfolding store_block_def[of INVERT 0] by (metis append_take_drop_id append_Nil add_0 drop_0 take_0)
qed

lemma copy_loop_copies:
  assumes "length d = len" "len \<le> length src" "limit = len - 8" "8 \<le> len" "c < len"
  shows "\<exists>c'. limit \<le> c' \<and> c' < len \<and>
    copy_loop INVERT c limit src (map (Convert INVERT) (take c src) @ drop c d) = map (Convert INVERT) (take c' src) @ drop c' d"
  using assms(5)
proof (induction "limit - c" arbitrary: c rule: less_induct)
  case less
  show ?case
  proof (cases "c < limit")
    case True
    have "store_block INVERT c 8 src (map (Convert INVERT) (take c src) @ drop c d) =
        map (Convert INVERT) (take (c + 8) src) @ drop (c + 8) d"
      using True assms by (intro store_forward) auto
    moreover have "\<exists>c'. limit \<le> c' \<and> c' < len \<and>
        copy_loop INVERT (c + 8) limit src (map (Convert INVERT) (take (c + 8) src) @ drop (c + 8) d) =
        map (Convert INVERT) (take c' src) @ drop c' d"
      using True assms(3,4) by (intro less.hyps) auto
    ultimately show ?thesis using True by (simp add: copy_loop.simps[of INVERT c])
  next
    case False
    then show ?thesis using less.prems by (intro exI[of _ c]) (simp add: copy_loop.simps[of INVERT c])
  qed
qed

lemma CopyInvertedBytes_map:
  assumes "length d = len" "len \<le> length src"
  shows "CopyInvertedBytes INVERT d src len = map (Convert INVERT) (take len src)"
proof -
  have forward: "store_block INVERT 0 len src d = map (Convert INVERT) (take len src)"
    using store_forward[of 0 0 len d src INVERT] assms by simp
  consider "len = 0 \<or> len = 1 \<or> len = 2 \<or> len = 4" | "len = 3" | "len = 5 \<or> len = 6 \<or> len = 7" | "8 \<le> len"
    by linarith
  then show ?thesis
  proof cases
    case 1
    then show ?thesis using assms forward by (auto simp: CopyInvertedBytes_def)
  next
    case 2
    then show ?thesis using store_backward[OF assms, of 1 2] by (simp add: CopyInvertedBytes_def)
  next
    case 3
    then show ?thesis using store_backward[OF assms, of 4 4] by (auto simp: CopyInvertedBytes_def)
  next
    case 4
    from copy_loop_copies[OF assms refl 4, of 0 INVERT] obtain c' where c': "len - 8 \<le> c'" "c' < len"
      "copy_loop INVERT 0 (len - 8) src d = map (Convert INVERT) (take c' src) @ drop c' d" using 4 by auto
    have "store_block INVERT (len - 8) 8 src (map (Convert INVERT) (take c' src) @ drop c' d) =
        map (Convert INVERT) (take (len - 8 + 8) src) @ drop (len - 8 + 8) d"
      using 4 assms c' by (intro store_forward) auto
    then show ?thesis using 4 assms c' by (simp add: CopyInvertedBytes_def)
  qed
qed

lemma AppendBytes_map: "len \<le> length src \<Longrightarrow> AppendBytes INVERT dest src len = dest @ map (Convert INVERT) (take len src)"
  by (simp add: AppendBytes_def CopyInvertedBytes_map)

section \<open>Finding special bytes\<close>

lemma unat_NOT: "unat (NOT (x :: 'a::len word)) = 2 ^ LENGTH('a) - 1 - unat x"
proof -
  have "NOT x = - 1 - x" by (simp add: not_eq_complement)
  then show ?thesis by (simp add: unat_sub word_order.extremum unsigned_minus_1_eq_mask mask_eq_exp_minus_1)
qed

lemma byte_less: "unat (b :: byte) < 256"
  using unat_less[of b] by simp

lemma IsSpecialByte_iff: "IsSpecialByte c \<longleftrightarrow> unat c = 0 \<or> unat c = 255"
proof -
  have "c + 1 < 2 \<longleftrightarrow> (unat c + 1) mod 256 < 2"
    by (simp add: word_less_nat_alt unat_word_ariths)
  also have "\<dots> \<longleftrightarrow> unat c = 0 \<or> unat c = 255"
    using byte_less[of c] by (cases "unat c = 255") auto
  finally show ?thesis by (simp add: IsSpecialByte_def)
qed

lemma le_val_less: "le_val p < 256 ^ length p"
proof (induction p)
  case (Cons b p)
  have "unat b + 256 * le_val p < 256 + 256 * le_val p" using byte_less[of b] by simp
  also have "\<dots> = 256 * Suc (le_val p)" by simp
  also have "\<dots> \<le> 256 * 256 ^ length p" using Cons by (intro mult_le_mono2) simp
  finally show ?case by simp
qed simp

lemma le_val_append: "le_val (p @ q) = le_val p + 256 ^ length p * le_val q"
  by (induction p) (simp_all add: algebra_simps)

definition ones :: "nat \<Rightarrow> nat" where
  "ones n = le_val (replicate n 1)"

lemma ones_simps [simp]: "ones 0 = 0" "ones (Suc n) = 1 + 256 * ones n"
  by (simp_all add: ones_def)

lemma ones_closed: "255 * ones n + 1 = 256 ^ n"
  by (induction n) simp_all

lemma ones_add: "ones (m + n) = ones m + 256 ^ m * ones n"
  by (simp add: ones_def replicate_add le_val_append)

lemma plain_bounds:
  "\<forall>b \<in> set p. \<not> IsSpecialByte b \<Longrightarrow> ones (length p) \<le> le_val p \<and> le_val p + ones (length p) < 256 ^ length p"
proof (induction p)
  case (Cons b p)
  then have "1 \<le> unat b" "unat b + 1 < 256" using byte_less[of b] by (auto simp: IsSpecialByte_iff)
  moreover have "ones (length p) \<le> le_val p" "le_val p + ones (length p) + 1 \<le> 256 ^ length p" using Cons by auto
  ultimately show ?case by simp
qed simp

lemma byte_of_sum:
  assumes "\<forall>b \<in> set (take i p). \<not> IsSpecialByte b" "i < length p"
  shows "(le_val p + ones (length p)) mod 256 ^ length p div 256 ^ i mod 256 = (unat (p ! i) + 1) mod 256"
    and "(le_val p + 256 ^ length p - ones (length p)) mod 256 ^ length p div 256 ^ i mod 256 = (unat (p ! i) + 255) mod 256"
proof -
  let ?n = "length p - i"
  let ?L = "le_val (take i p)" and ?H = "le_val (drop i p)"
  have n: "length p = i + ?n" "0 < ?n" using assms(2) by simp_all
  have bounds: "ones i \<le> ?L" "?L + ones i < 256 ^ i" using plain_bounds[OF assms(1)] assms(2) by (simp_all add: min_def)
  have v: "le_val p = ?L + 256 ^ i * ?H"
    using le_val_append[of "take i p" "drop i p"] assms(2) by (simp add: min_def)
  have o: "ones (length p) = ones i + 256 ^ i * ones ?n" using ones_add[of i ?n] n(1) by simp
  have h: "?H mod 256 = unat (p ! i)"
    using byte_less[of "p ! i"] by (simp add: Cons_nth_drop_Suc[OF assms(2), symmetric])
  obtain k where k: "?n = Suc k" using n(2) by (cases ?n) auto
  have o1: "ones ?n mod 256 = 1" "ones ?n < 256 ^ ?n"
    using plain_bounds[of "replicate ?n 1"] by (simp_all add: k IsSpecialByte_iff ones_def)
  have shift: "(a + 256 ^ i * q) div 256 ^ i = q" if "a < 256 ^ i" for a q :: nat
    using that by simp
  have low: "x mod 256 ^ length p div 256 ^ i mod 256 = x div 256 ^ i mod 256" for x :: nat
  proof -
    have "x mod 256 ^ length p = x mod 256 ^ i + 256 ^ i * (x div 256 ^ i mod 256 ^ ?n)"
      using n(1) mod_mult2_eq[of x "256 ^ i" "256 ^ ?n"] by (simp add: power_add[symmetric])
    then have "x mod 256 ^ length p div 256 ^ i = x div 256 ^ i mod 256 ^ ?n" by simp
    also have "\<dots> mod 256 = x div 256 ^ i mod 256" by (rule mod_mod_cancel) (simp add: k)
    finally show ?thesis .
  qed
  have "le_val p + ones (length p) = (?L + ones i) + 256 ^ i * (?H + ones ?n)"
    using v o by (simp add: algebra_simps)
  then have "(le_val p + ones (length p)) div 256 ^ i = ?H + ones ?n" using shift[OF bounds(2)] by simp
  moreover have "(?H + ones ?n) mod 256 = (unat (p ! i) + 1) mod 256" by (metis h o1(1) mod_add_eq)
  ultimately show "(le_val p + ones (length p)) mod 256 ^ length p div 256 ^ i mod 256 = (unat (p ! i) + 1) mod 256"
    by (simp only: low)
  have "le_val p + 256 ^ length p - ones (length p) = (?L - ones i) + 256 ^ i * (?H + 256 ^ ?n - ones ?n)"
  proof -
    have "256 ^ i * (?H + 256 ^ ?n - ones ?n) = 256 ^ i * ?H + 256 ^ i * 256 ^ ?n - 256 ^ i * ones ?n"
      by (simp add: algebra_simps diff_mult_distrib2)
    moreover have "(256::nat) ^ i * 256 ^ ?n = 256 ^ length p" using n(1) by (simp add: power_add[symmetric])
    moreover have "256 ^ i * ones ?n \<le> 256 ^ i * 256 ^ ?n" using o1(2) by (intro mult_le_mono2) simp
    ultimately show ?thesis using v o bounds(1) by linarith
  qed
  then have "(le_val p + 256 ^ length p - ones (length p)) div 256 ^ i = ?H + 256 ^ ?n - ones ?n"
    using shift[of "?L - ones i"] bounds(2) by simp
  moreover have "(?H + 256 ^ ?n - ones ?n) mod 256 = (unat (p ! i) + 255) mod 256"
  proof -
    have "ones k < 256 ^ k" using o1(2) by (simp add: k)
    then have "?H + 256 ^ ?n - ones ?n = (?H + 255) + 256 * (256 ^ k - ones k - 1)" by (simp add: k)
    then show ?thesis using h by (metis mod_add_left_eq mod_mult_self2)
  qed
  ultimately show "(le_val p + 256 ^ length p - ones (length p)) mod 256 ^ length p div 256 ^ i mod 256 = (unat (p ! i) + 255) mod 256"
    by (simp only: low)
qed

text \<open>The test of a whole word for special bytes.\<close>

lemma high_bit_iff: "bit (w :: 'a::len word) (8 * i + 7) \<longleftrightarrow> 128 \<le> unat w div 256 ^ i mod 256"
proof -
  have "bit (unat w) (8 * i + 7) = bit w (8 * i + 7)" by (simp add: bit_unsigned_iff)
  then have "bit w (8 * i + 7) \<longleftrightarrow> odd (unat w div 2 ^ (8 * i + 7))" by (simp add: bit_nat_def)
  also have "unat w div 2 ^ (8 * i + 7) = unat w div 256 ^ i div 128"
    by (simp add: power_add power_mult div_mult2_eq)
  also have "odd (unat w div 256 ^ i div 128) \<longleftrightarrow> 128 \<le> unat w div 256 ^ i mod 256"
    using mod_mult2_eq[of "unat w div 256 ^ i" 128 2] mod_less_divisor[of 128 "unat w div 256 ^ i"]
    by (simp add: odd_iff_mod_2_eq_one) linarith
  finally show ?thesis .
qed

lemma special_test:
  fixes R M :: "'a::len word"
  assumes len: "LENGTH('a) = 8 * length p"
    and R: "unat R = ones (length p)" and M: "\<And>j. j < LENGTH('a) \<Longrightarrow> bit M j \<longleftrightarrow> j mod 8 = 7"
  shows "(word_of_nat (le_val p) - R) AND NOT (word_of_nat (le_val p) + R) AND M = 0 \<longleftrightarrow> (\<forall>b \<in> set p. \<not> IsSpecialByte b)"
proof -
  let ?v = "word_of_nat (le_val p) :: 'a word" and ?n = "length p"
  have pow: "2 ^ LENGTH('a) = (256::nat) ^ ?n" by (simp add: len power_mult)
  have v: "unat ?v = le_val p" using le_val_less[of p] by (simp add: unat_of_nat pow)
  have plus: "unat (?v + R) = (le_val p + ones ?n) mod 256 ^ ?n"
    by (simp add: unat_word_ariths v R pow)
  have small: "ones ?n \<le> 256 ^ ?n" using plain_bounds[of "replicate ?n 1"] by (simp add: IsSpecialByte_iff ones_def)
  have "(word_of_nat (256 ^ ?n) :: 'a word) = 0" by (metis pow of_nat_power of_nat_numeral power_eq_0_iff word_exp_length_eq_0 pow)
  moreover have "R = word_of_nat (ones ?n)" by (simp add: R[symmetric])
  ultimately have "?v - R = word_of_nat (le_val p + 256 ^ ?n - ones ?n)" using small by (simp add: of_nat_diff)
  then have minus: "unat (?v - R) = (le_val p + 256 ^ ?n - ones ?n) mod 256 ^ ?n" by (simp add: unat_of_nat pow)
  have "?v - R AND NOT (?v + R) AND M = 0 \<longleftrightarrow>
      (\<forall>i < ?n. \<not> (bit (?v - R) (8 * i + 7) \<and> \<not> bit (?v + R) (8 * i + 7)))" (is "?W = 0 \<longleftrightarrow> ?all")
  proof
    assume zero: "?W = 0"
    show ?all
    proof (intro allI impI)
      fix i assume "i < ?n"
      then have "8 * i + 7 < LENGTH('a)" "(8 * i + 7) mod 8 = 7" using len by auto
      then show "\<not> (bit (?v - R) (8 * i + 7) \<and> \<not> bit (?v + R) (8 * i + 7))"
        using arg_cong[OF zero, of "\<lambda>w. bit w (8 * i + 7)"] M[of "8 * i + 7"] by (simp add: bit_simps)
    qed
  next
    assume all: ?all
    show "?W = 0"
    proof (rule bit_word_eqI)
      fix j assume j: "j < LENGTH('a)"
      have "j = 8 * (j div 8) + 7" if "j mod 8 = 7" using that div_mult_mod_eq[of j 8] by simp
      moreover have "j div 8 < ?n" using j len by simp
      ultimately show "bit (?W) j = bit 0 j"
        using all M[OF j] j by (cases "j mod 8 = 7") (auto simp: bit_simps)
    qed
  qed
  also have "\<dots> \<longleftrightarrow> (\<forall>b \<in> set p. \<not> IsSpecialByte b)"
  proof
    assume plain: "\<forall>b \<in> set p. \<not> IsSpecialByte b"
    show "\<forall>i < ?n. \<not> (bit (?v - R) (8 * i + 7) \<and> \<not> bit (?v + R) (8 * i + 7))"
    proof (intro allI impI)
      fix i assume i: "i < ?n"
      have "\<not> IsSpecialByte (p ! i)" using plain i by simp
      then have b: "1 \<le> unat (p ! i)" "unat (p ! i) < 255" using byte_less[of "p ! i"] by (auto simp: IsSpecialByte_iff)
      then have "unat (p ! i) + 255 = unat (p ! i) - 1 + 256" by simp
      then have "(unat (p ! i) + 255) mod 256 = unat (p ! i) - 1" using b by (simp only: mod_add_self2) simp
      moreover have "(unat (p ! i) + 1) mod 256 = unat (p ! i) + 1" using b by simp
      moreover have "\<forall>b \<in> set (take i p). \<not> IsSpecialByte b" using plain by (auto dest: in_set_takeD)
      note byte_of_sum[OF this i]
      ultimately show "\<not> (bit (?v - R) (8 * i + 7) \<and> \<not> bit (?v + R) (8 * i + 7))"
        unfolding high_bit_iff plus minus by (simp, arith)
    qed
  next
    assume clear: "\<forall>i < ?n. \<not> (bit (?v - R) (8 * i + 7) \<and> \<not> bit (?v + R) (8 * i + 7))"
    show "\<forall>b \<in> set p. \<not> IsSpecialByte b"
    proof (rule ccontr)
      assume "\<not> (\<forall>b \<in> set p. \<not> IsSpecialByte b)"
      then have "\<exists>i. i < ?n \<and> IsSpecialByte (p ! i)" by (auto simp: in_set_conv_nth)
      from exists_least_iff[THEN iffD1, OF this] obtain i
        where i: "i < ?n" "IsSpecialByte (p ! i)" "\<forall>j < i. \<not> (j < ?n \<and> IsSpecialByte (p ! j))" by blast
      then have "\<forall>b \<in> set (take i p). \<not> IsSpecialByte b" by (auto simp: in_set_conv_nth)
      from byte_of_sum[OF this i(1)] i(2) clear[rule_format, OF i(1)] show False
        unfolding high_bit_iff plus minus by (auto simp: IsSpecialByte_iff)
    qed
  qed
  finally show ?thesis .
qed

lemma special_test_64:
  assumes "8 \<le> length p"
  shows "(LOAD64 p - 0x0101010101010101) AND NOT (LOAD64 p + 0x0101010101010101) AND 0x8080808080808080 = 0 \<longleftrightarrow>
    (\<forall>i < 8. \<not> IsSpecialByte (p ! i))"
proof -
  have "list_all (\<lambda>j. bit (0x8080808080808080 :: 64 word) j = (j mod 8 = 7)) [0..<64]" by code_simp
  then have M: "bit (0x8080808080808080 :: 64 word) j = (j mod 8 = 7)" if "j < LENGTH(64)" for j
    using that by (simp add: list_all_iff)
  have len: "length (take 8 p) = 8" using assms by simp
  have "unat (0x0101010101010101 :: 64 word) = ones 8" using ones_closed[of 8] by simp
  then have "unat (0x0101010101010101 :: 64 word) = ones (length (take 8 p))" by (simp only: len)
  from special_test[OF _ this M] show ?thesis
    using assms unfolding LOAD64_def by (auto simp: all_set_conv_all_nth)
qed

lemma special_test_32:
  assumes "4 \<le> length p"
  shows "(LOAD32 p - 0x01010101) AND NOT (LOAD32 p + 0x01010101) AND 0x80808080 = 0 \<longleftrightarrow> (\<forall>i < 4. \<not> IsSpecialByte (p ! i))"
proof -
  have "list_all (\<lambda>j. bit (0x80808080 :: 32 word) j = (j mod 8 = 7)) [0..<32]" by code_simp
  then have M: "bit (0x80808080 :: 32 word) j = (j mod 8 = 7)" if "j < LENGTH(32)" for j
    using that by (simp add: list_all_iff)
  have len: "length (take 4 p) = 4" using assms by simp
  have "unat (0x01010101 :: 32 word) = ones 4" using ones_closed[of 4] by simp
  then have "unat (0x01010101 :: 32 word) = ones (length (take 4 p))" by (simp only: len)
  from special_test[OF _ this M] show ?thesis
    using assms unfolding LOAD32_def by (auto simp: all_set_conv_all_nth)
qed

lemma all_less_4: "(\<forall>i < 4. P i) \<longleftrightarrow> P 0 \<and> P 1 \<and> P 2 \<and> P (3::nat)"
  by (simp add: numeral_eq_Suc All_less_Suc) blast

lemma AdvanceIfNoSpecialBytes_correct:
  assumes "4 \<le> length p"
  shows "AdvanceIfNoSpecialBytes (LOAD32 p) p = Inr (if \<forall>i < 4. \<not> IsSpecialByte (p ! i) then 4 else 0)"
  using special_test_32[OF assms] unfolding AdvanceIfNoSpecialBytes_def all_less_4 by auto

lemma LOAD64_low: "8 \<le> length p \<Longrightarrow> ucast (LOAD64 p) = LOAD32 p"
proof -
  assume len: "8 \<le> length p"
  have "take 8 p = take 4 p @ take 4 (drop 4 p)" by (simp add: take_add[of 4 4, simplified])
  then have "le_val (take 8 p) = le_val (take 4 p) + 256 ^ 4 * le_val (take 4 (drop 4 p))"
    using len by (simp add: le_val_append min_def)
  then have low: "le_val (take 8 p) mod 2 ^ 32 = le_val (take 4 p) mod 2 ^ 32" by simp
  have "length (take 8 p) = 8" using len by simp
  then have "le_val (take 8 p) < 2 ^ 64" using le_val_less[of "take 8 p"] by simp
  then have "unat (ucast (LOAD64 p) :: 32 word) = unat (LOAD32 p)"
    using low by (simp add: LOAD64_def LOAD32_def unsigned_ucast_eq take_bit_eq_mod unat_of_nat)
  then show ?thesis by (simp add: word_unat_eq_iff)
qed

abbreviation plain_prefix :: "bytes \<Rightarrow> bytes" where
  "plain_prefix p \<equiv> takeWhile (\<lambda>b. \<not> IsSpecialByte b) p"

lemma plain_prefix_skip:
  assumes "\<forall>i < k. \<not> IsSpecialByte (p ! i)" "k \<le> length p"
  shows "length (plain_prefix p) = k + length (plain_prefix (drop k p))"
proof -
  have "\<forall>b \<in> set (take k p). \<not> IsSpecialByte b" using assms by (auto simp: in_set_conv_nth)
  then have "plain_prefix (take k p @ drop k p) = take k p @ plain_prefix (drop k p)"
    by (intro takeWhile_append2) simp
  then show ?thesis using assms(2) by (simp add: min_def)
qed

lemma SkipToNextSpecialByte_plain_prefix: "SkipToNextSpecialByte p = Inr (length (plain_prefix p))"
proof (induction p rule: measure_induct_rule[of length])
  case (less p)
  consider "8 \<le> length p" "\<forall>i < 8. \<not> IsSpecialByte (p ! i)" | "8 \<le> length p" "\<not> (\<forall>i < 8. \<not> IsSpecialByte (p ! i))"
    | "length p < 8" by (cases "length p < 8") auto
  then show ?case
  proof cases
    case 1
    then have "SkipToNextSpecialByte (drop 8 p) = Inr (length (plain_prefix (drop 8 p)))" by (intro less) simp
    then show ?thesis using 1 special_test_64[OF 1(1)] plain_prefix_skip[OF 1(2,1)]
      by (simp add: SkipToNextSpecialByte.simps[of p])
  next
    case 2
    let ?n = "length (plain_prefix p)"
    have plain: "\<not> IsSpecialByte (p ! j)" if "j < ?n" for j
      using that takeWhile_nth[of j "\<lambda>b. \<not> IsSpecialByte b" p] nth_mem[OF that] by (auto dest: set_takeWhileD)
    obtain j where "j < 8" "IsSpecialByte (p ! j)" using 2(2) by blast
    then have n: "?n < 8" using plain[of j] by (cases "?n < 8") auto
    then have special: "IsSpecialByte (p ! ?n)" using 2(1) nth_length_takeWhile[of "\<lambda>b. \<not> IsSpecialByte b" p] by auto
    define n where "n = ?n"
    have facts: "n < 8" "IsSpecialByte (p ! n)" "\<And>j. j < n \<Longrightarrow> \<not> IsSpecialByte (p ! j)"
      using n special plain by (simp_all add: n_def)
    have "AdvanceIfNoSpecialBytes (ucast (LOAD64 p)) p = Inr (if n < 4 then 0 else 4)"
    proof -
      have "(\<forall>i < 4. \<not> IsSpecialByte (p ! i)) \<longleftrightarrow> \<not> n < 4" using facts by (metis less_le_trans not_less)
      then show ?thesis using AdvanceIfNoSpecialBytes_correct[of p] 2(1) by (simp add: LOAD64_low)
    qed
    moreover have "\<exists>a. (if n < 4 then 0 else 4) = a \<and> a \<le> n \<and> n < a + 4" using facts(1) by auto
    then obtain a where a: "(if n < 4 then 0 else 4) = a" "a \<le> n" "n < a + 4" by blast
    ultimately have adv: "AdvanceIfNoSpecialBytes (ucast (LOAD64 p)) p = Inr a" by simp
    have "n = a \<or> n = a + 1 \<or> n = a + 2 \<or> n = a + 3" using a by linarith
    then have "(if IsSpecialByte (p ! a) then Inr a
             else if IsSpecialByte (p ! (a + 1)) then Inr (a + 1)
             else if IsSpecialByte (p ! (a + 2)) then Inr (a + 2)
             else if IsSpecialByte (p ! (a + 3)) then Inr (a + 3) else Inl HardAssert) = Inr n"
      using facts(2) facts(3)[of a] facts(3)[of "a + 1"] facts(3)[of "a + 2"] by auto
    then show ?thesis
      using 2(1) special_test_64[OF 2(1)] 2(2) adv unfolding SkipToNextSpecialByte.simps[of p] Let_def n_def by simp
  next
    case 3
    let ?a = "if 4 \<le> length p \<and> (\<forall>i < 4. \<not> IsSpecialByte (p ! i)) then 4 else 0"
    have "(if 4 \<le> length p then AdvanceIfNoSpecialBytes (LOAD32 p) p else Inr 0) = Inr ?a"
      using AdvanceIfNoSpecialBytes_correct[of p] by simp
    moreover have "?a + length (plain_prefix (drop ?a p)) = length (plain_prefix p)"
      using plain_prefix_skip[of 4 p] by auto
    ultimately show ?thesis using 3 by (simp add: SkipToNextSpecialByte.simps[of p])
  qed
qed

section \<open>The code of a string\<close>

definition esc :: "bool \<Rightarrow> byte \<Rightarrow> bytes" where
  "esc INVERT c = (if IsSpecialByte c then [Convert INVERT c, Convert (\<not> INVERT) c] else [Convert INVERT c])"

definition string_code :: "bool \<Rightarrow> bytes \<Rightarrow> bytes" where
  "string_code INVERT s = concat (map (esc INVERT) s) @ [Convert INVERT 0, Convert INVERT 1]"

lemma concat_esc_plain: "\<forall>b \<in> set s. \<not> IsSpecialByte b \<Longrightarrow> concat (map (esc INVERT) s) = map (Convert INVERT) s"
  by (induction s) (simp_all add: esc_def)

lemma split_special:
  assumes "length (plain_prefix s) < length s"
  shows "s = plain_prefix s @ s ! length (plain_prefix s) # drop (Suc (length (plain_prefix s))) s"
    and "IsSpecialByte (s ! length (plain_prefix s))" "take (length (plain_prefix s)) s = plain_prefix s"
proof -
  show t: "take (length (plain_prefix s)) s = plain_prefix s" by (rule takeWhile_eq_take[symmetric])
  show "s = plain_prefix s @ s ! length (plain_prefix s) # drop (Suc (length (plain_prefix s))) s"
    using id_take_nth_drop[OF assms] t by simp
  show "IsSpecialByte (s ! length (plain_prefix s))" using nth_length_takeWhile[OF assms] by simp
qed

lemma plain_prefix_set: "\<forall>b \<in> set (plain_prefix s). \<not> IsSpecialByte b"
  by (auto dest: set_takeWhileD)

lemma EncodeStringFragment_code: "EncodeStringFragment INVERT dest s = Inr (dest @ concat (map (esc INVERT) s))"
proof (induction s arbitrary: dest rule: measure_induct_rule[of length])
  case (less s)
  let ?n = "length (plain_prefix s)"
  show ?case
  proof (cases "length s \<le> ?n")
    case True
    then have eq: "plain_prefix s = s" by (metis takeWhile_eq_take take_all)
    then have "\<forall>b \<in> set s. \<not> IsSpecialByte b" using plain_prefix_set[of s] by simp
    then have "concat (map (esc INVERT) s) = map (Convert INVERT) s" by (rule concat_esc_plain)
    moreover have "SkipToNextSpecialByte s = Inr (length s)" using eq by (simp only: SkipToNextSpecialByte_plain_prefix)
    ultimately show ?thesis
      unfolding EncodeStringFragment.simps[of INVERT dest s] by (simp add: AppendBytes_map)
  next
    case False
    then have n: "?n < length s" by simp
    note sp = split_special[OF n]
    let ?d = "dest @ map (Convert INVERT) (plain_prefix s) @ esc INVERT (s ! ?n)"
    have "s \<noteq> []" using n by auto
    then have "EncodeStringFragment INVERT dest s = EncodeStringFragment INVERT ?d (drop (Suc ?n) s)"
      using n sp(2,3) by (simp add: EncodeStringFragment.simps[of INVERT dest s] SkipToNextSpecialByte_plain_prefix AppendBytes_map esc_def)
    also have "\<dots> = Inr (?d @ concat (map (esc INVERT) (drop (Suc ?n) s)))" using n by (intro less) simp
    also have "?d @ concat (map (esc INVERT) (drop (Suc ?n) s)) = dest @ concat (map (esc INVERT) s)"
      using arg_cong[OF sp(1), of "\<lambda>s. concat (map (esc INVERT) s)"] concat_esc_plain[OF plain_prefix_set[of s]] by simp
    finally show ?thesis .
  qed
qed

lemma WriteString_internal_code: "WriteString_internal INVERT dest s = Inr (dest @ string_code INVERT s)"
  by (simp add: WriteString_internal_def EncodeStringFragment_code AppendBytes_map string_code_def kEscape1_Separator_def
      kEscape1_def kSeparator_def)

lemma Convert_twice [simp]: "Convert INVERT (Convert INVERT c) = c"
  by (simp add: Convert_def)

lemma IsSpecialByte_Convert [simp]: "IsSpecialByte (Convert INVERT c) = IsSpecialByte c"
  using byte_less[of c] by (auto simp: IsSpecialByte_iff Convert_def unat_NOT)

lemma Convert_eq_iff: "Convert INVERT a = Convert INVERT b \<longleftrightarrow> a = b"
  by (metis Convert_twice)

lemma Convert_not: "Convert (\<not> INVERT) c = Convert INVERT (NOT c)"
  by (simp add: Convert_def)

lemma special_cases: "IsSpecialByte c \<Longrightarrow> c = 0 \<or> c = 255"
  by (auto simp: IsSpecialByte_iff word_unat_eq_iff)

lemma ReadStringInternal_step:
  assumes "\<forall>b \<in> set u. \<not> IsSpecialByte b" "IsSpecialByte x"
  shows "ReadStringInternal INVERT (u @ x # y # q) result =
    (let result' = result @ map (Convert INVERT) u
     in if x = Convert INVERT kEscape1 \<and> y = Convert INVERT kSeparator then Inr (Some (result', q))
        else if x = Convert INVERT kEscape1 \<and> y = Convert INVERT kNullCharacter then ReadStringInternal INVERT q (result' @ [0])
        else if x = Convert INVERT kEscape2 \<and> y = Convert INVERT kFFCharacter then ReadStringInternal INVERT q (result' @ [255])
        else Inr None)"
proof -
  have "butlast (u @ x # y # q) = u @ x # butlast (y # q)" by (simp add: butlast_append)
  moreover have "plain_prefix (u @ x # z) = u" for z using assms by (simp add: takeWhile_append2)
  ultimately have "SkipToNextSpecialByte (butlast (u @ x # y # q)) = Inr (length u)"
    by (simp only: SkipToNextSpecialByte_plain_prefix)
  then show ?thesis using assms(2)
    by (simp add: ReadStringInternal.simps[of INVERT "u @ x # y # q"] nth_append AppendBytes_map Let_def)
qed

lemma ReadStringInternal_code:
  "ReadStringInternal INVERT (string_code INVERT s @ rest) result = Inr (Some (result @ s, rest))"
proof (induction s arbitrary: result rule: measure_induct_rule[of length])
  case (less s)
  let ?t = "plain_prefix s" and ?n = "length (plain_prefix s)"
  have plain: "\<forall>b \<in> set (map (Convert INVERT) ?t). \<not> IsSpecialByte b" using plain_prefix_set[of s] by simp
  have t: "map (Convert INVERT) (map (Convert INVERT) ?t) = ?t" by (simp add: comp_def)
  have "IsSpecialByte 0" by (simp add: IsSpecialByte_iff)
  then have zero: "IsSpecialByte (Convert INVERT 0)" by simp
  show ?case
  proof (cases "?n < length s")
    case False
    then have s: "s = ?t" by (metis takeWhile_eq_take take_all not_less)
    then have "concat (map (esc INVERT) s) = map (Convert INVERT) ?t" by (metis concat_esc_plain plain_prefix_set)
    then have "string_code INVERT s @ rest = map (Convert INVERT) ?t @ Convert INVERT 0 # Convert INVERT 1 # rest"
      by (simp add: string_code_def)
    then show ?thesis using ReadStringInternal_step[OF plain zero, of INVERT "Convert INVERT 1" rest result] s t
      by (simp add: kEscape1_def kSeparator_def)
  next
    case True
    note sp = split_special[OF True]
    let ?c = "s ! ?n" and ?s = "drop (Suc ?n) s"
    have "concat (map (esc INVERT) s) = map (Convert INVERT) ?t @ Convert INVERT ?c # Convert INVERT (NOT ?c) # concat (map (esc INVERT) ?s)"
      using arg_cong[OF sp(1), of "\<lambda>s. concat (map (esc INVERT) s)"] concat_esc_plain[OF plain_prefix_set[of s]] sp(2)
      by (simp add: esc_def Convert_not)
    then have code: "string_code INVERT s @ rest =
        map (Convert INVERT) ?t @ Convert INVERT ?c # Convert INVERT (NOT ?c) # (string_code INVERT ?s @ rest)"
      by (simp add: string_code_def)
    have rec: "ReadStringInternal INVERT (string_code INVERT ?s @ rest) (result @ ?t @ [?c]) = Inr (Some ((result @ ?t @ [?c]) @ ?s, rest))"
      using True by (intro less) simp
    have "IsSpecialByte (Convert INVERT ?c)" using sp(2) by simp
    from ReadStringInternal_step[OF plain this, of INVERT "Convert INVERT (NOT ?c)" "string_code INVERT ?s @ rest" result]
    have "ReadStringInternal INVERT (string_code INVERT s @ rest) result =
        ReadStringInternal INVERT (string_code INVERT ?s @ rest) (result @ ?t @ [?c])"
      using special_cases[OF sp(2)] unfolding code t
      by (auto simp: Convert_eq_iff kEscape1_def kSeparator_def kNullCharacter_def kEscape2_def kFFCharacter_def Let_def)
    then show ?thesis using rec sp(1) by simp
  qed
qed

section \<open>Order\<close>

abbreviation Compare_bytes :: "bytes cmp" where
  "Compare_bytes \<equiv> CompareContainer DefaultComparator"

text \<open>The order of a code: reversed when the code is inverted.\<close>

definition direction :: "bool \<Rightarrow> ComparisonResult \<Rightarrow> ComparisonResult" where
  "direction INVERT r = (if INVERT then ReverseOrder r else r)"

lemma Compare_bytes_prefix: "Compare_bytes (p @ x) (p @ y) = Compare_bytes x y"
  by (induction p) (simp_all add: DefaultComparator_def)

lemma Convert_compare: "DefaultComparator (Convert INVERT a) (Convert INVERT b) = direction INVERT (DefaultComparator a b)"
  using byte_less[of a] byte_less[of b]
  by (auto simp: DefaultComparator_def Convert_def direction_def word_less_nat_alt unat_NOT word_unat_eq_iff)

lemma hd_esc: "\<exists>es. esc INVERT c = Convert INVERT c # es"
  by (simp add: esc_def)

lemma end_compare: "Compare_bytes (Convert INVERT 0 # Convert INVERT 1 # x) (esc INVERT c @ y) = direction INVERT Ascending"
proof (cases "c = 0")
  case True
  have "esc INVERT 0 = [Convert INVERT 0, Convert INVERT (NOT 0)]" by (simp add: esc_def IsSpecialByte_iff Convert_not)
  moreover have "DefaultComparator (1 :: byte) (NOT 0) = Ascending" by code_simp
  ultimately show ?thesis using True Convert_compare[of INVERT 1 "NOT 0"]
    by (cases INVERT) (simp_all add: direction_def)
next
  case False
  then have "DefaultComparator (0 :: byte) c = Ascending"
    by (simp add: DefaultComparator_def word_gt_0)
  then show ?thesis using hd_esc[of INVERT c] Convert_compare[of INVERT 0 c]
    by (cases INVERT) (auto simp: direction_def)
qed

lemma string_code_compare:
  "Compare_bytes (string_code INVERT x @ r) (string_code INVERT y @ r') =
     (if x = y then Compare_bytes r r' else direction INVERT (Compare_bytes x y))"
proof (induction x arbitrary: y)
  case Nil
  show ?case
  proof (cases y)
    case (Cons c y')
    then show ?thesis
      using end_compare[of INVERT r c "concat (map (esc INVERT) y') @ Convert INVERT 0 # Convert INVERT 1 # r'"]
      by (simp add: string_code_def)
  qed (simp add: string_code_def)
next
  case (Cons a x)
  show ?case
  proof (cases y)
    case Nil
    have "Compare_bytes (string_code INVERT (a # x) @ r) (string_code INVERT [] @ r') =
        ReverseOrder (Compare_bytes (string_code INVERT [] @ r') (string_code INVERT (a # x) @ r))"
      by (rule CompareContainer_rev) (rule default_cmp.cmp_sym)
    then show ?thesis
      using Nil end_compare[of INVERT r' a "concat (map (esc INVERT) x) @ Convert INVERT 0 # Convert INVERT 1 # r"]
      by (cases INVERT) (simp_all add: string_code_def direction_def)
  next
    case c: (Cons b y')
    show ?thesis
    proof (cases "a = b")
      case True
      then show ?thesis using Cons[of y'] c by (simp add: string_code_def Compare_bytes_prefix)
    next
      case False
      then have "DefaultComparator a b \<noteq> Same" by simp
      moreover obtain es es' where "esc INVERT a = Convert INVERT a # es" "esc INVERT b = Convert INVERT b # es'"
        using hd_esc by blast
      ultimately show ?thesis using False c Convert_compare[of INVERT a b]
        by (cases INVERT) (simp_all add: string_code_def direction_def)
    qed
  qed
qed

section \<open>What a code promises its callers\<close>

lemma Compare_bytes_Same [simp]: "Compare_bytes a b = Same \<longleftrightarrow> a = b"
  by (rule strong_comparator.cmp_Same_iff) (rule default_cmp.CompareContainer_strong)

text \<open>
  The contract of a writer and its reader: the writer appends the code, the reader recovers the value and leaves what
  follows, and codes compare byte by byte like the values they stand for, whatever follows them.
\<close>

text \<open>
  What the properties say of one writer and its reader: the code of \<open>x\<close> reads back as \<open>y\<close>, and the codes of \<open>x\<close> and
  \<open>y\<close> compare like the values, the bytes that follow deciding only between equal values.
\<close>

definition reads_back :: "(bytes \<Rightarrow> 'a \<Rightarrow> bytes res) \<Rightarrow> (bytes \<Rightarrow> ('a \<times> bytes) option res) \<Rightarrow> 'a \<Rightarrow> 'a \<Rightarrow> bool" where
  "reads_back encode decode x y \<longleftrightarrow>
     (\<exists>c. (\<forall>dest. encode dest x = Inr (dest @ c)) \<and> (\<forall>r. decode (c @ r) = Inr (Some (y, r))))"

definition written_in_order :: "(bytes \<Rightarrow> 'a \<Rightarrow> bytes res) \<Rightarrow> 'a cmp \<Rightarrow> 'a \<Rightarrow> 'a \<Rightarrow> bool" where
  "written_in_order encode c x y \<longleftrightarrow>
     (\<exists>a b. encode [] x = Inr a \<and> encode [] y = Inr b \<and>
        (\<forall>r r'. Compare_bytes (a @ r) (b @ r') = (if c x y = Same then Compare_bytes r r' else c x y)))"

fun write_all :: "(bytes \<Rightarrow> 'a \<Rightarrow> bytes res) \<Rightarrow> bytes \<Rightarrow> 'a list \<Rightarrow> bytes res" where
  "write_all encode dest [] = Inr dest"
| "write_all encode dest (x # xs) = bind_res (encode dest x) (\<lambda>d. write_all encode d xs)"

locale ordered_codec =
  fixes valid :: "'a \<Rightarrow> bool" and cmp :: "'a cmp" and code :: "'a \<Rightarrow> bytes"
    and encode :: "bytes \<Rightarrow> 'a \<Rightarrow> bytes res" and decode :: "bytes \<Rightarrow> ('a \<times> bytes) option res"
  assumes encode_code: "valid x \<Longrightarrow> encode dest x = Inr (dest @ code x)"
    and decode_code: "valid x \<Longrightarrow> \<exists>y. cmp x y = Same \<and> (\<forall>r. decode (code x @ r) = Inr (Some (y, r)))"
    and code_order: "valid x \<Longrightarrow> valid y \<Longrightarrow>
      Compare_bytes (code x @ r) (code y @ r') = (if cmp x y = Same then Compare_bytes r r' else cmp x y)"
begin

lemma code_prefix_free:
  assumes "valid x" "valid y" "code x @ r = code y @ r'"
  shows "cmp x y = Same \<and> r = r'"
proof -
  have "Compare_bytes (code x @ r) (code y @ r') = Same" using assms(3) by simp
  then show ?thesis unfolding code_order[OF assms(1,2)] by (cases "cmp x y = Same") simp_all
qed

lemma codec_reads_back: "valid x \<Longrightarrow> \<exists>y. cmp x y = Same \<and> reads_back encode decode x y"
  using decode_code[of x] encode_code[of x] by (auto simp: reads_back_def)

lemma codec_in_order: "valid x \<Longrightarrow> valid y \<Longrightarrow> written_in_order encode cmp x y"
  by (auto simp: written_in_order_def encode_code code_order)

lemma write_all_code: "\<forall>x \<in> set xs. valid x \<Longrightarrow> write_all encode dest xs = Inr (dest @ concat (map code xs))"
  by (induction xs arbitrary: dest) (simp_all add: encode_code)

lemma codes_order:
  "length xs = length ys \<Longrightarrow> \<forall>x \<in> set xs. valid x \<Longrightarrow> \<forall>y \<in> set ys. valid y \<Longrightarrow>
   Compare_bytes (concat (map code xs) @ r) (concat (map code ys) @ r') =
     (if CompareContainer cmp xs ys = Same then Compare_bytes r r' else CompareContainer cmp xs ys)"
  by (induction xs ys rule: list_induct2) (simp_all add: code_order)

end

lemma ReverseOrder_Same [simp]: "direction INVERT r = Same \<longleftrightarrow> r = Same"
  by (simp add: direction_def)

lemma string_codec:
  "ordered_codec (\<lambda>s. True) (\<lambda>x y. direction INVERT (Compare_bytes x y)) (string_code INVERT)
     (WriteString_internal INVERT) (\<lambda>src. ReadStringInternal INVERT src [])"
proof
  show "\<exists>y. direction INVERT (Compare_bytes x y) = Same \<and>
      (\<forall>r. ReadStringInternal INVERT (string_code INVERT x @ r) [] = Inr (Some (y, r)))" for x
    by (rule exI[of _ x]) (simp add: ReadStringInternal_code)
qed (simp_all add: WriteString_internal_code string_code_compare)

interpretation string_inc: ordered_codec "\<lambda>s. True" Compare_bytes "string_code False" WriteString ReadString
  using string_codec[of False] by (simp add: WriteString_def ReadString_def[abs_def] direction_def)

interpretation string_dec: ordered_codec "\<lambda>s. True" "\<lambda>x y. ReverseOrder (Compare_bytes x y)" "string_code True"
  WriteStringDecreasing ReadStringDecreasing
  using string_codec[of True] by (simp add: WriteStringDecreasing_def ReadStringDecreasing_def[abs_def] direction_def)

text \<open>
  C36. The search for the next byte that needs escaping, which tests eight and then four bytes at a time with word
  arithmetic, stops exactly at the end of the longest prefix without such a byte, and none of its internal assertions
  fails.
\<close>

theorem SkipToNextSpecialByte_first_special:
  "SkipToNextSpecialByte p = Inr (length (takeWhile (\<lambda>b. b \<noteq> 0 \<and> b \<noteq> 255) p))"
  unfolding SkipToNextSpecialByte_plain_prefix by (simp add: IsSpecialByte_iff word_unat_eq_iff)

end
