(* ===== verification/Ordered_Numbers.thy ===== *)
theory Ordered_Numbers
  imports Ordered_Code
begin

unbundle bit_operations_syntax

text \<open>
  The number codes of the ordered encoding: what the unsigned, signed and double writers produce, that the readers
  recover it with whatever follows left in place, and that comparing codes byte by byte compares the numbers.
\<close>

section \<open>Numbers in network order\<close>

fun be_val :: "bytes \<Rightarrow> nat" where
  "be_val [] = 0"
| "be_val (b # bs) = unat b * 256 ^ length bs + be_val bs"

lemma be_val_less: "be_val bs < 256 ^ length bs"
proof (induction bs)
  case (Cons b bs)
  have "unat b * 256 ^ length bs + be_val bs < (unat b + 1) * 256 ^ length bs" using Cons by simp
  also have "\<dots> \<le> 256 * 256 ^ length bs" using byte_less[of b] by (intro mult_le_mono1) simp
  finally show ?case by simp
qed simp

lemma be_val_append: "be_val (a @ b) = be_val a * 256 ^ length b + be_val b"
  by (induction a) (simp_all add: power_add algebra_simps)

lemma length_be [simp]: "length (be n x) = n"
  by (induction n) simp_all

lemma unat_byte: "unat (word_of_nat x :: byte) = x mod 256"
  by (simp add: unat_of_nat)

lemma be_val_be [simp]: "be_val (be n x) = x mod 256 ^ n"
proof (induction n)
  case (Suc n)
  then show ?case using mod_mult2_eq[of x "256 ^ n" 256] by (simp add: unat_byte mult.commute)
qed simp

lemma drop_be: "drop k (be (k + n) x) = be n x"
  by (induction k) simp_all

lemma be_val_inj: "length a = length b \<Longrightarrow> be_val a = be_val b \<Longrightarrow> a = b"
proof (induction a b rule: list_induct2)
  case (Cons x xs y ys)
  have v: "(be_val xs + 256 ^ length xs * q) div 256 ^ length xs = q" "(be_val ys + 256 ^ length xs * q) div 256 ^ length xs = q" for q
    using be_val_less[of xs] be_val_less[of ys] Cons.hyps by simp_all
  have "unat x = unat y"
    using arg_cong[OF Cons.prems, of "\<lambda>v. v div 256 ^ length xs"] v[of "unat x"] v[of "unat y"] Cons.hyps
    by (simp add: mult.commute add.commute)
  then show ?case using Cons by (simp add: word_unat_eq_iff)
qed simp

lemma be_val_NOT: "be_val (map NOT a) = 256 ^ length a - 1 - be_val a"
proof (induction a)
  case (Cons b a)
  have "unat (NOT b) = 255 - unat b" by (simp add: unat_NOT)
  then have "(unat (NOT b) + unat b + 1) * 256 ^ length a = 256 * 256 ^ length a" using byte_less[of b] by simp
  then have "unat (NOT b) * 256 ^ length a + unat b * 256 ^ length a + 256 ^ length a = 256 * 256 ^ length a"
    by (simp add: algebra_simps)
  then show ?case using Cons be_val_less[of a] by simp
qed simp

lemma be_NOT:
  assumes "n \<le> m" "x < 256 ^ m"
  shows "be n (256 ^ m - 1 - x) = map NOT (be n x)"
proof (rule be_val_inj)
  let ?B = "256 ^ n :: nat" and ?C = "256 ^ (m - n) :: nat"
  have m: "256 ^ m = ?B * ?C" using assms(1) by (simp add: power_add[symmetric])
  have q: "x div ?B < ?C" using assms(2) m by (simp add: less_mult_imp_div_less mult.commute)
  have r: "x mod ?B < ?B" by simp
  have "x = ?B * (x div ?B) + x mod ?B" by simp
  moreover obtain d where "?C = x div ?B + d + 1" using less_imp_Suc_add[OF q] by auto
  then have "?B * ?C = ?B * (?C - 1 - x div ?B) + ?B * (x div ?B) + ?B"
    by (simp add: algebra_simps)
  ultimately have "256 ^ m - 1 - x = ?B * (?C - 1 - x div ?B) + (?B - 1 - x mod ?B)" unfolding m using r by linarith
  moreover have "(?B * q + (?B - 1 - x mod ?B)) mod ?B = ?B - 1 - x mod ?B" for q
    using r by (simp only: mod_mult_self4) simp
  ultimately have "(256 ^ m - 1 - x) mod ?B = ?B - 1 - x mod ?B" by simp
  then show "be_val (be n (256 ^ m - 1 - x)) = be_val (map NOT (be n x))" by (simp add: be_val_NOT)
qed simp

text \<open>One byte string is before another one whatever follows them.\<close>

definition before :: "bytes \<Rightarrow> bytes \<Rightarrow> bool" where
  "before a b \<longleftrightarrow> (be_val a + 1) * 256 ^ length b \<le> be_val b * 256 ^ length a"

lemma before_Cons:
  assumes "before (x # a) (y # b)"
  shows "unat x < unat y \<or> x = y \<and> before a b"
proof -
  let ?A = "256 ^ length a :: nat" and ?B = "256 ^ length b :: nat"
  have h: "(unat x * ?A + be_val a + 1) * ?B \<le> (unat y * ?B + be_val b) * ?A"
    using assms by (simp add: before_def algebra_simps)
  consider "unat x < unat y" | "unat x = unat y" | "unat y < unat x" by linarith
  then show ?thesis
  proof cases
    case 2
    then have "(be_val a + 1) * ?B \<le> be_val b * ?A" using h by (simp add: algebra_simps)
    then show ?thesis using 2 by (simp add: before_def word_unat_eq_iff)
  next
    case 3
    have "(unat y * ?B + be_val b) * ?A < (unat y + 1) * ?B * ?A" using be_val_less[of b] by simp
    also have "\<dots> \<le> unat x * ?A * ?B" using 3 mult_le_mono1[of "unat y + 1" "unat x" "?A * ?B"] by (simp add: algebra_simps)
    also have "\<dots> \<le> (unat x * ?A + be_val a + 1) * ?B" by (intro mult_le_mono1) simp
    finally show ?thesis using h by simp
  qed simp
qed

lemma before_compare: "before a b \<Longrightarrow> Compare_bytes (a @ r) (b @ r') = Ascending"
proof (induction a arbitrary: b)
  case Nil
  then show ?case using be_val_less[of b] by (simp add: before_def)
next
  case (Cons x a)
  show ?case
  proof (cases b)
    case Nil
    then show ?thesis using Cons.prems by (simp add: before_def)
  next
    case c: (Cons y b')
    from before_Cons[OF Cons.prems[unfolded c]] show ?thesis
    proof
      assume "unat x < unat y"
      then have "DefaultComparator x y = Ascending" by (simp add: DefaultComparator_def word_less_nat_alt)
      then show ?thesis using c by simp
    next
      assume "x = y \<and> before a b'"
      then show ?thesis using Cons.IH c by simp
    qed
  qed
qed

lemma before_compare_rev: "before b a \<Longrightarrow> Compare_bytes (a @ r) (b @ r') = Descending"
  using before_compare[of b a r' r] CompareContainer_rev[of DefaultComparator "a @ r" "b @ r'", OF default_cmp.cmp_sym]
  by simp

lemma before_NOT: "before (map NOT b) (map NOT a) \<longleftrightarrow> before a b"
proof -
  let ?A = "256 ^ length a :: nat" and ?B = "256 ^ length b :: nat"
  obtain c where c: "?A = be_val a + c + 1" using less_imp_Suc_add[OF be_val_less] by fastforce
  obtain d where d: "?B = be_val b + d + 1" using less_imp_Suc_add[OF be_val_less] by fastforce
  have "(be_val a + c + 1) * ?B = ?A * ?B" "(be_val b + d + 1) * ?A = ?A * ?B"
    unfolding c[symmetric] d[symmetric] by simp_all
  then have "c * ?B + (be_val a + 1) * ?B = ?A * ?B" "(d + 1) * ?A + be_val b * ?A = ?A * ?B"
    by (simp_all add: algebra_simps)
  moreover have "be_val (map NOT a) = c" "be_val (map NOT b) = d" by (simp_all add: be_val_NOT c d)
  ultimately show ?thesis unfolding before_def length_map by (intro iffI) simp_all
qed

lemma before_head:
  assumes "unat x < unat y"
  shows "before (x # a) (y # b)"
proof -
  let ?A = "256 ^ length a :: nat" and ?B = "256 ^ length b :: nat"
  have "(be_val (x # a) + 1) * 256 ^ length (y # b) \<le> (unat x + 1) * ?A * (256 * ?B)"
    using be_val_less[of a] by (intro mult_le_mono) simp_all
  also have "\<dots> \<le> unat y * ?A * (256 * ?B)" using assms by (intro mult_le_mono) simp_all
  also have "\<dots> \<le> be_val (y # b) * 256 ^ length (x # a)" by (simp add: algebra_simps)
  finally show ?thesis by (simp only: before_def)
qed

lemma before_same_length:
  assumes "length a = length b"
  shows "before a b \<longleftrightarrow> be_val a < be_val b"
  unfolding before_def assms mult_le_cancel2 by (simp add: Suc_le_eq)

lemma compare_by_before:
  assumes "cmp x y = Same \<Longrightarrow> code x = code y" "cmp x y = Ascending \<Longrightarrow> before (code x) (code y)"
    "cmp x y = Descending \<Longrightarrow> before (code y) (code x)"
  shows "Compare_bytes (code x @ r) (code y @ r') = (if cmp x y = Same then Compare_bytes r r' else cmp x y)"
  using assms before_compare[of "code x" "code y" r r'] before_compare_rev[of "code y" "code x" r r']
  by (cases "cmp x y") (simp_all add: Compare_bytes_prefix)

section \<open>Unsigned numbers: round trip and order\<close>

lemma bytes_of_log:
  assumes "2 ^ l \<le> x" "x < (2::nat) ^ Suc l"
  shows "x < 256 ^ (l div 8 + 1)" "256 ^ (l div 8) \<le> x"
proof -
  have p: "(256::nat) ^ k = 2 ^ (8 * k)" for k by (simp add: power_mult)
  have "x < 2 ^ Suc l" by (rule assms(2))
  also have "\<dots> \<le> 2 ^ (8 * (l div 8 + 1))" by (rule power_increasing) (presburger, simp)
  finally show "x < 256 ^ (l div 8 + 1)" by (simp only: p)
  have "(2::nat) ^ (8 * (l div 8)) \<le> 2 ^ l" by (rule power_increasing) simp_all
  then show "256 ^ (l div 8) \<le> x" using assms(1) unfolding p by (rule order_trans)
qed

lemma OrderedNumLength_correct:
  "\<exists>len. OrderedNumLength n = Inr len \<and> len \<le> 8 \<and> unat n < 256 ^ len \<and> (0 < len \<longrightarrow> 256 ^ (len - 1) \<le> unat n)"
proof (cases "n = 0")
  case True
  then show ?thesis
    by (simp add: OrderedNumLength_def Log2Floor64_Portable_def Log2Floor_Portable_def bind_res_def)
next
  case False
  then obtain l where l: "Log2Floor64_Portable n = Inr (int l)" "2 ^ l \<le> unat n" "unat n < 2 ^ Suc l"
    using Log2Floor64_Portable_correct by blast
  have "(2::nat) ^ l < 2 ^ 64" using l(2) unat_less[of n] by simp
  then have "l < 64" using power_strict_increasing_iff[of "2::nat" l 64] by simp
  then have "l div 8 + 1 \<le> 8" by simp
  moreover have "nat (int l + 1 + 7) div 8 = l div 8 + 1" by (simp add: nat_add_distrib)
  ultimately show ?thesis using l bytes_of_log[OF l(2,3)]
    by (intro exI[of _ "l div 8 + 1"]) (simp add: OrderedNumLength_def)
qed

definition num_length :: "64 word \<Rightarrow> nat" where
  "num_length n = projr (OrderedNumLength n)"

lemma num_length:
  shows "OrderedNumLength n = Inr (num_length n)" "num_length n \<le> 8" "unat n < 256 ^ num_length n"
    "0 < num_length n \<Longrightarrow> 256 ^ (num_length n - 1) \<le> unat n"
  using OrderedNumLength_correct[of n] by (auto simp: num_length_def)

definition num_code :: "64 word \<Rightarrow> bytes" where
  "num_code n = word_of_nat (num_length n) # be (num_length n) (unat n)"

lemma buffer_code:
  assumes "len \<le> 8"
  shows "WriteNum_buffer dest num first len = dest @ first # be len (unat num)"
proof -
  have "drop (8 - len) (be 8 (unat num)) = be len (unat num)" using drop_be[of "8 - len" len] assms by simp
  moreover have "drop (8 - len) ((0 # be 8 (unat num) @ replicate 8 0)[8 - len := first]) =
      first # drop (8 - len) (be 8 (unat num) @ replicate 8 0)"
    using assms drop_update_swap[of "8 - len" "8 - len" "0 # be 8 (unat num) @ replicate 8 0" first]
    by (cases "8 - len") (simp_all del: be.simps replicate.simps add: Cons_nth_drop_Suc[symmetric] upd_conv_take_nth_drop)
  ultimately show ?thesis using assms by (simp add: WriteNum_buffer_def AppendUpto9_def del: be.simps replicate.simps)
qed

lemma WriteNumIncreasing_code: "WriteNumIncreasing dest n = Inr (dest @ num_code n)"
  using num_length[of n] by (simp add: WriteNumIncreasing_def num_code_def buffer_code)

lemma WriteNumDecreasing_code: "WriteNumDecreasing dest n = Inr (dest @ map NOT (num_code n))"
proof -
  have "unat n < 256 ^ 8" using unat_less[of n] by simp
  then have "be (num_length n) (256 ^ 8 - 1 - unat n) = map NOT (be (num_length n) (unat n))"
    using num_length(2)[of n] by (intro be_NOT)
  moreover have "unat (NOT n) = 256 ^ 8 - 1 - unat n" by (simp add: unat_NOT)
  ultimately show ?thesis
    using num_length[of n] by (simp add: WriteNumDecreasing_def num_code_def buffer_code)
qed

lemma shift_or: "push_bit 8 t OR ucast b = t * 256 + (ucast (b :: byte) :: 64 word)"
proof -
  have "push_bit 8 t AND (ucast b :: 64 word) = 0"
    by (rule bit_eqI) (auto simp: bit_simps dest: bit_imp_le_length)
  then show ?thesis by (simp add: disjunctive_add_eq_or[symmetric] push_bit_eq_mult mult.commute)
qed

lemma fold_shift: "fold (\<lambda>b tmp. push_bit 8 tmp OR ucast b) bs t = t * 256 ^ length bs + (word_of_nat (be_val bs) :: 64 word)"
proof (induction bs arbitrary: t)
  case (Cons b bs)
  have "(ucast b :: 64 word) = word_of_nat (unat b)" by simp
  then show ?case using Cons by (simp add: shift_or algebra_simps)
qed simp

lemma small_char:
  assumes "len \<le> 8"
  shows "char_to_size (sint (word_of_nat len :: byte)) = len"
    "char_to_size (NOT (sint (NOT (word_of_nat len :: byte)))) = len"
proof -
  have "len \<in> {0,1,2,3,4,5,6,7,8}" using assms by auto
  then show "char_to_size (sint (word_of_nat len :: byte)) = len"
    "char_to_size (NOT (sint (NOT (word_of_nat len :: byte)))) = len"
    by (elim insertE emptyE; simp add: char_to_size_def)+
qed

lemma minimal_head:
  assumes "0 < num_length n"
  shows "be (num_length n) (unat n) ! 0 \<noteq> 0"
proof -
  obtain k where k: "num_length n = Suc k" using assms by (cases "num_length n") simp_all
  have "256 ^ k \<le> unat n" "unat n < 256 * 256 ^ k" using num_length(3,4)[of n] k by simp_all
  then have "0 < unat n div 256 ^ k" "unat n div 256 ^ k < 256"
    by (simp_all add: div_greater_zero_iff less_mult_imp_div_less)
  then have "unat (word_of_nat (unat n div 256 ^ k) :: byte) \<noteq> 0" by (simp add: unat_byte)
  then show ?thesis using k by auto
qed

lemma size_no_wrap: "(len :: nat) \<le> 8 \<Longrightarrow> (len + 1) mod 2 ^ 64 = len + 1"
  by simp

lemma ReadNumIncreasing_code: "ReadNumIncreasing (num_code n @ r) = Inr (Some (n, r))"
proof -
  have g: "num_length n = 0 \<or> (be (num_length n) (unat n) @ r) ! 0 \<noteq> 0"
    using minimal_head[of n] by (auto simp: nth_append)
  have f: "fold (\<lambda>b tmp. push_bit 8 tmp OR ucast b) (be (num_length n) (unat n)) 0 = n"
    using num_length(3)[of n] by (simp add: fold_shift)
  show ?thesis unfolding ReadNumIncreasing_def num_code_def
    using g f num_length(2)[of n] small_char[OF num_length(2)[of n]] size_no_wrap[OF num_length(2)[of n]]
    by (simp add: Let_def) blast
qed

lemma ReadNumDecreasing_code: "ReadNumDecreasing (map NOT (num_code n) @ r) = Inr (Some (n, r))"
proof -
  let ?l = "num_length n"
  have "NOT b = 255 \<Longrightarrow> NOT (NOT b) = 0" for b :: byte by simp
  then have ne: "b \<noteq> 0 \<Longrightarrow> NOT b \<noteq> 255" for b :: byte using bit.double_compl[of b] by metis
  have g: "?l = 0 \<or> (map NOT (be ?l (unat n)) @ r) ! 0 \<noteq> 255"
    using ne minimal_head[of n] by (auto simp: nth_append)
  have "fold (\<lambda>b tmp. push_bit 8 tmp OR ucast b) (map NOT (be ?l (unat n))) (NOT 0 :: 64 word) =
      - (256 ^ ?l) + word_of_nat (256 ^ ?l - 1 - unat n)"
    using num_length(3)[of n] by (simp add: fold_shift be_val_NOT)
  also have "\<dots> = - 1 - n" using num_length(3)[of n] by (simp add: of_nat_diff)
  finally have f: "NOT (fold (\<lambda>b tmp. push_bit 8 tmp OR ucast b) (map NOT (be ?l (unat n))) (NOT 0)) = n"
    by (simp add: not_eq_complement)
  have z: "?l = 0 \<Longrightarrow> n = 0" using num_length(3)[of n] by (simp add: unat_eq_0)
  show ?thesis unfolding ReadNumDecreasing_def num_code_def
    using g f z num_length(2)[of n] small_char[OF num_length(2)[of n]] size_no_wrap[OF num_length(2)[of n]]
    by (simp add: Let_def) auto
qed

lemma num_length_mono: "n \<le> m \<Longrightarrow> num_length n \<le> num_length m"
proof (rule ccontr)
  assume h: "n \<le> m" "\<not> num_length n \<le> num_length m"
  have "unat m < 256 ^ num_length m" by (rule num_length(3))
  also have "\<dots> \<le> 256 ^ (num_length n - 1)" using h(2) by (intro power_increasing) simp_all
  also have "\<dots> \<le> unat n" using h(2) by (intro num_length(4)) simp
  finally show False using h(1) by (simp add: word_le_nat_alt)
qed

lemma num_code_before:
  assumes "n < m"
  shows "before (num_code n) (num_code m)"
proof (cases "num_length n = num_length m")
  case True
  have "unat n < unat m" using assms by (simp add: word_less_nat_alt)
  then show ?thesis unfolding num_code_def
    using True num_length(3)[of n] num_length(3)[of m] by (subst before_same_length) simp_all
next
  case False
  then have "num_length n < num_length m" using num_length_mono[of n m] assms by (simp add: less_imp_le)
  then show ?thesis unfolding num_code_def
    using num_length(2)[of m] by (intro before_head) (simp add: unat_byte)
qed

section \<open>Signed numbers: round trip and order\<close>

definition magnitude :: "64 word \<Rightarrow> 64 word" where
  "magnitude n = (if sint n < 0 then NOT n else n)"

lemma sint_unat:
  assumes "unat (n :: 64 word) = u"
  shows "sint n = (if u < 2 ^ 63 then int u else int u - 2 ^ 64)"
proof -
  have u: "uint n = int u" using assms by auto
  have lt: "u < 2 ^ 64" using assms unat_less[of n] by simp
  have s: "sint n = (int u + 2 ^ 63) mod 2 ^ 64 - 2 ^ 63"
    unfolding sint_uint signed_take_bit_eq_take_bit_shift take_bit_eq_mod u by simp
  show ?thesis
  proof (cases "u < 2 ^ 63")
    case False
    then have "(int u + 2 ^ 63 - 2 ^ 64) mod 2 ^ 64 = int u + 2 ^ 63 - 2 ^ 64"
      using lt by (intro mod_pos_pos_trivial) simp_all
    then have "(int u + 2 ^ 63) mod 2 ^ 64 = int u + 2 ^ 63 - 2 ^ 64" using mod_diff_right_eq[of "int u + 2 ^ 63" "2 ^ 64" "2 ^ 64"] by simp
    then show ?thesis using s False by simp
  qed (use s in simp)
qed

lemma sint_negative: "sint (n :: 64 word) < 0 \<longleftrightarrow> 2 ^ 63 \<le> unat n"
proof -
  obtain u where u: "unat n = u" by blast
  then show ?thesis using sint_unat[OF u] unat_less[of n] by (cases "u < 2 ^ 63") simp_all
qed

lemma unat_NOT_64: "unat (NOT (n :: 64 word)) = 2 ^ 64 - 1 - unat n"
  by (simp add: unat_NOT)

lemma sint_negative_NOT: "sint (NOT (n :: 64 word)) < 0 \<longleftrightarrow> \<not> sint n < 0"
  using unat_less[of n] unfolding sint_negative unat_NOT_64 by simp linarith

lemma magnitude_NOT [simp]: "magnitude (NOT n) = magnitude n"
  by (simp add: magnitude_def sint_negative_NOT)

lemma magnitude_less: "unat (magnitude n) < 2 ^ 63"
  using unat_less[of n] unfolding magnitude_def sint_negative by (cases "2 ^ 63 \<le> unat n") (simp_all add: unat_NOT_64)

lemma magnitude_cases:
  obtains "magnitude n = n" "\<not> sint n < 0" | "n = NOT (magnitude n)" "sint n < 0"
  by (cases "sint n < 0") (simp_all add: magnitude_def)

lemma kBitsToLength_div: "k \<le> 63 \<Longrightarrow> kBitsToLength ! k = k div 7 + 1"
proof -
  have "\<forall>k \<in> set [0..<64]. kBitsToLength ! k = k div 7 + 1" by code_simp
  then show "k \<le> 63 \<Longrightarrow> kBitsToLength ! k = k div 7 + 1" by simp
qed

lemma SignedEncodingLength_correct:
  "\<exists>len. SignedEncodingLength n = Inr len \<and> 1 \<le> len \<and> len \<le> 10 \<and> unat (magnitude n) < 2 ^ (7 * len - 1) \<and>
     (1 < len \<longrightarrow> 2 ^ (7 * len - 8) \<le> unat (magnitude n)) \<and>
     (magnitude n \<noteq> 0 \<longrightarrow> SignedEncodingLengthPositive (magnitude n) = Inr len)"
proof (cases "magnitude n = 0")
  case True
  then show ?thesis
    by (simp add: SignedEncodingLength_def magnitude_def[symmetric] Log2Floor64_Portable_def Log2Floor_Portable_def
      kBitsToLength_def)
next
  case False
  then obtain l where l: "Log2Floor64_Portable (magnitude n) = Inr (int l)" "2 ^ l \<le> unat (magnitude n)"
    "unat (magnitude n) < 2 ^ Suc l"
    using Log2Floor64_Portable_correct by blast
  have "(2::nat) ^ l < 2 ^ 63" using l(2) magnitude_less[of n] by simp
  then have l63: "l < 63" using power_strict_increasing_iff[of "2::nat" l 63] by simp
  define len where "len = Suc l div 7 + 1"
  have v: "kBitsToLength ! nat (int l + 1) = len" using kBitsToLength_div[of "Suc l"] l63 by (simp add: len_def nat_add_distrib)
  have "(2::nat) ^ Suc l \<le> 2 ^ (7 * len - 1)" by (rule power_increasing, unfold len_def, presburger, simp)
  then have b: "unat (magnitude n) < 2 ^ (7 * len - 1)" using l(3) by simp
  have "1 < len \<Longrightarrow> (2::nat) ^ (7 * len - 8) \<le> 2 ^ l" by (rule power_increasing, unfold len_def, presburger, simp)
  then have c: "1 < len \<Longrightarrow> 2 ^ (7 * len - 8) \<le> unat (magnitude n)" using l(2) order_trans by blast
  have "1 \<le> len" "len \<le> 10" using l63 by (simp_all add: len_def)
  then show ?thesis using v b c l(1)
    by (intro exI[of _ len]) (simp add: SignedEncodingLength_def SignedEncodingLengthPositive_def Log2FloorNonZero64_eq
      magnitude_def[symmetric])
qed

definition signed_length :: "64 word \<Rightarrow> nat" where
  "signed_length n = projr (SignedEncodingLength n)"

lemma signed_length:
  shows "SignedEncodingLength n = Inr (signed_length n)" "1 \<le> signed_length n" "signed_length n \<le> 10"
    "unat (magnitude n) < 2 ^ (7 * signed_length n - 1)"
    "1 < signed_length n \<Longrightarrow> 2 ^ (7 * signed_length n - 8) \<le> unat (magnitude n)"
    "magnitude n \<noteq> 0 \<Longrightarrow> SignedEncodingLengthPositive (magnitude n) = Inr (signed_length n)"
  using SignedEncodingLength_correct[of n] by (auto simp: signed_length_def)

lemma signed_length_NOT [simp]: "signed_length (NOT n) = signed_length n"
  using magnitude_NOT[of n] by (simp only: signed_length_def SignedEncodingLength_def magnitude_def)

lemma signed_length_cong: "magnitude n = magnitude m \<Longrightarrow> signed_length n = signed_length m"
  by (simp only: signed_length_def SignedEncodingLength_def magnitude_def)

lemma signed_length_mono: "unat (magnitude n) \<le> unat (magnitude m) \<Longrightarrow> signed_length n \<le> signed_length m"
proof (rule ccontr)
  assume h: "unat (magnitude n) \<le> unat (magnitude m)" "\<not> signed_length n \<le> signed_length m"
  have "unat (magnitude m) < 2 ^ (7 * signed_length m - 1)" by (rule signed_length(4))
  also have "\<dots> \<le> 2 ^ (7 * signed_length n - 8)" using h(2) by (intro power_increasing) simp_all
  also have "\<dots> \<le> unat (magnitude n)" using h(2) signed_length(2)[of m] by (intro signed_length(5)) simp
  finally show False using h(1) by simp
qed

text \<open>The header of a code of \<open>len\<close> bytes has its \<open>len\<close> upper bits set.\<close>

definition header :: "nat \<Rightarrow> nat" where
  "header len = 2 ^ (7 * len) * (2 ^ len - 1)"

definition positive_code :: "64 word \<Rightarrow> bytes" where
  "positive_code n = be (signed_length n) (header (signed_length n) + unat n)"

definition signed_code :: "64 word \<Rightarrow> bytes" where
  "signed_code n = (if sint n < 0 then map NOT (positive_code (NOT n)) else positive_code n)"

lemma header_sum: "header len + 2 ^ (7 * len) = 256 ^ len"
proof -
  have "header len + 2 ^ (7 * len) = 2 ^ (7 * len) * (2 ^ len - 1 + 1)" unfolding header_def by (simp only: distrib_left mult_1_right)
  also have "\<dots> = 2 ^ (7 * len) * 2 ^ len" by simp
  also have "\<dots> = (2 ^ 7 * 2) ^ len" by (simp only: power_mult power_mult_distrib)
  finally show ?thesis by simp
qed

lemma length_cases: "1 \<le> (len :: nat) \<Longrightarrow> len \<le> 10 \<Longrightarrow> len \<in> {1,2,3,4,5,6,7,8,9,10}"
  by simp presburger

lemma disjoint_bits:
  assumes "unat (a :: 'a::len word) < 2 ^ k" "take_bit k h = 0"
  shows "a AND h = 0"
proof -
  have "take_bit k a = a" using assms(1) by (simp add: word_unat_eq_iff unsigned_take_bit_eq take_bit_nat_eq_self)
  then have "a AND h = take_bit k (a AND h)" by (metis and.assoc and.commute take_bit_eq_mask)
  also have "\<dots> = 0" using assms(2) by (simp add: take_bit_and)
  finally show ?thesis .
qed

lemma unat_xor_disjoint:
  assumes "(a :: byte) AND h = 0"
  shows "unat (a XOR h) = unat a + unat h"
proof -
  have "a XOR h = a + h" using assms by (simp add: disjunctive_add_eq_xor)
  moreover have "unat a AND unat h = 0" using arg_cong[OF assms, of unat] by (simp add: unsigned_and_eq)
  then have "unat a + unat h = unat a XOR unat h" by (simp add: disjunctive_add_eq_xor)
  moreover have "unat (a XOR h) = unat a XOR unat h" by (simp add: unsigned_xor_eq)
  ultimately show ?thesis by simp
qed

lemma header_bytes:
  assumes "2 \<le> len" "len \<le> 10" "x < 2 ^ (7 * len - 1)" "x < 2 ^ 63"
  shows "word_of_nat (x div 256 ^ (len - 1)) AND fst (kLengthToHeaderBits ! len) = 0"
    "word_of_nat (x div 256 ^ (len - 2)) AND snd (kLengthToHeaderBits ! len) = 0"
    "unat (fst (kLengthToHeaderBits ! len)) * 256 ^ (len - 1) + unat (snd (kLengthToHeaderBits ! len)) * 256 ^ (len - 2) = header len"
proof -
  have l: "len \<in> {2,3,4,5,6,7,8,9,10}" using assms by auto
  have d: "unat (word_of_nat (x div m) :: byte) < 2 ^ k" if "x < 2 ^ k * m" for m k
    using that by (simp add: unat_byte less_mult_imp_div_less order_le_less_trans[OF mod_less_eq_dividend])
  show "word_of_nat (x div 256 ^ (len - 1)) AND fst (kLengthToHeaderBits ! len) = 0"
    using l assms(3,4) by (elim insertE emptyE) (rule disjoint_bits[OF d[where k = "8 - min 8 len"]]; simp add: kLengthToHeaderBits_def)+
  show "word_of_nat (x div 256 ^ (len - 2)) AND snd (kLengthToHeaderBits ! len) = 0"
  proof (cases "len \<le> 8")
    case True
    then have "snd (kLengthToHeaderBits ! len) = 0" using l by (elim insertE emptyE) (simp_all add: kLengthToHeaderBits_def)
    then show ?thesis by simp
  next
    case False
    then have "len \<in> {9, 10}" using assms(2) by auto
    then show ?thesis using assms(3,4)
      by (elim insertE emptyE) (rule disjoint_bits[OF d[where k = "if len = 10 then 0 else 7"]]; simp add: kLengthToHeaderBits_def)+
  qed
  show "unat (fst (kLengthToHeaderBits ! len)) * 256 ^ (len - 1) + unat (snd (kLengthToHeaderBits ! len)) * 256 ^ (len - 2) = header len"
    using l by (elim insertE emptyE) (simp_all add: kLengthToHeaderBits_def header_def)
qed

definition put_header :: "nat \<Rightarrow> bytes \<Rightarrow> bytes" where
  "put_header len b =
     (let b0 = b[0 := b ! 0 XOR fst (kLengthToHeaderBits ! len)] in b0[1 := b0 ! 1 XOR snd (kLengthToHeaderBits ! len)])"

lemma put_header_positive:
  assumes "2 \<le> len" "len \<le> 10" "x < 2 ^ (7 * len - 1)" "x < 2 ^ 63"
  shows "put_header len (be len x) = be len (header len + x)"
proof (rule be_val_inj)
  obtain k where k: "len = Suc (Suc k)" using assms(1) by (metis Suc_le_D numeral_2_eq_2 Suc_le_mono)
  let ?h = "kLengthToHeaderBits ! len"
  note hb = header_bytes[OF assms]
  have "put_header len (be len x) =
      (word_of_nat (x div 256 ^ (len - 1)) XOR fst ?h) # (word_of_nat (x div 256 ^ (len - 2)) XOR snd ?h) # be k x"
    by (simp add: put_header_def k)
  then have "be_val (put_header len (be len x)) = be_val (be len x) + header len"
    using hb(3) unat_xor_disjoint[OF hb(1)] unat_xor_disjoint[OF hb(2)] by (simp add: k algebra_simps del: be_val_be)
  moreover have p: "(2::nat) ^ (7 * len - 1) \<le> 2 ^ (7 * len)" by (rule power_increasing) simp_all
  then have "header len + x < 256 ^ len" using assms(3) header_sum[of len] by linarith
  ultimately show "be_val (put_header len (be len x)) = be_val (be len (header len + x))" by simp
qed (simp add: put_header_def)

lemma put_header_NOT:
  assumes "2 \<le> length b"
  shows "put_header len (map NOT b) = map NOT (put_header len b)"
proof -
  have "0 < length b" "1 < length b" using assms by linarith+
  then show ?thesis by (simp add: put_header_def map_update bit.xor_compl_left)
qed

lemma sign_extended:
  "[if sint n < 0 then 255 else 0, if sint n < 0 then 255 else 0] @ be 8 (unat n) =
    (if sint n < 0 then map NOT (be 10 (unat (magnitude n))) else be 10 (unat (magnitude n)))"
proof -
  have lt: "unat n < 256 ^ 8" for n :: "64 word" using unat_less[of n] by simp
  have ten: "be 10 (unat m) = 0 # 0 # be 8 (unat m)" for m :: "64 word"
    using lt[of m] be.simps(2)[of "Suc 8" "unat m"] be.simps(2)[of 8 "unat m"] by simp
  have "be 8 (unat (NOT m)) = map NOT (be 8 (unat m))" for m :: "64 word"
    using be_NOT[of 8 8 "unat m"] lt[of m] by (simp add: unat_NOT_64 del: be.simps)
  then show ?thesis using ten[of n] ten[of "NOT n"] by (simp add: magnitude_def comp_def del: be.simps)
qed

lemma signed_code_magnitude:
  "signed_code n = (if sint n < 0 then map NOT (positive_code (magnitude n)) else positive_code (magnitude n))"
  by (simp add: signed_code_def magnitude_def)

lemma magnitude_idem [simp]: "magnitude (magnitude n) = magnitude n"
  using magnitude_less[of n] by (simp add: magnitude_def[of "magnitude n"] sint_negative)

lemma signed_length_magnitude [simp]: "signed_length (magnitude n) = signed_length n"
  by (rule signed_length_cong) simp

lemma WriteSignedNumIncreasing_code: "WriteSignedNumIncreasing dest n = Inr (dest @ signed_code n)"
proof (cases "magnitude n < 64")
  case True
  then have x: "unat (magnitude n) < 64" by (simp add: word_less_nat_alt)
  have "signed_length n = 1"
  proof (rule ccontr)
    assume "signed_length n \<noteq> 1"
    then have l: "1 < signed_length n" using signed_length(2)[of n] by simp
    have "(2::nat) ^ 6 \<le> 2 ^ (7 * signed_length n - 8)" using l by (intro power_increasing) simp_all
    then show False using signed_length(5)[OF l] x by simp
  qed
  then have c: "positive_code (magnitude n) = [word_of_nat (128 + unat (magnitude n))]"
    by (simp add: positive_code_def header_def)
  have "(128 :: byte) XOR ucast (magnitude n) = word_of_nat (128 + unat (magnitude n))"
  proof -
    have u: "unat (ucast (magnitude n) :: byte) = unat (magnitude n)" using x by (simp add: unsigned_ucast_eq take_bit_nat_eq_self)
    have "(ucast (magnitude n) :: byte) AND 128 = 0" using u x by (intro disjoint_bits[of _ 7]) simp_all
    then have "unat ((ucast (magnitude n) :: byte) XOR 128) = unat (magnitude n) + 128"
      using u by (simp add: unat_xor_disjoint)
    moreover have "unat (word_of_nat (128 + unat (magnitude n)) :: byte) = 128 + unat (magnitude n)"
      unfolding unat_byte using x by simp
    ultimately show ?thesis unfolding word_unat_eq_iff by (simp only: xor.commute add.commute)
  qed
  moreover have cast: "ucast (NOT m) = (NOT (ucast m) :: byte)" for m :: "64 word" by (rule bit_eqI) (simp add: bit_simps)
  have "sint n < 0 \<Longrightarrow> (128 :: byte) XOR ucast n = NOT (128 XOR ucast (magnitude n))"
    unfolding magnitude_def by (simp only: if_True cast bit.xor_compl_right bit.double_compl)
  moreover have "\<not> sint n < 0 \<Longrightarrow> magnitude n = n" by (simp add: magnitude_def)
  ultimately have "[(128 :: byte) XOR ucast n] = signed_code n" unfolding signed_code_magnitude c by auto
  then show ?thesis using True
    by (simp add: WriteSignedNumIncreasing_def kLengthToHeaderBits_def magnitude_def[symmetric] Let_def)
next
  case False
  let ?l = "signed_length n"
  have l2: "2 \<le> ?l"
  proof (rule ccontr)
    assume "\<not> 2 \<le> ?l"
    then have "?l = 1" using signed_length(2)[of n] by simp
    then show False using signed_length(4)[of n] False by (simp add: word_less_nat_alt)
  qed
  have ne: "magnitude n \<noteq> 0" using False by auto
  have "drop (10 - ?l) (be 10 (unat (magnitude n))) = be ?l (unat (magnitude n))"
    using drop_be[of "10 - ?l" ?l "unat (magnitude n)"] signed_length(3)[of n] by simp
  moreover have "put_header ?l (be ?l (unat (magnitude n))) = positive_code (magnitude n)"
    using put_header_positive[OF l2 signed_length(3) signed_length(4) magnitude_less] by (simp add: positive_code_def)
  ultimately have "put_header ?l (drop (10 - ?l) ([if sint n < 0 then 255 else 0, if sint n < 0 then 255 else 0] @ be 8 (unat n))) = signed_code n"
    unfolding sign_extended using l2 put_header_NOT[of "be ?l (unat (magnitude n))" ?l]
    by (simp add: signed_code_magnitude drop_map)
  then show ?thesis using False l2 signed_length(6)[OF ne]
    by (simp add: WriteSignedNumIncreasing_def magnitude_def[symmetric] put_header_def Let_def del: be.simps)
qed

lemma nth_be: "i < n \<Longrightarrow> unat (be n x ! i) = x div 256 ^ (n - 1 - i) mod 256"
proof (induction n arbitrary: i)
  case (Suc n)
  then show ?case by (cases i) (simp_all add: unat_byte)
qed simp

lemma digit_between:
  fixes d k l u v :: nat
  assumes "d * 256 ^ k * 256 + l * 256 ^ k \<le> v" "v < d * 256 ^ k * 256 + u * 256 ^ k" "u \<le> (256::nat)"
  shows "l \<le> v div 256 ^ k mod 256" "v div 256 ^ k mod 256 < u"
proof -
  let ?q = "v div 256 ^ k"
  have "d * 256 + l \<le> ?q" using assms(1) by (subst less_eq_div_iff_mult_less_eq) (simp_all add: algebra_simps)
  moreover have "?q < d * 256 + u" using assms(2) by (subst div_less_iff_less_mult) (simp_all add: algebra_simps)
  moreover define j where "j = ?q - d * 256"
  ultimately have "?q = d * 256 + j" "l \<le> j" "j < u" by linarith+
  then show "l \<le> ?q mod 256" "?q mod 256 < u" using assms(3) by simp_all
qed

lemma first_bytes:
  assumes "1 \<le> len" "len \<le> 10" "x < 2 ^ (7 * len - 1)" "x < 2 ^ 63"
  defines "c \<equiv> be len (header len + x)"
  shows "len \<le> 7 \<Longrightarrow> unat (c ! 0) < 256 - 2 ^ (7 - len)" "len \<le> 7 \<Longrightarrow> 256 - 2 ^ (8 - len) \<le> unat (c ! 0)"
    "8 \<le> len \<Longrightarrow> unat (c ! 0) = 255" "len = 8 \<Longrightarrow> unat (c ! 1) < 128"
    "len = 9 \<Longrightarrow> 128 \<le> unat (c ! 1)" "len = 9 \<Longrightarrow> unat (c ! 1) < 192"
    "len = 10 \<Longrightarrow> unat (c ! 1) = 192" "len = 10 \<Longrightarrow> unat (c ! 2) < 128"
proof -
  note m = digit_between[where v = "header len + x"]
  have e: "i < len \<Longrightarrow> unat (c ! i) = (header len + x) div 256 ^ (len - 1 - i) mod 256" for i
    unfolding c_def by (rule nth_be)
  have small: "len \<le> 7 \<Longrightarrow> 256 - 2 ^ (8 - len) \<le> unat (c ! 0) \<and> unat (c ! 0) < 256 - 2 ^ (7 - len)"
  proof -
    assume "len \<le> 7"
    then have "len \<in> {1,2,3,4,5,6,7}" using assms(1) by auto
    then show ?thesis using e[of 0] m[of 0 "len - 1" "256 - 2 ^ (8 - len)" "256 - 2 ^ (7 - len)"] assms(3)
      by (elim insertE emptyE) (simp_all add: header_def)
  qed
  then show "len \<le> 7 \<Longrightarrow> unat (c ! 0) < 256 - 2 ^ (7 - len)" "len \<le> 7 \<Longrightarrow> 256 - 2 ^ (8 - len) \<le> unat (c ! 0)" by simp_all
  show "8 \<le> len \<Longrightarrow> unat (c ! 0) = 255"
  proof -
    assume "8 \<le> len"
    then have "len \<in> {8,9,10}" using assms(2) by auto
    then show ?thesis using e[of 0] m[of 0 "len - 1" 255 256] assms(3,4) by (elim insertE emptyE) (simp_all add: header_def)
  qed
  show "len = 8 \<Longrightarrow> unat (c ! 1) < 128" using e[of 1] m[of 255 6 0 128] assms(3) by (simp add: header_def)
  show "len = 9 \<Longrightarrow> 128 \<le> unat (c ! 1)" "len = 9 \<Longrightarrow> unat (c ! 1) < 192"
    using e[of 1] m[of 255 7 128 192] assms(3) by (simp_all add: header_def)
  show "len = 10 \<Longrightarrow> unat (c ! 1) = 192" using e[of 1] m[of 255 8 192 193] assms(4) by (simp add: header_def)
  show "len = 10 \<Longrightarrow> unat (c ! 2) < 128" using e[of 2] m[of 65472 7 0 128] assms(4) by (simp add: header_def)
qed

lemma log_unique:
  assumes "2 ^ a \<le> (u :: nat)" "u < 2 ^ Suc a" "2 ^ b \<le> u" "u < 2 ^ Suc b"
  shows "a = b"
proof -
  have "(2::nat) ^ a < 2 ^ Suc b" "(2::nat) ^ b < 2 ^ Suc a" using assms by linarith+
  then have "a < Suc b" "b < Suc a" using power_less_imp_less_exp[of "2::nat"] by (metis one_less_numeral_iff semiring_norm(76))+
  then show ?thesis by simp
qed

lemma xor_255: "(b :: byte) XOR 255 = NOT b"
proof -
  have "(255 :: byte) = - 1" by simp
  then show ?thesis by (simp only: bit.xor_one_right)
qed

lemma length_of_first:
  assumes "len \<le> 7" "unat (b :: byte) < 256 - 2 ^ (7 - len)" "256 - 2 ^ (8 - len) \<le> unat b"
  shows "b \<noteq> 255" "Log2FloorNonZero_Portable (ucast (b XOR 255)) = Inr (int (7 - len))"
proof -
  have "(1::nat) \<le> 2 ^ (7 - len)" by simp
  then have "unat b < 255" using assms(2) by linarith
  then show "b \<noteq> 255" by auto
  have u: "unat (ucast (NOT b) :: 32 word) = 255 - unat b"
    using byte_less[of b] by (simp add: unsigned_ucast_eq unat_NOT take_bit_nat_eq_self)
  have s: "8 - len = Suc (7 - len)" using assms(1) by simp
  have r: "2 ^ (7 - len) \<le> 255 - unat b" "255 - unat b < 2 ^ Suc (7 - len)" using assms unfolding s by linarith+
  then have "(ucast (NOT b) :: 32 word) \<noteq> 0" using u by (metis less_one not_le unsigned_0 zero_less_numeral zero_less_power)
  then obtain l where "Log2Floor_Portable (ucast (NOT b)) = Inr (int l)" "2 ^ l \<le> 255 - unat b" "255 - unat b < 2 ^ Suc l"
    using Log2Floor_Portable_correct u by metis
  then show "Log2FloorNonZero_Portable (ucast (b XOR 255)) = Inr (int (7 - len))"
    using log_unique[OF r, of l] by (simp add: xor_255 Log2FloorNonZero_Portable_def)
qed

definition flip :: "bool \<Rightarrow> 'a::len word \<Rightarrow> 'a word" where
  "flip neg w = (if neg then NOT w else w)"

lemma fold_NOT:
  "fold (\<lambda>b x. push_bit 8 x OR ucast b) (map NOT (bs :: bytes)) (NOT t) = NOT (fold (\<lambda>b x. push_bit 8 x OR ucast b) bs t :: 64 word)"
proof -
  have "be_val bs + 1 \<le> 256 ^ length bs" using be_val_less[of bs] by simp
  then show ?thesis by (simp add: fold_shift be_val_NOT not_eq_complement of_nat_diff algebra_simps)
qed

lemma fold_flip:
  "fold (\<lambda>b x. push_bit 8 x OR ucast b) (map (flip neg) bs) (flip neg 0) = (flip neg (word_of_nat (be_val bs)) :: 64 word)"
  using fold_NOT[of bs 0] by (cases neg) (simp_all add: flip_def[abs_def] fold_shift)

lemma fold_flip_8:
  assumes "length bs = 8"
  shows "fold (\<lambda>b x. push_bit 8 x OR ucast b) (map (flip neg) bs) 0 = (flip neg (word_of_nat (be_val bs)) :: 64 word)"
proof -
  have "fold (\<lambda>b x. push_bit 8 x OR ucast b) (map (flip neg) bs) t = fold (\<lambda>b x. push_bit 8 x OR ucast b) (map (flip neg) bs) (0 :: 64 word)" for t
  proof -
    have "(256 :: 64 word) ^ length (map (flip neg) bs) = 0" using assms by simp
    then show ?thesis unfolding fold_shift by (simp only: mult_zero_right)
  qed
  then show ?thesis using fold_flip[of neg bs] by metis
qed

lemma word_of_nat_mod: "(word_of_nat (v mod 256 ^ 8) :: 64 word) = word_of_nat v"
  by (simp add: word_unat_eq_iff unat_of_nat)

lemma mask_header: "1 \<le> len \<Longrightarrow> len \<le> 10 \<Longrightarrow> kLengthToMask ! len = word_of_nat (header len)"
  by (drule (1) length_cases, elim insertE emptyE) (simp_all add: kLengthToMask_def header_def)

lemma unmask:
  assumes "1 \<le> len" "len \<le> 10" "unat m < 2 ^ (7 * len - 1)"
  shows "word_of_nat (header len + unat m) XOR kLengthToMask ! len = m"
proof -
  have "take_bit (7 * len - 1) (word_of_nat (header len) :: 64 word) = 0"
    using length_cases[OF assms(1,2)] by (elim insertE emptyE) (simp_all add: header_def)
  then have "m AND word_of_nat (header len) = 0" by (rule disjoint_bits[OF assms(3)])
  then have "m XOR word_of_nat (header len) = m + word_of_nat (header len)" by (simp add: disjunctive_add_eq_xor)
  then have "word_of_nat (header len + unat m) = m XOR word_of_nat (header len)" by (simp add: add.commute)
  then show ?thesis by (simp only: mask_header[OF assms(1,2)] xor.assoc xor_self_eq xor.right_neutral)
qed

lemma finish_signed_flip:
  assumes "len = signed_length n" "n = magnitude n" "word_of_nat v = (word_of_nat (header len + unat n) :: 64 word)"
    "drop len src = r"
  shows "finish_signed src len (flip neg (word_of_nat v)) = Inr (Some (flip neg n, r))"
proof -
  have "unat n < 2 ^ (7 * len - 1)" using signed_length(4)[of n] assms(1,2) by simp
  then have "word_of_nat v XOR kLengthToMask ! len = n"
    using unmask[of len n] signed_length(2,3)[of n] assms(1,3) by simp
  then have "flip neg (word_of_nat v) XOR kLengthToMask ! len = flip neg n" by (simp add: flip_def bit.xor_compl_left)
  moreover have "SignedEncodingLength (flip neg n) = Inr len"
    using signed_length(1)[of "flip neg n"] assms(1) by (simp add: flip_def)
  ultimately show ?thesis using assms(4) by (simp add: finish_signed_def)
qed

lemma top_bit: "(b :: byte) AND 128 = 0 \<longleftrightarrow> unat b < 128"
proof -
  have "(128 :: byte) = 2 ^ 7" by simp
  then have "b AND 128 = 0 \<longleftrightarrow> \<not> bit b 7" by (simp only: and_exp_eq_0_iff_not_bit)
  also have "\<dots> \<longleftrightarrow> \<not> bit (unat b) 7" by (simp add: bit_unsigned_iff)
  also have "\<dots> \<longleftrightarrow> even (unat b div 2 ^ 7)" by (simp only: bit_iff_odd not_not)
  also have "\<dots> \<longleftrightarrow> unat b div 128 = 0" using byte_less[of b] by (auto simp: less_mult_imp_div_less)
  finally show ?thesis by (simp add: div_eq_0_iff)
qed

lemma positive_bounds:
  assumes "magnitude n = n"
  shows "1 \<le> signed_length n" "signed_length n \<le> 10" "unat n < 2 ^ (7 * signed_length n - 1)" "unat n < 2 ^ 63"
  using signed_length(2,3,4)[of n] magnitude_less[of n] assms by simp_all

lemma positive_code_value:
  assumes "magnitude n = n"
  shows "be_val (positive_code n) = header (signed_length n) + unat n"
proof -
  let ?l = "signed_length n"
  have "(2::nat) ^ (7 * ?l - 1) \<le> 2 ^ (7 * ?l)" by (rule power_increasing) simp_all
  then have "header ?l + unat n < 256 ^ ?l" using positive_bounds(3)[OF assms] header_sum[of ?l] by linarith
  then show ?thesis by (simp add: positive_code_def)
qed

lemma positive_code_top:
  assumes "magnitude n = n"
  shows "128 \<le> unat (positive_code n ! 0)"
proof (cases "signed_length n \<le> 7")
  case True
  have "(2::nat) ^ (8 - signed_length n) \<le> 2 ^ 7" using positive_bounds(1)[OF assms] by (intro power_increasing) simp_all
  then show ?thesis using first_bytes(2)[OF positive_bounds[OF assms] True] by (simp add: positive_code_def)
next
  case False
  then show ?thesis using first_bytes(3)[OF positive_bounds[OF assms]] by (simp add: positive_code_def)
qed

lemma ReadSignedNumIncreasing_flip:
  assumes n: "magnitude n = n"
  shows "ReadSignedNumIncreasing (map (flip neg) (positive_code n) @ r) = Inr (Some (flip neg n, r))"
proof -
  define len where "len = signed_length n"
  define c where "c = positive_code n"
  define src where "src = map (flip neg) c @ r"
  have c: "c = be len (header len + unat n)" by (simp add: c_def len_def positive_code_def)
  have len: "1 \<le> len" "len \<le> 10" "unat n < 2 ^ (7 * len - 1)" "unat n < 2 ^ 63"
    using positive_bounds[OF n] by (simp_all add: len_def)
  note fb = first_bytes[OF len, folded c]
  have lc: "length c = len" by (simp add: c)
  have nth: "i < len \<Longrightarrow> src ! i = flip neg (c ! i)" for i by (simp add: src_def nth_append lc)
  have top: "128 \<le> unat (c ! 0)" and full: "be_val c = header len + unat n"
    using positive_code_top[OF n] positive_code_value[OF n] by (simp_all add: c_def len_def)
  have ne: "src \<noteq> []" and dr: "drop len src = r" and tk: "take len src = map (flip neg) c" and ls: "len \<le> length src"
    using len(1) lc by (auto simp: src_def)
  have mask: "(if src ! 0 AND 0x80 = 0 then NOT 0 else 0) = (flip neg 0 :: 64 word)"
    using top byte_less[of "c ! 0"] nth[of 0] len(1) by (auto simp: flip_def top_bit unat_NOT)
  have unflip: "flip neg b XOR ucast (flip neg (0 :: 64 word) AND 0xff) = b" for b :: byte
    by (cases neg) (simp_all add: flip_def xor_255)
  have first: "src ! 0 XOR ucast (flip neg (0 :: 64 word) AND 0xff) = c ! 0" using nth[of 0] len(1) unflip by simp
  have fin: "finish_signed src len (flip neg (word_of_nat v)) = Inr (Some (flip neg n, r))"
    if "word_of_nat v = (word_of_nat (header len + unat n) :: 64 word)" for v
    using finish_signed_flip[OF len_def _ that dr] n by simp
  have tail: "take 8 (drop (len - 8) src) = map (flip neg) (be 8 (header len + unat n))" if "8 \<le> len"
    using that drop_be[of "len - 8" 8 "header len + unat n"] by (simp add: src_def lc drop_map c)
  have "ReadSignedNumIncreasing src = Inr (Some (flip neg n, r))"
  proof (cases "len \<le> 7")
    case True
    note b = length_of_first[OF True fb(1)[OF True] fb(2)[OF True]]
    have "nat (7 - int (7 - len)) = len" using True by simp
    then show ?thesis unfolding ReadSignedNumIncreasing_def mask Let_def first
      using b ne ls fold_flip[of neg c] fin[OF refl] by (simp add: tk full)
  next
    case False
    then have l8: "8 \<le> len" by simp
    have c0: "c ! 0 = 255" using fb(3)[OF l8] by (simp add: word_unat_eq_iff)
    have f8: "finish_signed src len (fold (\<lambda>b x. push_bit 8 x OR ucast b) (take 8 (drop (len - 8) src)) 0) = Inr (Some (flip neg n, r))"
      unfolding tail[OF l8] fold_flip_8[OF length_be] be_val_be by (rule fin) (rule word_of_nat_mod)
    have second: "src ! 1 XOR ucast (flip neg (0 :: 64 word) AND 0xff) = c ! 1"
      and third: "9 \<le> len \<Longrightarrow> src ! 2 XOR ucast (flip neg (0 :: 64 word) AND 0xff) = c ! 2"
      using nth[of 1] nth[of 2] l8 unflip by simp_all
    have w: "len = 8 \<Longrightarrow> \<not> 0x80 \<le> c ! 1" "len = 9 \<Longrightarrow> 0x80 \<le> c ! 1" "len = 9 \<Longrightarrow> c ! 1 < 0xc0" "len = 10 \<Longrightarrow> c ! 1 = 0xc0"
      "len = 10 \<Longrightarrow> c ! 2 < 0x80"
      using fb(4-8) by (simp_all add: word_le_nat_alt word_less_nat_alt word_unat_eq_iff)
    consider "len = 8" | "len = 9" | "len = 10" using l8 len(2) by linarith
    then show ?thesis unfolding ReadSignedNumIncreasing_def mask Let_def first second c0
      by cases (use w ls f8 third ne in simp_all)
  qed
  then show ?thesis by (simp add: src_def c_def)
qed

lemma signed_code_flip: "signed_code n = map (flip (sint n < 0)) (positive_code (magnitude n))"
  by (simp add: signed_code_magnitude flip_def[abs_def])

lemma flip_magnitude: "flip (sint n < 0) (magnitude n) = n"
  by (simp add: flip_def magnitude_def)

lemma ReadSignedNumIncreasing_code: "ReadSignedNumIncreasing (signed_code n @ r) = Inr (Some (n, r))"
  unfolding signed_code_flip by (simp add: ReadSignedNumIncreasing_flip flip_magnitude)

lemma positive_code_before:
  assumes "magnitude n = n" "magnitude m = m" "unat n < unat m"
  shows "before (positive_code n) (positive_code m)"
proof (cases "signed_length n = signed_length m")
  case True
  then show ?thesis using assms by (subst before_same_length) (simp_all add: positive_code_value, simp add: positive_code_def)
next
  case False
  let ?l = "signed_length n" and ?k = "signed_length m"
  have lk: "?l < ?k" using False signed_length_mono[of n m] assms by simp
  have l: "length (positive_code n) = ?l" "length (positive_code m) = ?k" by (simp_all add: positive_code_def)
  have half: "2 ^ (7 * ?l) = 2 * (2::nat) ^ (7 * ?l - 1)"
    using power_Suc[of "2::nat" "7 * ?l - 1"] signed_length(2)[of n] by simp
  have "unat n + 1 \<le> 2 ^ (7 * ?l - 1)" using positive_bounds(3)[OF assms(1)] by simp
  then have a: "be_val (positive_code n) + 1 + 2 ^ (7 * ?l - 1) \<le> 256 ^ ?l"
    using half header_sum[of ?l] positive_code_value[OF assms(1)] by linarith
  have b: "256 ^ ?k \<le> be_val (positive_code m) + 2 ^ (7 * ?k)"
    using header_sum[of ?k] positive_code_value[OF assms(2)] by linarith
  have p: "(256::nat) ^ j = 2 ^ (8 * j)" for j by (simp add: power_mult)
  have "(2::nat) ^ (7 * ?k) * 256 ^ ?l \<le> 2 ^ (7 * ?l - 1) * 256 ^ ?k"
    unfolding p power_add[symmetric] using lk signed_length(2)[of n] by (intro power_increasing) simp_all
  moreover have "(be_val (positive_code n) + 1) * 256 ^ ?k + 2 ^ (7 * ?l - 1) * 256 ^ ?k \<le> 256 ^ ?l * 256 ^ ?k"
    using mult_le_mono1[OF a, of "256 ^ ?k"] by (simp add: algebra_simps)
  moreover have "256 ^ ?l * 256 ^ ?k \<le> be_val (positive_code m) * 256 ^ ?l + 2 ^ (7 * ?k) * 256 ^ ?l"
    using mult_le_mono1[OF b, of "256 ^ ?l"] by (simp add: algebra_simps)
  ultimately show ?thesis unfolding before_def l by linarith
qed

lemma sint_magnitude: "sint n = (if sint n < 0 then - int (unat (magnitude n)) - 1 else int (unat (magnitude n)))"
proof -
  obtain u where u: "unat n = u" by blast
  have "u < 2 ^ 64" using unat_less[of n] u by simp
  then show ?thesis unfolding magnitude_def sint_negative
    using sint_unat[OF u] by (cases "u < 2 ^ 63") (simp_all add: u unat_NOT_64 of_nat_diff del: of_nat_unat)
qed

lemma signed_code_before:
  assumes "sint n < sint m"
  shows "before (signed_code n) (signed_code m)"
proof -
  consider "sint n < 0" "0 \<le> sint m" | "sint n < 0" "sint m < 0" | "0 \<le> sint n" "0 \<le> sint m"
    using assms by linarith
  then show ?thesis
  proof cases
    case 1
    have ne: "positive_code (magnitude k) \<noteq> []" for k
      using positive_bounds(1)[of "magnitude k"] by (simp add: positive_code_def neq_Nil_conv[symmetric] length_greater_0_conv[symmetric] del: length_greater_0_conv)
    obtain x a where a: "positive_code (magnitude n) = x # a" using ne by (meson neq_Nil_conv)
    obtain y b where b: "positive_code (magnitude m) = y # b" using ne by (meson neq_Nil_conv)
    have "128 \<le> unat x" "128 \<le> unat y"
      using positive_code_top[of "magnitude n"] positive_code_top[of "magnitude m"] a b by simp_all
    then have "unat (NOT x) < unat y" by (simp add: unat_NOT)
    then show ?thesis using 1 by (simp add: signed_code_magnitude a b before_head)
  next
    case 2
    have "unat (magnitude m) < unat (magnitude n)"
      using assms 2 sint_magnitude[of n] sint_magnitude[of m] by (simp del: of_nat_unat)
    then show ?thesis using 2 positive_code_before[of "magnitude m" "magnitude n"]
      by (simp add: signed_code_magnitude before_NOT)
  next
    case 3
    have "unat (magnitude n) < unat (magnitude m)"
      using assms 3 sint_magnitude[of n] sint_magnitude[of m] by (simp del: of_nat_unat)
    then show ?thesis using 3 positive_code_before[of "magnitude n" "magnitude m"]
      by (simp add: signed_code_magnitude)
  qed
qed

section \<open>Doubles: round trip and order\<close>

definition signed_double_code :: "double \<Rightarrow> int" where
  "signed_double_code d = (if double_negative d then - int (double_code d) else int (double_code d))"

lemma unat_double: "unat d = double_code d + (if double_negative d then 2 ^ 63 else 0)"
proof -
  have "unat d < 2 ^ 64" using unat_less[of d] by simp
  then have "2 ^ 63 \<le> unat d \<Longrightarrow> unat d mod 2 ^ 63 = unat d - 2 ^ 63" by (subst le_mod_geq) simp_all
  then show ?thesis by (simp add: double_code_def double_negative_def)
qed

lemma double_word: "d = word_of_nat (double_code d) + (if double_negative d then word_of_int (- (2 ^ 63)) else 0)"
proof -
  have m: "(word_of_int (- (2 ^ 63)) :: 64 word) = word_of_nat (2 ^ 63)" by simp
  have "d = word_of_nat (unat d)" by simp
  then show ?thesis unfolding unat_double[of d] m by (cases "double_negative d") simp_all
qed

lemma sint_small: "- (2 ^ 63) \<le> k \<Longrightarrow> k < 2 ^ 63 \<Longrightarrow> sint (word_of_int k :: 64 word) = k"
  by (simp add: signed_take_bit_int_eq_self signed_of_int)

lemma EncodeDoubleAsInt64_value: "EncodeDoubleAsInt64 d = word_of_int (signed_double_code d)"
proof -
  have n: "sint d < 0 \<longleftrightarrow> double_negative d" by (simp only: sint_negative double_negative_def)
  have e: "(word_of_int (- (2 ^ 63)) + word_of_int (- (2 ^ 63)) :: 64 word) = 0" by simp
  show ?thesis
  proof (cases "double_negative d")
    case True
    then have "word_of_int (- (2 ^ 63)) - d = - word_of_nat (double_code d)" using double_word[of d] e by (simp add: algebra_simps)
    then show ?thesis using True n by (simp add: EncodeDoubleAsInt64_def signed_double_code_def)
  next
    case False
    then show ?thesis using n double_word[of d] by (simp add: EncodeDoubleAsInt64_def signed_double_code_def)
  qed
qed

lemma EncodeDoubleAsInt64_sint: "sint (EncodeDoubleAsInt64 d) = signed_double_code d"
  unfolding EncodeDoubleAsInt64_value using double_code_less[of d] by (intro sint_small) (simp_all add: signed_double_code_def)

lemma Decode_Encode:
  "DecodeDoubleFromInt64 (EncodeDoubleAsInt64 d) = (if d = make_double True 0 then make_double False 0 else d)"
proof -
  have z: "d = make_double True 0 \<longleftrightarrow> double_negative d \<and> double_code d = 0"
    using double_eq_codes[of d "make_double True 0"] make_double_code[of 0 True] make_double_negative[of 0 True] by auto
  consider "d = make_double True 0" | "d \<noteq> make_double True 0" "double_negative d" | "\<not> double_negative d" by auto
  then show ?thesis
  proof cases
    case 1
    then have "signed_double_code d = 0" using z by (simp add: signed_double_code_def)
    then show ?thesis using 1 EncodeDoubleAsInt64_sint[of d] EncodeDoubleAsInt64_value[of d]
      by (simp add: DecodeDoubleFromInt64_def make_double_def)
  next
    case 2
    then have "signed_double_code d < 0" using z by (simp add: signed_double_code_def)
    moreover have "word_of_int (- (2 ^ 63)) - EncodeDoubleAsInt64 d = d"
      using 2 double_word[of d] by (simp add: EncodeDoubleAsInt64_value signed_double_code_def algebra_simps)
    ultimately show ?thesis using 2 by (simp add: DecodeDoubleFromInt64_def EncodeDoubleAsInt64_sint)
  next
    case 3
    then have "EncodeDoubleAsInt64 d = d" "0 \<le> signed_double_code d"
      using double_word[of d] by (simp_all add: EncodeDoubleAsInt64_value signed_double_code_def)
    then show ?thesis using 3 z EncodeDoubleAsInt64_sint[of d] by (auto simp: DecodeDoubleFromInt64_def)
  qed
qed

lemma code_magnitude_Suc: "code_magnitude c < code_magnitude (Suc c)"
proof (cases "c div 2 ^ 52 = 0")
  case True
  then have "c < 2 ^ 52" by (simp add: div_eq_0_iff)
  then show ?thesis using code_magnitude_split[of c 0] code_magnitude_split[of "Suc c" 0] by simp
next
  case False
  define q where "q = 2 ^ 52 + c mod 2 ^ 52"
  define s where "s = c div 2 ^ 52 - 1"
  have "c mod 2 ^ 52 < 2 ^ 52" by simp
  then have q: "2 ^ 52 \<le> q" "Suc q \<le> 2 ^ 53" by (simp_all add: q_def)
  have "c div 2 ^ 52 = Suc s" using False by (simp add: s_def)
  then have c: "c = s * 2 ^ 52 + q" using div_mult_mod_eq[of c "2 ^ 52"] by (simp add: q_def)
  have "code_magnitude c = q * 2 ^ s" "code_magnitude (Suc c) = Suc q * 2 ^ s"
    using code_magnitude_split[of q s] code_magnitude_split[of "Suc q" s] q c by simp_all
  then show ?thesis by simp
qed

lemma code_magnitude_less_iff: "code_magnitude a < code_magnitude b \<longleftrightarrow> a < b"
  by (rule lift_Suc_mono_less_iff) (rule code_magnitude_Suc)

lemma signed_double_code_less_iff: "signed_double_code a < signed_double_code b \<longleftrightarrow> dval a < dval b"
proof -
  have "code_magnitude 0 = 0" by (simp add: code_magnitude_def)
  then have p: "0 < code_magnitude c \<longleftrightarrow> 0 < c" for c using code_magnitude_less_iff[of 0 c] by simp
  note pq = p[of "double_code a"] p[of "double_code b"]
    code_magnitude_less_iff[of "double_code a" "double_code b"] code_magnitude_less_iff[of "double_code b" "double_code a"]
  show ?thesis
    by (cases "double_negative a"; cases "double_negative b") (use pq in \<open>simp_all add: signed_double_code_def dval_def, linarith+\<close>)
qed

section \<open>The number codes as codecs\<close>

lemma DefaultComparator_cases:
  "DefaultComparator x y = Ascending \<longleftrightarrow> x < y" "DefaultComparator x y = Descending \<longleftrightarrow> y < x"
  by (auto simp: DefaultComparator_def)

interpretation num_inc: ordered_codec "\<lambda>n. True" DefaultComparator num_code WriteNumIncreasing ReadNumIncreasing
proof
  show "Compare_bytes (num_code x @ r) (num_code y @ r') =
      (if DefaultComparator x y = Same then Compare_bytes r r' else DefaultComparator x y)" for x y r r'
    by (rule compare_by_before[where code = num_code]) (simp_all add: num_code_before DefaultComparator_cases)
qed (simp_all add: WriteNumIncreasing_code ReadNumIncreasing_code)

interpretation num_dec: ordered_codec "\<lambda>n. True" "\<lambda>x y. ReverseOrder (DefaultComparator x y)" "\<lambda>n. map NOT (num_code n)"
  WriteNumDecreasing ReadNumDecreasing
proof
  show "Compare_bytes (map NOT (num_code x) @ r) (map NOT (num_code y) @ r') =
      (if ReverseOrder (DefaultComparator x y) = Same then Compare_bytes r r' else ReverseOrder (DefaultComparator x y))" for x y r r'
    by (rule compare_by_before[where code = "\<lambda>n. map NOT (num_code n)"])
      (simp_all add: before_NOT num_code_before DefaultComparator_cases)
qed (simp_all add: WriteNumDecreasing_code ReadNumDecreasing_code)

lemma Compare_int64_cases [simp]:
  "Compare_int64 x y = Same \<longleftrightarrow> x = y" "Compare_int64 x y = Ascending \<longleftrightarrow> sint x < sint y"
  "Compare_int64 x y = Descending \<longleftrightarrow> sint y < sint x"
  by (simp_all add: Compare_int64_def DefaultComparator_cases) (auto intro: signed_word_eqI)

interpretation signed_inc: ordered_codec "\<lambda>n. True" Compare_int64 signed_code WriteSignedNumIncreasing ReadSignedNumIncreasing
proof
  show "Compare_bytes (signed_code x @ r) (signed_code y @ r') =
      (if Compare_int64 x y = Same then Compare_bytes r r' else Compare_int64 x y)" for x y r r'
    by (rule compare_by_before[where code = signed_code]) (simp_all add: signed_code_before)
qed (simp_all add: WriteSignedNumIncreasing_code ReadSignedNumIncreasing_code)

lemma sint_NOT: "sint (NOT (n :: 64 word)) = - sint n - 1"
  using sint_magnitude[of n] sint_magnitude[of "NOT n"] sint_negative_NOT[of n]
  by (cases "sint n < 0") (simp_all only: magnitude_NOT if_True if_False not_True_eq_False not_False_eq_True)

interpretation signed_dec: ordered_codec "\<lambda>n. True" "\<lambda>x y. ReverseOrder (Compare_int64 x y)" "\<lambda>n. signed_code (NOT n)"
  WriteSignedNumDecreasing ReadSignedNumDecreasing
proof
  show "Compare_bytes (signed_code (NOT x) @ r) (signed_code (NOT y) @ r') =
      (if ReverseOrder (Compare_int64 x y) = Same then Compare_bytes r r' else ReverseOrder (Compare_int64 x y))" for x y r r'
    by (rule compare_by_before[where code = "\<lambda>n. signed_code (NOT n)"]) (simp_all add: signed_code_before sint_NOT)
qed (simp_all add: WriteSignedNumDecreasing_def WriteSignedNumIncreasing_code ReadSignedNumDecreasing_def ReadSignedNumIncreasing_code)

lemma Compare_double_encoded:
  assumes "\<not> is_nan x" "\<not> is_nan y"
  shows "Compare_double x y = Compare_int64 (EncodeDoubleAsInt64 x) (EncodeDoubleAsInt64 y)"
  unfolding Compare_double_values[OF assms] Compare_int64_def EncodeDoubleAsInt64_sint DefaultComparator_def
  by (simp add: signed_double_code_less_iff)

lemma Decode_Encode_same: "Compare_double d (DecodeDoubleFromInt64 (EncodeDoubleAsInt64 d)) = Same"
proof (cases "d = make_double True 0")
  case True
  then have "Compare_double d (make_double False 0) = Same"
    by (simp add: Compare_double_values is_nan_def make_double_code infinity_code_def dval_def code_magnitude_def)
  then show ?thesis using True by (simp add: Decode_Encode)
qed (simp add: Decode_Encode)

interpretation double_inc: ordered_codec "\<lambda>d. \<not> is_nan d" Compare_double "\<lambda>d. signed_code (EncodeDoubleAsInt64 d)"
  WriteDoubleIncreasing ReadDoubleIncreasing
proof
  show "\<exists>y. Compare_double x y = Same \<and> (\<forall>r. ReadDoubleIncreasing (signed_code (EncodeDoubleAsInt64 x) @ r) = Inr (Some (y, r)))" for x
    using Decode_Encode_same by (auto simp: ReadDoubleIncreasing_def ReadSignedNumIncreasing_code)
  show "Compare_bytes (signed_code (EncodeDoubleAsInt64 x) @ r) (signed_code (EncodeDoubleAsInt64 y) @ r') =
      (if Compare_double x y = Same then Compare_bytes r r' else Compare_double x y)" if "\<not> is_nan x" "\<not> is_nan y" for x y r r'
    unfolding Compare_double_encoded[OF that] by (rule signed_inc.code_order) simp_all
  show "WriteDoubleIncreasing dest x = Inr (dest @ signed_code (EncodeDoubleAsInt64 x))" for dest x
    unfolding WriteDoubleIncreasing_def by (rule WriteSignedNumIncreasing_code)
qed

interpretation double_dec: ordered_codec "\<lambda>d. \<not> is_nan d" "\<lambda>x y. ReverseOrder (Compare_double x y)"
  "\<lambda>d. signed_code (NOT (EncodeDoubleAsInt64 d))" WriteDoubleDecreasing ReadDoubleDecreasing
proof
  show "\<exists>y. ReverseOrder (Compare_double x y) = Same \<and>
      (\<forall>r. ReadDoubleDecreasing (signed_code (NOT (EncodeDoubleAsInt64 x)) @ r) = Inr (Some (y, r)))" for x
    using Decode_Encode_same by (auto simp: ReadDoubleDecreasing_def ReadSignedNumDecreasing_def ReadSignedNumIncreasing_code)
  show "Compare_bytes (signed_code (NOT (EncodeDoubleAsInt64 x)) @ r) (signed_code (NOT (EncodeDoubleAsInt64 y)) @ r') =
      (if ReverseOrder (Compare_double x y) = Same then Compare_bytes r r' else ReverseOrder (Compare_double x y))"
    if "\<not> is_nan x" "\<not> is_nan y" for x y r r'
    unfolding Compare_double_encoded[OF that] by (rule signed_dec.code_order) simp_all
  show "WriteDoubleDecreasing dest x = Inr (dest @ signed_code (NOT (EncodeDoubleAsInt64 x)))" for dest x
    unfolding WriteDoubleDecreasing_def WriteSignedNumDecreasing_def by (rule WriteSignedNumIncreasing_code)
qed

lemma double_reads_back:
  "reads_back WriteDoubleIncreasing ReadDoubleIncreasing d (DecodeDoubleFromInt64 (EncodeDoubleAsInt64 d))"
  "reads_back WriteDoubleDecreasing ReadDoubleDecreasing d (DecodeDoubleFromInt64 (EncodeDoubleAsInt64 d))"
proof -
  have "WriteDoubleIncreasing dest d = Inr (dest @ signed_code (EncodeDoubleAsInt64 d))"
    "WriteDoubleDecreasing dest d = Inr (dest @ signed_code (NOT (EncodeDoubleAsInt64 d)))" for dest
    by (simp_all add: WriteDoubleIncreasing_def WriteDoubleDecreasing_def WriteSignedNumDecreasing_def WriteSignedNumIncreasing_code)
  then show "reads_back WriteDoubleIncreasing ReadDoubleIncreasing d (DecodeDoubleFromInt64 (EncodeDoubleAsInt64 d))"
    "reads_back WriteDoubleDecreasing ReadDoubleDecreasing d (DecodeDoubleFromInt64 (EncodeDoubleAsInt64 d))"
    unfolding reads_back_def
    by (simp_all add: ReadDoubleIncreasing_def ReadDoubleDecreasing_def ReadSignedNumDecreasing_def ReadSignedNumIncreasing_code)
qed

text \<open>
  C34. Every reader of the ordered encoding recovers what its writer appended, whatever was written before and whatever
  follows: strings with any bytes, unsigned and signed 64-bit numbers, increasing and decreasing, without failing an
  assertion. A double reads back bit by bit, NaN included, except that negative zero reads back as zero.
\<close>

theorem OrderedCode_roundtrip:
  "reads_back WriteString ReadString s s \<and> reads_back WriteStringDecreasing ReadStringDecreasing s s \<and>
   reads_back WriteNumIncreasing ReadNumIncreasing u u \<and> reads_back WriteNumDecreasing ReadNumDecreasing u u \<and>
   reads_back WriteSignedNumIncreasing ReadSignedNumIncreasing n n \<and>
   reads_back WriteSignedNumDecreasing ReadSignedNumDecreasing n n \<and>
   (let d' = (if d = make_double True 0 then make_double False 0 else d)
    in reads_back WriteDoubleIncreasing ReadDoubleIncreasing d d' \<and> reads_back WriteDoubleDecreasing ReadDoubleDecreasing d d')"
  unfolding Decode_Encode[symmetric] Let_def
  using string_inc.codec_reads_back[of s] string_dec.codec_reads_back[of s] num_inc.codec_reads_back[of u]
    num_dec.codec_reads_back[of u] signed_inc.codec_reads_back[of n] signed_dec.codec_reads_back[of n] double_reads_back[of d]
  by simp

text \<open>
  C35. Codes compare byte by byte like the values they encode: strings by their bytes, unsigned and signed numbers by
  value, doubles other than NaN like the comparison of field values, reversed for the decreasing codes. Codes of values
  that compare the same are the same, so what follows them decides; otherwise what follows does not matter, which makes
  sequences of codes compare field by field.
\<close>

theorem OrderedCode_order:
  assumes "\<not> is_nan d" "\<not> is_nan e"
  shows "written_in_order WriteString Compare_bytes s t \<and>
    written_in_order WriteStringDecreasing (\<lambda>x y. ReverseOrder (Compare_bytes x y)) s t \<and>
    written_in_order WriteNumIncreasing DefaultComparator u v \<and>
    written_in_order WriteNumDecreasing (\<lambda>x y. ReverseOrder (DefaultComparator x y)) u v \<and>
    written_in_order WriteSignedNumIncreasing Compare_int64 n m \<and>
    written_in_order WriteSignedNumDecreasing (\<lambda>x y. ReverseOrder (Compare_int64 x y)) n m \<and>
    written_in_order WriteDoubleIncreasing Compare_double d e \<and>
    written_in_order WriteDoubleDecreasing (\<lambda>x y. ReverseOrder (Compare_double x y)) d e"
  using assms by (intro conjI string_inc.codec_in_order string_dec.codec_in_order num_inc.codec_in_order
    num_dec.codec_in_order signed_inc.codec_in_order signed_dec.codec_in_order double_inc.codec_in_order
    double_dec.codec_in_order) simp_all

theorem OrderedCode_order_witness:
  "\<not> is_nan (make_double True 5) \<and> \<not> is_nan (make_double False 3) \<and>
   written_in_order WriteDoubleIncreasing Compare_double (make_double True 5) (make_double False 3)"
proof -
  have n: "\<not> is_nan (make_double True 5)" "\<not> is_nan (make_double False 3)"
    by (simp_all add: is_nan_def make_double_code infinity_code_def)
  show ?thesis using OrderedCode_order[OF n] n by simp
qed

end
