(* ===== verification/Query_Filters.thy ===== *)
theory Query_Filters
  imports Mutations
begin

text \<open>
  Query filters: \<^verbatim>\<open>core/filter.h\<close>, \<^verbatim>\<open>core/field_filter.cc\<close> with its subclasses and
  \<^verbatim>\<open>core/composite_filter.cc\<close>.

  The class hierarchy of representations behind a field filter is a field of the record, which also holds the document
  keys that a key filter extracts when it is built. The loops of \<^verbatim>\<open>std::all_of\<close> and \<^verbatim>\<open>std::any_of\<close>
  stop at the first element that decides them, so a failure behind it is not reached.
\<close>

section \<open>Sequencing\<close>

text \<open>A loop that pushes the result of a call for every element.\<close>

fun seq_res :: "('a \<Rightarrow> 'b res) \<Rightarrow> 'a list \<Rightarrow> 'b list res" where
  "seq_res f [] = Inr []"
| "seq_res f (x # xs) = bind_res (f x) (\<lambda>y. bind_res (seq_res f xs) (\<lambda>ys. Inr (y # ys)))"

lemma seq_res_cong [fundef_cong]:
  "xs = ys \<Longrightarrow> (\<And>x. x \<in> set ys \<Longrightarrow> f x = g x) \<Longrightarrow> seq_res f xs = seq_res g ys"
  by (induction xs arbitrary: ys) auto

lemma seq_res_total:
  "(\<And>x. x \<in> set xs \<Longrightarrow> \<exists>y. f x = Inr y \<and> P x y) \<Longrightarrow> \<exists>ys. seq_res f xs = Inr ys \<and> list_all2 P xs ys"
proof (induction xs)
  case (Cons x xs)
  obtain ys where "seq_res f xs = Inr ys" "list_all2 P xs ys" using Cons.IH Cons.prems by auto
  moreover obtain y where "f x = Inr y" "P x y" using Cons.prems[of x] by auto
  ultimately show ?case by auto
qed simp

section \<open>Filters\<close>

datatype Operator = LessThan | LessThanOrEqual | Equal | NotEqual | GreaterThanOrEqual | GreaterThan | ArrayContains | In
  | ArrayContainsAny | NotIn

datatype field_filter_rep = FieldFilter_Rep | ArrayContainsAnyFilter_Rep | ArrayContainsFilter_Rep | InFilter_Rep
  | NotInFilter_Rep | KeyFieldFilter_Rep DocumentKey | KeyFieldInFilter_Rep "DocumentKey list"
  | KeyFieldNotInFilter_Rep "DocumentKey list"

record FieldFilter =
  filter_field :: FieldPath
  filter_op :: Operator
  value_rhs :: Value
  filter_rep :: field_filter_rep

datatype CompositeOperator = And | Or

datatype Filter = IsField FieldFilter | Composite "Filter list" CompositeOperator

datatype FilterType = kFieldFilter | kCompositeFilter | kArrayContainsAnyFilter | kArrayContainsFilter | kInFilter
  | kNotInFilter | kKeyFieldFilter | kKeyFieldInFilter | kKeyFieldNotInFilter

fun rep_type :: "field_filter_rep \<Rightarrow> FilterType" where
  "rep_type FieldFilter_Rep = kFieldFilter"
| "rep_type ArrayContainsAnyFilter_Rep = kArrayContainsAnyFilter"
| "rep_type ArrayContainsFilter_Rep = kArrayContainsFilter"
| "rep_type InFilter_Rep = kInFilter"
| "rep_type NotInFilter_Rep = kNotInFilter"
| "rep_type (KeyFieldFilter_Rep _) = kKeyFieldFilter"
| "rep_type (KeyFieldInFilter_Rep _) = kKeyFieldInFilter"
| "rep_type (KeyFieldNotInFilter_Rep _) = kKeyFieldNotInFilter"

fun Filter_type :: "Filter \<Rightarrow> FilterType" where
  "Filter_type (IsField f) = rep_type (filter_rep f)"
| "Filter_type (Composite _ _) = kCompositeFilter"

fun IsAFieldFilter :: "Filter \<Rightarrow> bool" where
  "IsAFieldFilter (IsField _) \<longleftrightarrow> True"
| "IsAFieldFilter (Composite _ _) \<longleftrightarrow> False"

fun IsACompositeFilter :: "Filter \<Rightarrow> bool" where
  "IsACompositeFilter (IsField _) \<longleftrightarrow> False"
| "IsACompositeFilter (Composite _ _) \<longleftrightarrow> True"

definition IsArrayOperator :: "Operator \<Rightarrow> bool" where
  "IsArrayOperator op \<longleftrightarrow> op = ArrayContains \<or> op = ArrayContainsAny"

definition IsDisjunctiveOperator :: "Operator \<Rightarrow> bool" where
  "IsDisjunctiveOperator op \<longleftrightarrow> op = In \<or> op = ArrayContainsAny \<or> op = NotIn"

subsection \<open>Creation\<close>

definition key_FromName :: "absl_strings \<Rightarrow> string \<Rightarrow> DocumentKey res" where
  "key_FromName a name = (case DocumentKey_FromName a name of Inl e \<Rightarrow> Inl ThrownInvalidArgument | Inr key \<Rightarrow> key)"

fun reference_key :: "absl_strings \<Rightarrow> Value \<Rightarrow> DocumentKey res" where
  "reference_key a (Reference_value name) = key_FromName a name"
| "reference_key a _ = Inl HardAssert"

definition ExtractDocumentKeysFromValue :: "absl_strings \<Rightarrow> Value \<Rightarrow> DocumentKey list res" where
  "ExtractDocumentKeysFromValue a value =
     (if IsArray (Some value) then seq_res (reference_key a) (array_values value) else Inl HardAssert)"

definition FieldFilter_make :: "FieldPath \<Rightarrow> Operator \<Rightarrow> Value \<Rightarrow> field_filter_rep \<Rightarrow> FieldFilter" where
  "FieldFilter_make path op value rep = \<lparr>filter_field = path, filter_op = op, value_rhs = value, filter_rep = rep\<rparr>"

definition KeyFieldInFilter :: "absl_strings \<Rightarrow> FieldPath \<Rightarrow> Value \<Rightarrow> FieldFilter res" where
  "KeyFieldInFilter a path value =
     bind_res (ExtractDocumentKeysFromValue a value) (\<lambda>keys. Inr (FieldFilter_make path In value (KeyFieldInFilter_Rep keys)))"

definition KeyFieldNotInFilter :: "absl_strings \<Rightarrow> FieldPath \<Rightarrow> Value \<Rightarrow> FieldFilter res" where
  "KeyFieldNotInFilter a path value =
     bind_res (ExtractDocumentKeysFromValue a value) (\<lambda>keys. Inr (FieldFilter_make path NotIn value (KeyFieldNotInFilter_Rep keys)))"

definition KeyFieldFilter :: "absl_strings \<Rightarrow> FieldPath \<Rightarrow> Operator \<Rightarrow> Value \<Rightarrow> FieldFilter res" where
  "KeyFieldFilter a path op value =
     bind_res (reference_key a value) (\<lambda>key. Inr (FieldFilter_make path op value (KeyFieldFilter_Rep key)))"

definition ArrayContainsFilter :: "FieldPath \<Rightarrow> Value \<Rightarrow> FieldFilter" where
  "ArrayContainsFilter path value = FieldFilter_make path ArrayContains value ArrayContainsFilter_Rep"

definition InFilter :: "FieldPath \<Rightarrow> Value \<Rightarrow> FieldFilter res" where
  "InFilter path value = (if IsArray (Some value) then Inr (FieldFilter_make path In value InFilter_Rep) else Inl HardAssert)"

definition ArrayContainsAnyFilter :: "FieldPath \<Rightarrow> Value \<Rightarrow> FieldFilter res" where
  "ArrayContainsAnyFilter path value =
     (if IsArray (Some value) then Inr (FieldFilter_make path ArrayContainsAny value ArrayContainsAnyFilter_Rep) else Inl HardAssert)"

definition NotInFilter :: "FieldPath \<Rightarrow> Value \<Rightarrow> FieldFilter res" where
  "NotInFilter path value =
     (if IsArray (Some value) then Inr (FieldFilter_make path NotIn value NotInFilter_Rep) else Inl HardAssert)"

definition FieldFilter_Create :: "absl_strings \<Rightarrow> FieldPath \<Rightarrow> Operator \<Rightarrow> Value \<Rightarrow> FieldFilter res" where
  "FieldFilter_Create a path op v =
     (let value = SortFields v
      in if IsKeyFieldPath path then
           (if op = In then KeyFieldInFilter a path value
            else if op = NotIn then KeyFieldNotInFilter a path value
            else if IsArrayOperator op then Inl HardAssert
            else KeyFieldFilter a path op value)
         else if op = ArrayContains then Inr (ArrayContainsFilter path value)
         else if op = In then InFilter path value
         else if op = ArrayContainsAny then ArrayContainsAnyFilter path value
         else if op = NotIn then NotInFilter path value
         else Inr (FieldFilter_make path op value FieldFilter_Rep))"

lemmas field_filter_creation = FieldFilter_Create_def FieldFilter_make_def KeyFieldInFilter_def KeyFieldNotInFilter_def
  KeyFieldFilter_def ArrayContainsFilter_def InFilter_def ArrayContainsAnyFilter_def NotInFilter_def

subsection \<open>Matching\<close>

definition document_field :: "MutableDocument \<Rightarrow> FieldPath \<Rightarrow> Value option" where
  "document_field doc path = ObjectValue_Get (doc_data doc) path"

definition MatchesComparison :: "Operator \<Rightarrow> ComparisonResult \<Rightarrow> bool res" where
  "MatchesComparison op comparison = (case op of
     LessThan \<Rightarrow> Inr (comparison = Ascending)
   | LessThanOrEqual \<Rightarrow> Inr (comparison = Ascending \<or> comparison = Same)
   | Equal \<Rightarrow> Inr (comparison = Same)
   | GreaterThanOrEqual \<Rightarrow> Inr (comparison = Descending \<or> comparison = Same)
   | GreaterThan \<Rightarrow> Inr (comparison = Descending)
   | NotEqual \<Rightarrow> Inr (comparison \<noteq> Same)
   | _ \<Rightarrow> Inl HardFail)"

definition IsInequality :: "FieldFilter \<Rightarrow> bool" where
  "IsInequality f \<longleftrightarrow> filter_op f \<in> {LessThan, LessThanOrEqual, GreaterThan, GreaterThanOrEqual, NotEqual, NotIn}"

fun contains_any_loop :: "(string \<Rightarrow> string list) \<Rightarrow> Value \<Rightarrow> Value list \<Rightarrow> bool res" where
  "contains_any_loop split array_value [] = Inr False"
| "contains_any_loop split array_value (v # vs) =
     bind_res (Value_Contains split array_value v) (\<lambda>b. if b then Inr True else contains_any_loop split array_value vs)"

definition Rep_Matches :: "(string \<Rightarrow> string list) \<Rightarrow> FieldFilter \<Rightarrow> MutableDocument \<Rightarrow> bool res" where
  "Rep_Matches split f doc = (case document_field doc (filter_field f) of
     None \<Rightarrow> Inr False
   | Some lhs \<Rightarrow>
       if filter_op f = NotEqual then bind_res (Value_Compare split lhs (value_rhs f)) (MatchesComparison (filter_op f))
       else if GetTypeOrder lhs = GetTypeOrder (value_rhs f) then
         bind_res (Value_Compare split lhs (value_rhs f)) (MatchesComparison (filter_op f))
       else Inr False)"

definition ArrayContainsAny_Matches :: "(string \<Rightarrow> string list) \<Rightarrow> FieldFilter \<Rightarrow> MutableDocument \<Rightarrow> bool res" where
  "ArrayContainsAny_Matches split f doc = (case document_field doc (filter_field f) of
     None \<Rightarrow> Inr False
   | Some lhs \<Rightarrow> if IsArray (Some lhs) then contains_any_loop split (value_rhs f) (array_values lhs) else Inr False)"

definition ArrayContains_Matches :: "(string \<Rightarrow> string list) \<Rightarrow> FieldFilter \<Rightarrow> MutableDocument \<Rightarrow> bool res" where
  "ArrayContains_Matches split f doc = (case document_field doc (filter_field f) of
     None \<Rightarrow> Inr False
   | Some lhs \<Rightarrow> if IsArray (Some lhs) then Value_Contains split lhs (value_rhs f) else Inr False)"

definition In_Matches :: "(string \<Rightarrow> string list) \<Rightarrow> FieldFilter \<Rightarrow> MutableDocument \<Rightarrow> bool res" where
  "In_Matches split f doc = (case document_field doc (filter_field f) of
     None \<Rightarrow> Inr False
   | Some lhs \<Rightarrow> Value_Contains split (value_rhs f) lhs)"

definition NotIn_Matches :: "(string \<Rightarrow> string list) \<Rightarrow> FieldFilter \<Rightarrow> MutableDocument \<Rightarrow> bool res" where
  "NotIn_Matches split f doc = bind_res (Value_Contains split (value_rhs f) NullValue) (\<lambda>null.
     if null then Inr False
     else case document_field doc (filter_field f) of
       None \<Rightarrow> Inr False
     | Some lhs \<Rightarrow> bind_res (Value_Contains split (value_rhs f) lhs) (\<lambda>b. Inr (\<not> b)))"

definition KeyField_Matches :: "Operator \<Rightarrow> DocumentKey \<Rightarrow> MutableDocument \<Rightarrow> bool res" where
  "KeyField_Matches op key doc = MatchesComparison op (DocumentKey_CompareTo (doc_key doc) key)"

definition KeyFieldIn_Matches :: "DocumentKey list \<Rightarrow> MutableDocument \<Rightarrow> bool" where
  "KeyFieldIn_Matches keys doc \<longleftrightarrow> doc_key doc \<in> set keys"

definition KeyFieldNotIn_Matches :: "DocumentKey list \<Rightarrow> MutableDocument \<Rightarrow> bool" where
  "KeyFieldNotIn_Matches keys doc \<longleftrightarrow> doc_key doc \<notin> set keys"

definition FieldFilter_Matches :: "(string \<Rightarrow> string list) \<Rightarrow> FieldFilter \<Rightarrow> MutableDocument \<Rightarrow> bool res" where
  "FieldFilter_Matches split f doc = (case filter_rep f of
     FieldFilter_Rep \<Rightarrow> Rep_Matches split f doc
   | ArrayContainsAnyFilter_Rep \<Rightarrow> ArrayContainsAny_Matches split f doc
   | ArrayContainsFilter_Rep \<Rightarrow> ArrayContains_Matches split f doc
   | InFilter_Rep \<Rightarrow> In_Matches split f doc
   | NotInFilter_Rep \<Rightarrow> NotIn_Matches split f doc
   | KeyFieldFilter_Rep key \<Rightarrow> KeyField_Matches (filter_op f) key doc
   | KeyFieldInFilter_Rep keys \<Rightarrow> Inr (KeyFieldIn_Matches keys doc)
   | KeyFieldNotInFilter_Rep keys \<Rightarrow> Inr (KeyFieldNotIn_Matches keys doc))"

lemmas field_filter_matching = FieldFilter_Matches_def Rep_Matches_def ArrayContainsAny_Matches_def ArrayContains_Matches_def
  In_Matches_def NotIn_Matches_def KeyField_Matches_def KeyFieldIn_Matches_def KeyFieldNotIn_Matches_def

fun Filter_Matches :: "(string \<Rightarrow> string list) \<Rightarrow> Filter \<Rightarrow> MutableDocument \<Rightarrow> bool res"
  and Matches_all :: "(string \<Rightarrow> string list) \<Rightarrow> Filter list \<Rightarrow> MutableDocument \<Rightarrow> bool res"
  and Matches_any :: "(string \<Rightarrow> string list) \<Rightarrow> Filter list \<Rightarrow> MutableDocument \<Rightarrow> bool res" where
  "Filter_Matches split (IsField f) doc = FieldFilter_Matches split f doc"
| "Filter_Matches split (Composite fs op) doc =
     (if op = And then Matches_all split fs doc else Matches_any split fs doc)"
| "Matches_all split [] doc = Inr True"
| "Matches_all split (f # fs) doc =
     bind_res (Filter_Matches split f doc) (\<lambda>b. if b then Matches_all split fs doc else Inr False)"
| "Matches_any split [] doc = Inr False"
| "Matches_any split (f # fs) doc =
     bind_res (Filter_Matches split f doc) (\<lambda>b. if b then Inr True else Matches_any split fs doc)"

subsection \<open>Composite filters\<close>

fun IsConjunction :: "Filter \<Rightarrow> bool" where
  "IsConjunction (Composite _ op) \<longleftrightarrow> op = And"
| "IsConjunction _ \<longleftrightarrow> False"

fun IsDisjunction :: "Filter \<Rightarrow> bool" where
  "IsDisjunction (Composite _ op) \<longleftrightarrow> op = Or"
| "IsDisjunction _ \<longleftrightarrow> False"

fun IsFlat :: "Filter \<Rightarrow> bool" where
  "IsFlat (Composite fs _) \<longleftrightarrow> list_all IsAFieldFilter fs"
| "IsFlat _ \<longleftrightarrow> False"

definition IsFlatConjunction :: "Filter \<Rightarrow> bool" where
  "IsFlatConjunction f \<longleftrightarrow> IsACompositeFilter f \<and> IsFlat f \<and> IsConjunction f"

fun Filter_IsEmpty :: "Filter \<Rightarrow> bool" where
  "Filter_IsEmpty (IsField _) \<longleftrightarrow> False"
| "Filter_IsEmpty (Composite fs _) \<longleftrightarrow> fs = []"

text \<open>Copying the representation of a field filter keeps only its base class.\<close>

definition sliced :: "FieldFilter \<Rightarrow> FieldFilter" where
  "sliced f = f\<lparr>filter_rep := FieldFilter_Rep\<rparr>"

fun GetFilters :: "Filter \<Rightarrow> Filter list" where
  "GetFilters (IsField f) = [IsField (sliced f)]"
| "GetFilters (Composite fs _) = fs"

fun GetFlattenedFilters :: "Filter \<Rightarrow> FieldFilter list" where
  "GetFlattenedFilters (IsField f) = [sliced f]"
| "GetFlattenedFilters (Composite fs _) = concat (map GetFlattenedFilters fs)"

definition FindFirstMatchingFilter :: "(FieldFilter \<Rightarrow> bool) \<Rightarrow> Filter \<Rightarrow> FieldFilter option" where
  "FindFirstMatchingFilter condition f = find condition (GetFlattenedFilters f)"

definition WithAddedFilters :: "Filter list \<Rightarrow> CompositeOperator \<Rightarrow> Filter list \<Rightarrow> Filter" where
  "WithAddedFilters fs op other_filters = Composite (fs @ other_filters) op"

end
