(* ===== verification/Filter_Logic.thy ===== *)
theory Filter_Logic
  imports Query_Filters
begin

text \<open>
  Disjunctive normal form of filters: \<^verbatim>\<open>util/logic_utils.cc\<close>.

  A filter that may fail an assertion returns a sum. \<open>holds\<close> gives a filter its truth value from those of its field
  filters; the transformations are shown to preserve it and to produce the normal form.
\<close>

section \<open>Transformations\<close>

definition IsSingleFieldFilter :: "Filter \<Rightarrow> bool" where
  "IsSingleFieldFilter f \<longleftrightarrow> IsAFieldFilter f"

fun IsDisjunctionOfFieldFiltersAndFlatConjunctions :: "Filter \<Rightarrow> bool" where
  "IsDisjunctionOfFieldFiltersAndFlatConjunctions (Composite fs op) \<longleftrightarrow>
     op = Or \<and> list_all (\<lambda>sub_filter. IsSingleFieldFilter sub_filter \<or> IsFlatConjunction sub_filter) fs"
| "IsDisjunctionOfFieldFiltersAndFlatConjunctions (IsField _) \<longleftrightarrow> False"

definition IsDisjunctiveNormalForm :: "Filter \<Rightarrow> bool" where
  "IsDisjunctiveNormalForm f \<longleftrightarrow>
     IsSingleFieldFilter f \<or> IsFlatConjunction f \<or> IsDisjunctionOfFieldFiltersAndFlatConjunctions f"

fun lift_same :: "CompositeOperator \<Rightarrow> Filter \<Rightarrow> Filter list" where
  "lift_same op (IsField f) = [IsField f]"
| "lift_same op (Composite gs op') = (if op' = op then gs else [Composite gs op'])"

fun ApplyAssociation :: "Filter \<Rightarrow> Filter" where
  "ApplyAssociation (IsField f) = IsField f"
| "ApplyAssociation (Composite [] op) = Composite [] op"
| "ApplyAssociation (Composite [f] op) = ApplyAssociation f"
| "ApplyAssociation (Composite (f # g # gs) op) =
     (if IsFlat (Composite (f # g # gs) op) then Composite (f # g # gs) op
      else let new_subfilters = concat (map (lift_same op) (map ApplyAssociation (f # g # gs)))
           in case new_subfilters of [h] \<Rightarrow> h | _ \<Rightarrow> Composite new_subfilters op)"

text \<open>The overloads of \<^verbatim>\<open>ApplyDistribution\<close> call the general one, here a parameter, for the parts of a disjunction.\<close>

definition ApplyDistribution_field :: "(Filter \<Rightarrow> Filter \<Rightarrow> Filter res) \<Rightarrow> FieldFilter \<Rightarrow> Filter list \<Rightarrow> CompositeOperator \<Rightarrow> Filter res" where
  "ApplyDistribution_field distribute field_filter fs op =
     (if op = And then Inr (WithAddedFilters fs op [IsField field_filter])
      else bind_res (seq_res (\<lambda>subfilter. distribute (IsField field_filter) subfilter) fs) (\<lambda>new_filters. Inr (Composite new_filters Or)))"

definition ApplyDistribution_composite ::
  "(Filter \<Rightarrow> Filter \<Rightarrow> Filter res) \<Rightarrow> Filter list \<Rightarrow> CompositeOperator \<Rightarrow> Filter list \<Rightarrow> CompositeOperator \<Rightarrow> Filter res" where
  "ApplyDistribution_composite distribute ls lop rs rop =
     (if ls = [] \<or> rs = [] then Inl HardAssert
      else if lop = And \<and> rop = And then Inr (WithAddedFilters ls lop rs)
      else if lop = Or then
        bind_res (seq_res (\<lambda>subfilter. distribute subfilter (Composite rs rop)) ls) (\<lambda>results. Inr (Composite results Or))
      else
        bind_res (seq_res (\<lambda>subfilter. distribute subfilter (Composite ls lop)) rs) (\<lambda>results. Inr (Composite results Or)))"

lemma ApplyDistribution_field_cong [fundef_cong]:
  assumes "f = f'" "fs = fs'" "op = op'" "\<And>s t. s = IsField f' \<Longrightarrow> t \<in> set fs' \<Longrightarrow> d s t = d' s t"
  shows "ApplyDistribution_field d f fs op = ApplyDistribution_field d' f' fs' op'"
  using assms seq_res_cong[of fs' fs' "d (IsField f')" "d' (IsField f')"] by (simp add: ApplyDistribution_field_def)

lemma ApplyDistribution_composite_cong [fundef_cong]:
  assumes "ls = ls'" "lop = lop'" "rs = rs'" "rop = rop'"
    "\<And>s t. s \<in> set ls' \<and> t = Composite rs' rop' \<or> s \<in> set rs' \<and> t = Composite ls' lop' \<Longrightarrow> d s t = d' s t"
  shows "ApplyDistribution_composite d ls lop rs rop = ApplyDistribution_composite d' ls' lop' rs' rop'"
proof -
  have "seq_res (\<lambda>s. d s (Composite rs' rop')) ls' = seq_res (\<lambda>s. d' s (Composite rs' rop')) ls'"
    "seq_res (\<lambda>s. d s (Composite ls' lop')) rs' = seq_res (\<lambda>s. d' s (Composite ls' lop')) rs'"
    by (rule seq_res_cong; simp add: assms(5))+
  then show ?thesis using assms(1-4) by (simp add: ApplyDistribution_composite_def)
qed

lemma size_subfilter: "f \<in> set fs \<Longrightarrow> size f < size (Composite fs op)"
  by (induction fs) auto

function ApplyDistribution :: "Filter \<Rightarrow> Filter \<Rightarrow> Filter res" where
  "ApplyDistribution lhs rhs =
     bind_res (case lhs of
         IsField l \<Rightarrow> (case rhs of
             IsField r \<Rightarrow> Inr (Composite [IsField l, IsField r] And)
           | Composite rs rop \<Rightarrow> ApplyDistribution_field ApplyDistribution l rs rop)
       | Composite ls lop \<Rightarrow> (case rhs of
             IsField r \<Rightarrow> ApplyDistribution_field ApplyDistribution r ls lop
           | Composite rs rop \<Rightarrow> ApplyDistribution_composite ApplyDistribution ls lop rs rop))
       (\<lambda>f. Inr (ApplyAssociation f))"
  by pat_completeness auto
termination
  by (relation "measure (\<lambda>(lhs, rhs). size lhs + size rhs)") (auto dest: size_subfilter[where op = And])

declare ApplyDistribution.simps [simp del]

fun distribute_all :: "Filter \<Rightarrow> Filter list \<Rightarrow> Filter res" where
  "distribute_all running_result [] = Inr running_result"
| "distribute_all running_result (f # fs) = bind_res (ApplyDistribution running_result f) (\<lambda>r. distribute_all r fs)"

text \<open>What \<^verbatim>\<open>ComputeDistributedNormalForm\<close> does once the normal forms of the subfilters are known.\<close>

definition combine_normal_forms :: "Filter list \<Rightarrow> CompositeOperator \<Rightarrow> Filter res" where
  "combine_normal_forms result op =
     (let new_filter = ApplyAssociation (Composite result op)
      in if IsDisjunctiveNormalForm new_filter then Inr new_filter
         else case new_filter of
           IsField _ \<Rightarrow> Inl HardAssert
         | Composite fs op' \<Rightarrow>
             if op' \<noteq> And then Inl HardAssert
             else if length fs \<le> 1 then Inl HardAssert
             else distribute_all (hd fs) (tl fs))"

fun ComputeDistributedNormalForm :: "Filter \<Rightarrow> Filter res" where
  "ComputeDistributedNormalForm (IsField f) = Inr (IsField f)"
| "ComputeDistributedNormalForm (Composite fs op) =
     (case fs of
        [f] \<Rightarrow> ComputeDistributedNormalForm f
      | _ \<Rightarrow> bind_res (seq_res ComputeDistributedNormalForm fs) (\<lambda>result. combine_normal_forms result op))"

fun ComputeInExpansion :: "absl_strings \<Rightarrow> Filter \<Rightarrow> Filter res" where
  "ComputeInExpansion a (IsField f) =
     (if Filter_type (IsField f) = kInFilter then
        bind_res (seq_res (\<lambda>v. FieldFilter_Create a (filter_field f) Equal (DeepClone v)) (array_values (value_rhs f)))
          (\<lambda>expanded_filters. Inr (Composite (map IsField expanded_filters) Or))
      else Inr (IsField f))"
| "ComputeInExpansion a (Composite fs op) =
     bind_res (seq_res (ComputeInExpansion a) fs) (\<lambda>expanded_filters. Inr (Composite expanded_filters op))"

definition GetDnfTerms :: "absl_strings \<Rightarrow> Filter \<Rightarrow> Filter list res" where
  "GetDnfTerms a f =
     (if Filter_IsEmpty f then Inr []
      else bind_res (ComputeInExpansion a f) (\<lambda>expanded.
        bind_res (ComputeDistributedNormalForm expanded) (\<lambda>result.
          if \<not> IsDisjunctiveNormalForm result then Inl HardAssert
          else if IsSingleFieldFilter result \<or> IsFlatConjunction result then Inr [result]
          else Inr (GetFilters result))))"

section \<open>Truth values\<close>

fun holds :: "(FieldFilter \<Rightarrow> bool) \<Rightarrow> Filter \<Rightarrow> bool" where
  "holds ev (IsField f) = ev f"
| "holds ev (Composite fs op) = (if op = And then (\<forall>f \<in> set fs. holds ev f) else (\<exists>f \<in> set fs. holds ev f))"

fun leaves :: "Filter \<Rightarrow> FieldFilter set" where
  "leaves (IsField f) = {f}"
| "leaves (Composite fs op) = (\<Union>f \<in> set fs. leaves f)"

text \<open>No composite filter without parts; and the normal forms, flat and without composites of a single part.\<close>

fun nonempty :: "Filter \<Rightarrow> bool" where
  "nonempty (IsField f) \<longleftrightarrow> True"
| "nonempty (Composite fs op) \<longleftrightarrow> fs \<noteq> [] \<and> (\<forall>f \<in> set fs. nonempty f)"

definition conj_form :: "Filter \<Rightarrow> bool" where
  "conj_form f \<longleftrightarrow> (case f of IsField _ \<Rightarrow> True | Composite fs op \<Rightarrow> op = And \<and> 2 \<le> length fs \<and> list_all IsAFieldFilter fs)"

definition normal_form :: "Filter \<Rightarrow> bool" where
  "normal_form f \<longleftrightarrow> conj_form f \<or> (\<exists>fs. f = Composite fs Or \<and> 2 \<le> length fs \<and> list_all conj_form fs)"

lemma conj_form_normal [simp]: "conj_form f \<Longrightarrow> normal_form f"
  by (simp add: normal_form_def)

lemma conj_form_simps [simp]:
  "conj_form (IsField f)"
  "conj_form (Composite fs op) \<longleftrightarrow> op = And \<and> 2 \<le> length fs \<and> list_all IsAFieldFilter fs"
  by (simp_all add: conj_form_def)

lemma normal_form_Or: "normal_form (Composite fs Or) \<longleftrightarrow> 2 \<le> length fs \<and> list_all conj_form fs"
  by (auto simp: normal_form_def)

lemma IsAFieldFilter_iff: "IsAFieldFilter f \<longleftrightarrow> (\<exists>g. f = IsField g)"
  by (cases f) simp_all

lemma normal_form_IsDisjunctiveNormalForm: "normal_form f \<Longrightarrow> IsDisjunctiveNormalForm f"
proof (cases f)
  case (Composite fs op)
  have "conj_form g \<Longrightarrow> IsSingleFieldFilter g \<or> IsFlatConjunction g" for g
    by (cases g) (simp_all add: IsSingleFieldFilter_def IsFlatConjunction_def)
  then show "normal_form f \<Longrightarrow> IsDisjunctiveNormalForm f" using Composite
    by (cases op) (auto simp: normal_form_Or normal_form_def IsDisjunctiveNormalForm_def IsFlatConjunction_def list_all_iff)
qed (simp add: IsDisjunctiveNormalForm_def IsSingleFieldFilter_def)

section \<open>Association\<close>

lemma holds_lift_same: "holds ev (Composite (concat (map (lift_same op) fs)) op) = holds ev (Composite fs op)"
proof -
  have one: "(\<forall>g \<in> set (lift_same And f). holds ev g) = holds ev f" "(\<exists>g \<in> set (lift_same Or f). holds ev g) = holds ev f" for f
    by (cases f; simp)+
  show ?thesis
  proof (cases op)
    case And
    then show ?thesis by (induction fs) (simp_all add: ball_Un one)
  next
    case Or
    then show ?thesis by (induction fs) (simp_all add: bex_Un one)
  qed
qed

lemma holds_unwrap: "holds ev (case fs of [h] \<Rightarrow> h | _ \<Rightarrow> Composite fs op) = holds ev (Composite fs op)"
  by (cases op) (simp_all split: list.split)

lemma leaves_lift_same: "(\<Union>g \<in> set (lift_same op f). leaves g) = leaves f"
  by (cases f) auto

lemma holds_ApplyAssociation: "holds ev (ApplyAssociation f) = holds ev f"
proof (induction f rule: ApplyAssociation.induct)
  case (4 f g gs op)
  let ?fs = "f # g # gs"
  let ?n = "concat (map (lift_same op) (map ApplyAssociation ?fs))"
  show ?case
  proof (cases "IsFlat (Composite ?fs op)")
    case False
    have "holds ev (ApplyAssociation (Composite ?fs op)) = holds ev (Composite ?n op)"
      using False by (simp only: ApplyAssociation.simps if_False Let_def holds_unwrap)
    also have "\<dots> = holds ev (Composite (map ApplyAssociation ?fs) op)" by (rule holds_lift_same)
    also have "\<dots> = holds ev (Composite ?fs op)" using "4.IH"[OF False] by simp
    finally show ?thesis .
  qed (simp only: ApplyAssociation.simps if_True)
qed simp_all

lemma leaves_ApplyAssociation: "leaves (ApplyAssociation f) = leaves f"
proof (induction f rule: ApplyAssociation.induct)
  case (4 f g gs op)
  let ?fs = "f # g # gs"
  let ?n = "concat (map (lift_same op) (map ApplyAssociation ?fs))"
  show ?case
  proof (cases "IsFlat (Composite ?fs op)")
    case False
    have "leaves (case ns of [h] \<Rightarrow> h | _ \<Rightarrow> Composite ns op) = leaves (Composite ns op)" for ns
      by (simp split: list.split)
    then have "leaves (ApplyAssociation (Composite ?fs op)) = leaves (Composite ?n op)"
      using False by (simp only: ApplyAssociation.simps if_False Let_def)
    also have "\<dots> = (\<Union>s \<in> set ?fs. leaves (ApplyAssociation s))" using leaves_lift_same[of op] by auto
    also have "\<dots> = leaves (Composite ?fs op)" using "4.IH"[OF False] by simp
    finally show ?thesis .
  qed (simp only: ApplyAssociation.simps if_True)
qed simp_all

lemma lift_same_nonempty: "nonempty f \<Longrightarrow> lift_same op f \<noteq> []"
  by (cases f) auto

lemma concat_length: "(\<And>x. x \<in> set xs \<Longrightarrow> f x \<noteq> []) \<Longrightarrow> length xs \<le> length (concat (map f xs))"
proof (induction xs)
  case (Cons x xs)
  moreover have "1 \<le> length (f x)" using Cons.prems[of x] by (cases "f x") simp_all
  ultimately show ?case by fastforce
qed simp

lemma concat_single: "(\<And>x. x \<in> set xs \<Longrightarrow> f x = [x]) \<Longrightarrow> concat (map f xs) = xs"
  by (induction xs) simp_all

lemma lift_fields: "list_all IsAFieldFilter fs \<Longrightarrow> concat (map (lift_same op) fs) = fs"
  by (rule concat_single) (auto simp: list_all_iff IsAFieldFilter_iff)

lemma ApplyAssociation_step:
  assumes "2 \<le> length fs" "\<And>s. s \<in> set fs \<Longrightarrow> ApplyAssociation s = s \<and> nonempty s"
  shows "ApplyAssociation (Composite fs op) = Composite (concat (map (lift_same op) fs)) op"
    "2 \<le> length (concat (map (lift_same op) fs))"
proof -
  have l: "length fs \<le> length (concat (map (lift_same op) fs))" using assms(2) lift_same_nonempty by (intro concat_length) auto
  then show ge: "2 \<le> length (concat (map (lift_same op) fs))" using assms(1) by simp
  have m: "map ApplyAssociation fs = fs" using assms(2) by (intro map_idI) simp
  obtain f g gs where fs: "fs = f # g # gs" using assms(1) by (metis Suc_le_length_iff numeral_2_eq_2)
  show "ApplyAssociation (Composite fs op) = Composite (concat (map (lift_same op) fs)) op"
  proof (cases "list_all IsAFieldFilter fs")
    case True
    then show ?thesis unfolding lift_fields[OF True] by (simp add: fs)
  next
    case False
    then have "ApplyAssociation (Composite fs op) =
        (case concat (map (lift_same op) (map ApplyAssociation fs)) of [h] \<Rightarrow> h | _ \<Rightarrow> Composite (concat (map (lift_same op) (map ApplyAssociation fs))) op)"
      unfolding fs by (simp only: ApplyAssociation.simps IsFlat.simps if_False Let_def)
    then show ?thesis unfolding m using ge by (auto split: list.split)
  qed
qed

lemma conj_form_fixed: "conj_form f \<Longrightarrow> ApplyAssociation f = f \<and> nonempty f"
proof (cases f)
  case (Composite fs op)
  assume "conj_form f"
  then have c: "op = And" "2 \<le> length fs" "list_all IsAFieldFilter fs" using Composite by simp_all
  moreover have "concat (map (lift_same op) fs) = fs" by (rule lift_fields[OF c(3)])
  moreover have "s \<in> set fs \<Longrightarrow> ApplyAssociation s = s \<and> nonempty s" for s using c(3) by (auto simp: list_all_iff IsAFieldFilter_iff)
  ultimately show ?thesis using ApplyAssociation_step(1)[OF c(2), of op] c Composite by auto
qed simp

lemma lift_conj_form: "conj_form f \<Longrightarrow> lift_same Or f = [f]"
  by (cases f) auto

lemma normal_form_fixed: "normal_form f \<Longrightarrow> ApplyAssociation f = f \<and> nonempty f"
proof -
  assume "normal_form f"
  then consider "conj_form f" | fs where "f = Composite fs Or" "2 \<le> length fs" "list_all conj_form fs"
    by (auto simp: normal_form_def)
  then show ?thesis
  proof cases
    case 2
    have "concat (map (lift_same Or) fs) = fs" using 2(3) lift_conj_form by (intro concat_single) (simp add: list_all_iff)
    moreover have "s \<in> set fs \<Longrightarrow> ApplyAssociation s = s \<and> nonempty s" for s
      using 2(3) conj_form_fixed by (auto simp: list_all_iff)
    ultimately show ?thesis using ApplyAssociation_step(1)[OF 2(2), of Or] 2(1,2) by auto
  qed (simp add: conj_form_fixed)
qed

lemma associate_Or:
  assumes "2 \<le> length fs" "list_all normal_form fs"
  shows "normal_form (ApplyAssociation (Composite fs Or))"
proof -
  have "list_all conj_form (lift_same Or f)" if "normal_form f" for f
    using that by (cases f) (auto simp: normal_form_def)
  then have "list_all conj_form (concat (map (lift_same Or) fs))" using assms(2) by (auto simp: list_all_iff)
  moreover have "ApplyAssociation (Composite fs Or) = Composite (concat (map (lift_same Or) fs)) Or"
    "2 \<le> length (concat (map (lift_same Or) fs))"
    using ApplyAssociation_step[OF assms(1)] normal_form_fixed assms(2) by (auto simp: list_all_iff)
  ultimately show ?thesis by (simp add: normal_form_Or)
qed

lemma associate_And:
  assumes "2 \<le> length fs" "list_all normal_form fs"
  shows "\<exists>gs. ApplyAssociation (Composite fs And) = Composite gs And \<and> 2 \<le> length gs \<and> list_all normal_form gs"
proof -
  have "list_all normal_form (lift_same And f)" if "normal_form f" for f
    using that by (cases f) (auto simp: normal_form_def list_all_iff IsAFieldFilter_iff)
  then have "list_all normal_form (concat (map (lift_same And) fs))" using assms(2) by (auto simp: list_all_iff)
  moreover have "ApplyAssociation (Composite fs And) = Composite (concat (map (lift_same And) fs)) And"
    "2 \<le> length (concat (map (lift_same And) fs))"
    using ApplyAssociation_step[OF assms(1)] normal_form_fixed assms(2) by (auto simp: list_all_iff)
  ultimately show ?thesis by auto
qed

section \<open>Distribution\<close>

text \<open>The normal form of a conjunction, with its truth value and its field filters.\<close>

definition conjunction_of :: "Filter \<Rightarrow> Filter \<Rightarrow> Filter \<Rightarrow> bool" where
  "conjunction_of l r f \<longleftrightarrow>
     normal_form f \<and> (\<forall>ev. holds ev f = (holds ev l \<and> holds ev r)) \<and> leaves f \<subseteq> leaves l \<union> leaves r"

lemma conjunction_of_commute: "conjunction_of l r f = conjunction_of r l f"
  by (auto simp: conjunction_of_def)

lemma conjunction_of_flat:
  assumes "list_all IsAFieldFilter fs" "2 \<le> length fs" "\<And>ev. (\<forall>f \<in> set fs. holds ev f) = (holds ev l \<and> holds ev r)"
    "(\<Union>f \<in> set fs. leaves f) \<subseteq> leaves l \<union> leaves r"
  shows "conjunction_of l r (ApplyAssociation (Composite fs And))"
proof -
  have "conj_form (Composite fs And)" using assms(1,2) by simp
  then show ?thesis using conj_form_fixed[of "Composite fs And"] assms(3,4) by (simp add: conjunction_of_def)
qed

lemma conjunction_of_parts:
  assumes "list_all2 (\<lambda>s g. conjunction_of s other g) fs gs" "2 \<le> length fs"
  shows "conjunction_of (Composite fs Or) other (ApplyAssociation (Composite gs Or))"
proof -
  have "length gs = length fs" and n: "list_all normal_form gs"
    using assms(1) by (auto simp: list_all2_conv_all_nth list_all_length conjunction_of_def)
  then have "normal_form (ApplyAssociation (Composite gs Or))" using assms(2) associate_Or by simp
  moreover have "(\<exists>g \<in> set gs. holds ev g) = ((\<exists>f \<in> set fs. holds ev f) \<and> holds ev other)" for ev
    using assms(1) by (induction rule: list_all2_induct) (auto simp: conjunction_of_def)
  moreover have "(\<Union>g \<in> set gs. leaves g) \<subseteq> (\<Union>f \<in> set fs. leaves f) \<union> leaves other"
    using assms(1) by (induction rule: list_all2_induct) (auto simp: conjunction_of_def)
  ultimately show ?thesis by (simp add: conjunction_of_def holds_ApplyAssociation leaves_ApplyAssociation)
qed

lemma normal_cases:
  assumes "normal_form f"
  obtains g where "f = IsField g" | fs where "f = Composite fs And" "2 \<le> length fs" "list_all IsAFieldFilter fs"
    | fs where "f = Composite fs Or" "2 \<le> length fs" "list_all normal_form fs"
  using assms by (cases f) (auto simp: normal_form_def list_all_iff)

lemma distribute_parts:
  assumes "\<And>s. s \<in> set fs \<Longrightarrow> \<exists>f. d s = Inr f \<and> conjunction_of s other f" "2 \<le> length fs"
  shows "\<exists>gs. seq_res d fs = Inr gs \<and> conjunction_of (Composite fs Or) other (ApplyAssociation (Composite gs Or))"
proof -
  obtain gs where "seq_res d fs = Inr gs" "list_all2 (\<lambda>s g. conjunction_of s other g) fs gs"
    using seq_res_total[of fs d "\<lambda>s g. conjunction_of s other g"] assms(1) by auto
  then show ?thesis using conjunction_of_parts[OF _ assms(2)] by auto
qed

lemma ApplyDistribution_field_normal_form:
  assumes "normal_form (Composite fs op)"
    "\<And>s. s \<in> set fs \<Longrightarrow> normal_form s \<Longrightarrow> \<exists>g. d (IsField f) s = Inr g \<and> conjunction_of s (IsField f) g"
  shows "\<exists>g. ApplyDistribution_field d f fs op = Inr g \<and> conjunction_of (Composite fs op) (IsField f) (ApplyAssociation g)"
  using assms(1)
proof (cases rule: normal_cases)
  case (2 gs)
  then have "conjunction_of (Composite fs And) (IsField f) (ApplyAssociation (Composite (fs @ [IsField f]) And))"
    by (intro conjunction_of_flat) auto
  then show ?thesis using 2 by (simp add: ApplyDistribution_field_def WithAddedFilters_def)
next
  case (3 gs)
  then have "\<exists>g. d (IsField f) s = Inr g \<and> conjunction_of s (IsField f) g" if "s \<in> set fs" for s
    using assms(2)[OF that] that by (simp add: list_all_iff)
  then show ?thesis using 3 distribute_parts[of fs "d (IsField f)" "IsField f"] by (auto simp: ApplyDistribution_field_def)
qed simp

lemma ApplyDistribution_composite_normal_form:
  assumes "normal_form (Composite ls lop)" "normal_form (Composite rs rop)"
    "\<And>s. s \<in> set ls \<Longrightarrow> normal_form s \<Longrightarrow> \<exists>g. d s (Composite rs rop) = Inr g \<and> conjunction_of s (Composite rs rop) g"
    "\<And>s. s \<in> set rs \<Longrightarrow> normal_form s \<Longrightarrow> \<exists>g. d s (Composite ls lop) = Inr g \<and> conjunction_of s (Composite ls lop) g"
  shows "\<exists>g. ApplyDistribution_composite d ls lop rs rop = Inr g \<and>
    conjunction_of (Composite ls lop) (Composite rs rop) (ApplyAssociation g)"
proof -
  have ne: "ls \<noteq> []" "rs \<noteq> []" using assms(1,2) by (auto elim: normal_cases)
  consider "lop = Or" | "lop = And" "rop = Or" | "lop = And" "rop = And" by (cases lop; cases rop) auto
  then show ?thesis
  proof cases
    case 1
    then have "2 \<le> length ls" "list_all normal_form ls" using assms(1) by (auto elim: normal_cases)
    then show ?thesis using ne 1 distribute_parts[of ls "\<lambda>s. d s (Composite rs rop)" "Composite rs rop"] assms(3)
      by (auto simp: ApplyDistribution_composite_def list_all_iff)
  next
    case 2
    then have "2 \<le> length rs" "list_all normal_form rs" using assms(2) by (auto elim: normal_cases)
    then show ?thesis using ne 2 distribute_parts[of rs "\<lambda>s. d s (Composite ls lop)" "Composite ls lop"] assms(4)
      by (auto simp: ApplyDistribution_composite_def list_all_iff conjunction_of_commute[of "Composite ls And"])
  next
    case 3
    then have "2 \<le> length ls" "list_all IsAFieldFilter ls" "list_all IsAFieldFilter rs" using assms(1,2) by (auto elim: normal_cases)
    then have "conjunction_of (Composite ls And) (Composite rs And) (ApplyAssociation (Composite (ls @ rs) And))"
      by (intro conjunction_of_flat) auto
    then show ?thesis using ne 3 by (simp add: ApplyDistribution_composite_def WithAddedFilters_def)
  qed
qed

lemma ApplyDistribution_normal_form:
  "normal_form l \<Longrightarrow> normal_form r \<Longrightarrow> \<exists>f. ApplyDistribution l r = Inr f \<and> conjunction_of l r f"
proof (induction "size l + size r" arbitrary: l r rule: less_induct)
  case less
  have part: "\<exists>f. ApplyDistribution s t = Inr f \<and> conjunction_of s t f"
    if "normal_form s" "normal_form t" "size s + size t < size l + size r" for s t
    using less.hyps[OF that(3,1,2)] .
  show ?case
  proof (cases l)
    case l: (IsField f)
    show ?thesis
    proof (cases r)
      case (IsField g)
      then have "conjunction_of l r (ApplyAssociation (Composite [l, r] And))" using l by (intro conjunction_of_flat) auto
      then show ?thesis using l IsField by (simp add: ApplyDistribution.simps)
    next
      case (Composite fs op)
      have "\<exists>g. ApplyDistribution (IsField f) s = Inr g \<and> conjunction_of s (IsField f) g" if "s \<in> set fs" "normal_form s" for s
        using part[of l s] size_subfilter[OF that(1), of op] that(2) l Composite
        by (simp add: conjunction_of_commute[of s])
      then show ?thesis using ApplyDistribution_field_normal_form[of fs op ApplyDistribution f] less.prems l Composite
        by (auto simp: ApplyDistribution.simps conjunction_of_commute[of "IsField f"])
    qed
  next
    case l: (Composite ls lop)
    show ?thesis
    proof (cases r)
      case (IsField f)
      have "\<exists>g. ApplyDistribution (IsField f) s = Inr g \<and> conjunction_of s (IsField f) g" if "s \<in> set ls" "normal_form s" for s
        using part[of r s] size_subfilter[OF that(1), of lop] that(2) l IsField
        by (simp add: conjunction_of_commute[of s] add.commute)
      then show ?thesis using ApplyDistribution_field_normal_form[of ls lop ApplyDistribution f] less.prems l IsField
        by (auto simp: ApplyDistribution.simps)
    next
      case (Composite rs rop)
      have "\<exists>g. ApplyDistribution s r = Inr g \<and> conjunction_of s r g" if "s \<in> set ls" "normal_form s" for s
        using part[of s r] size_subfilter[OF that(1), of lop] that(2) l less.prems by simp
      moreover have "\<exists>g. ApplyDistribution s l = Inr g \<and> conjunction_of s l g" if "s \<in> set rs" "normal_form s" for s
        using part[of s l] size_subfilter[OF that(1), of rop] that(2) Composite less.prems by simp
      ultimately show ?thesis using ApplyDistribution_composite_normal_form[of ls lop rs rop ApplyDistribution] less.prems l Composite
        by (auto simp: ApplyDistribution.simps)
    qed
  qed
qed

lemma distribute_all_normal_form:
  "normal_form r \<Longrightarrow> list_all normal_form fs \<Longrightarrow>
   \<exists>g. distribute_all r fs = Inr g \<and> normal_form g \<and> (\<forall>ev. holds ev g = (holds ev r \<and> (\<forall>f \<in> set fs. holds ev f))) \<and>
     leaves g \<subseteq> leaves r \<union> (\<Union>f \<in> set fs. leaves f)"
proof (induction fs arbitrary: r)
  case (Cons f fs)
  obtain s where s: "ApplyDistribution r f = Inr s" "conjunction_of r f s"
    using ApplyDistribution_normal_form[of r f] Cons.prems by auto
  then obtain g where g: "distribute_all s fs = Inr g" "normal_form g"
      "\<forall>ev. holds ev g = (holds ev s \<and> (\<forall>f \<in> set fs. holds ev f))" "leaves g \<subseteq> leaves s \<union> (\<Union>f \<in> set fs. leaves f)"
    using Cons.IH[of s] Cons.prems by (auto simp: conjunction_of_def)
  then show ?case using s by (intro exI[of _ g]) (auto simp: conjunction_of_def)
qed simp

text \<open>A filter in normal form with the truth value of another one and no other field filters.\<close>

definition normal_form_of :: "Filter \<Rightarrow> Filter \<Rightarrow> bool" where
  "normal_form_of f g \<longleftrightarrow> normal_form g \<and> (\<forall>ev. holds ev g = holds ev f) \<and> leaves g \<subseteq> leaves f"

lemma combine_normal_forms_ok:
  assumes "list_all2 normal_form_of fs gs" "2 \<le> length fs"
  shows "\<exists>g. combine_normal_forms gs op = Inr g \<and> normal_form_of (Composite fs op) g"
proof -
  let ?new = "ApplyAssociation (Composite gs op)"
  have n: "list_all normal_form gs" "2 \<le> length gs"
    using assms by (auto simp: list_all2_conv_all_nth list_all_length normal_form_of_def)
  have h: "holds ev (Composite gs op) = holds ev (Composite fs op)" for ev
    using assms(1) by (induction rule: list_all2_induct) (auto simp: normal_form_of_def)
  have l: "leaves (Composite gs op) \<subseteq> leaves (Composite fs op)"
    using assms(1) by (induction rule: list_all2_induct) (auto simp: normal_form_of_def)
  have same: "holds ev ?new = holds ev (Composite fs op)" "leaves ?new \<subseteq> leaves (Composite fs op)" for ev
    using h l by (simp_all add: holds_ApplyAssociation leaves_ApplyAssociation)
  show ?thesis
  proof (cases "normal_form ?new")
    case True
    then show ?thesis using normal_form_IsDisjunctiveNormalForm[OF True] same
      by (simp add: combine_normal_forms_def normal_form_of_def)
  next
    case False
    then have op: "op = And" using associate_Or[of gs] n by (cases op) auto
    obtain hs where hs: "?new = Composite hs And" "2 \<le> length hs" "list_all normal_form hs"
      using associate_And[of gs] n op by auto
    have nd: "\<not> IsDisjunctiveNormalForm ?new"
      using False hs(1,2) by (auto simp: IsDisjunctiveNormalForm_def IsSingleFieldFilter_def IsFlatConjunction_def)
    obtain a as where a: "hs = a # as" "as \<noteq> []" using hs(2) by (cases hs; cases "tl hs") auto
    then obtain g where g: "distribute_all a as = Inr g" "normal_form g" "\<forall>ev. holds ev g = holds ev ?new" "leaves g \<subseteq> leaves ?new"
      using distribute_all_normal_form[of a as] hs(1,3) by auto
    have "combine_normal_forms gs op = distribute_all a as" using nd hs(1) a by (simp add: combine_normal_forms_def)
    then show ?thesis using g same by (intro exI[of _ g]) (simp add: normal_form_of_def subset_trans[OF g(4) same(2)])
  qed
qed

lemma ComputeDistributedNormalForm_ok:
  "nonempty f \<Longrightarrow> \<exists>g. ComputeDistributedNormalForm f = Inr g \<and> normal_form_of f g"
proof (induction f)
  case (Composite fs op)
  show ?case
  proof (cases "\<exists>f. fs = [f]")
    case True
    then obtain f where fs: "fs = [f]" by auto
    have "normal_form_of (Composite [f] op) g = normal_form_of f g" for g by (simp add: normal_form_of_def)
    then show ?thesis using Composite fs by simp
  next
    case False
    then have two: "2 \<le> length fs" using Composite.prems by (cases fs; cases "tl fs") auto
    obtain gs where gs: "seq_res ComputeDistributedNormalForm fs = Inr gs" "list_all2 normal_form_of fs gs"
      using seq_res_total[of fs ComputeDistributedNormalForm normal_form_of] Composite by auto
    then show ?thesis using False combine_normal_forms_ok[OF gs(2) two] by (auto split: list.split)
  qed
qed (simp add: normal_form_of_def)

section \<open>Matching\<close>

text \<open>Whether a field filter matches, a failure counting as no match.\<close>

definition matches :: "(string \<Rightarrow> string list) \<Rightarrow> MutableDocument \<Rightarrow> FieldFilter \<Rightarrow> bool" where
  "matches split doc f \<longleftrightarrow> FieldFilter_Matches split f doc = Inr True"

lemma Filter_Matches_holds:
  "Filter_Matches split f doc = Inr b \<Longrightarrow> b = holds (matches split doc) f"
  "Matches_all split fs doc = Inr b \<Longrightarrow> b = (\<forall>f \<in> set fs. holds (matches split doc) f)"
  "Matches_any split fs doc = Inr b \<Longrightarrow> b = (\<exists>f \<in> set fs. holds (matches split doc) f)"
proof (induction split f doc and split fs doc and split fs doc arbitrary: b and b and b
    rule: Filter_Matches_Matches_all_Matches_any.induct)
  case (1 split f doc)
  then show ?case by (cases b) (simp_all add: matches_def)
next
  case (4 split f fs doc)
  then show ?case by (auto split: if_splits)
next
  case (6 split f fs doc)
  then show ?case by (auto split: if_splits)
qed (auto split: if_splits)

lemma flat_Matches:
  "list_all IsAFieldFilter fs \<Longrightarrow> \<forall>g \<in> set fs. holds (matches split doc) g \<Longrightarrow> Matches_all split fs doc = Inr True"
proof (induction fs)
  case (Cons f fs)
  then obtain g where "f = IsField g" by (cases f) simp_all
  then show ?case using Cons by (simp add: matches_def)
qed simp

lemma conj_form_Matches:
  assumes "conj_form f" "holds (matches split doc) f"
  shows "Filter_Matches split f doc = Inr True"
  using assms flat_Matches by (cases f) (simp_all add: matches_def)

section \<open>Expansion of in filters\<close>

definition document_ok :: "MutableDocument \<Rightarrow> bool" where
  "document_ok doc \<longleftrightarrow> value_ok (Map_value (doc_data doc)) \<and> unique_keys (Map_value (doc_data doc))"

text \<open>What \<^verbatim>\<open>FieldFilter::Create\<close> ensures of an in filter, and a non-empty list of well-formed values.\<close>

definition in_filter_ok :: "FieldFilter \<Rightarrow> bool" where
  "in_filter_ok f \<longleftrightarrow> (filter_rep f = InFilter_Rep \<longrightarrow>
     \<not> IsKeyFieldPath (filter_field f) \<and> array_values (value_rhs f) \<noteq> [] \<and> value_ok (value_rhs f) \<and> unique_keys (value_rhs f))"

definition equal_filter :: "FieldPath \<Rightarrow> Value \<Rightarrow> FieldFilter" where
  "equal_filter path v = \<lparr>filter_field = path, filter_op = Equal, value_rhs = SortFields v, filter_rep = FieldFilter_Rep\<rparr>"

fun expanded :: "Filter \<Rightarrow> Filter" where
  "expanded (IsField f) =
     (if filter_rep f = InFilter_Rep then Composite (map (\<lambda>v. IsField (equal_filter (filter_field f) v)) (array_values (value_rhs f))) Or
      else IsField f)"
| "expanded (Composite fs op) = Composite (map expanded fs) op"

lemma seq_res_map: "(\<And>x. x \<in> set xs \<Longrightarrow> f x = Inr (g x)) \<Longrightarrow> seq_res f xs = Inr (map g xs)"
  by (induction xs) simp_all

lemma rep_type_In [simp]: "rep_type r = kInFilter \<longleftrightarrow> r = InFilter_Rep"
  by (cases r) simp_all

lemma FieldFilter_Create_Equal:
  "\<not> IsKeyFieldPath path \<Longrightarrow> FieldFilter_Create a path Equal v = Inr (equal_filter path v)"
  by (simp add: field_filter_creation equal_filter_def)

lemma ComputeInExpansion_expanded: "\<forall>l \<in> leaves f. in_filter_ok l \<Longrightarrow> ComputeInExpansion a f = Inr (expanded f)"
proof (induction f)
  case (IsField f)
  show ?case
  proof (cases "filter_rep f = InFilter_Rep")
    case True
    then have "\<not> IsKeyFieldPath (filter_field f)" using IsField by (simp add: in_filter_ok_def)
    then have "seq_res (\<lambda>v. FieldFilter_Create a (filter_field f) Equal (DeepClone v)) vs = Inr (map (equal_filter (filter_field f)) vs)" for vs
      by (intro seq_res_map) (simp add: FieldFilter_Create_Equal)
    then show ?thesis using True by simp
  qed simp
next
  case (Composite fs op)
  then have "seq_res (ComputeInExpansion a) fs = Inr (map expanded fs)" by (intro seq_res_map) auto
  then show ?case by simp
qed

lemma nonempty_expanded: "nonempty f \<Longrightarrow> \<forall>l \<in> leaves f. in_filter_ok l \<Longrightarrow> nonempty (expanded f)"
  by (induction f) (auto simp: in_filter_ok_def)

lemma expanded_id: "\<forall>l \<in> leaves f. filter_rep l \<noteq> InFilter_Rep \<Longrightarrow> expanded f = f"
  by (induction f) (auto intro: map_idI)

lemma Get_walk_ok:
  "value_ok v \<Longrightarrow> unique_keys v \<Longrightarrow> Get_walk v p = Some w \<Longrightarrow> value_ok w \<and> unique_keys w"
proof (induction v p rule: Get_walk.induct)
  case (2 v s p)
  obtain e where e: "FindEntry v s = Some e" "Get_walk e p = Some w" using 2 by (auto split: option.splits)
  obtain fs where v: "v = Map_value fs" using e(1) by (cases v) simp_all
  have "\<exists>k. (k, e) \<in> set fs"
    using e(1) set_dropWhileD[of _ "\<lambda>e. Compare_string (fst e) s = Ascending" fs]
    by (fastforce simp: v find_entry_def split: list.splits if_splits)
  then have "value_ok e" "unique_keys e" using 2(2,3) by (auto simp: v)
  then show ?case using 2(1) e by auto
qed simp

lemma document_field_ok:
  "document_ok doc \<Longrightarrow> document_field doc p = Some v \<Longrightarrow> value_ok v \<and> unique_keys v"
  unfolding document_ok_def document_field_def ObjectValue_Get_def by (rule Get_walk_ok) simp_all

lemma Contains_loop_True: "Contains_loop split vs w = Inr True \<Longrightarrow> \<exists>v \<in> set vs. Value_Equals split v w = Inr True"
  by (induction vs) (auto split: if_splits)

lemma in_filter_expands:
  assumes "matches split doc f" "filter_rep f = InFilter_Rep" "in_filter_ok f" "document_ok doc"
  shows "\<exists>v \<in> set (array_values (value_rhs f)). matches split doc (equal_filter (filter_field f) v)"
proof -
  obtain lhs where lhs: "document_field doc (filter_field f) = Some lhs" "Value_Contains split (value_rhs f) lhs = Inr True"
    using assms(1,2) by (auto simp: matches_def field_filter_matching split: option.splits)
  then obtain v where v: "v \<in> set (array_values (value_rhs f))" "Value_Equals split v lhs = Inr True"
    using Contains_loop_True[OF lhs(2)[unfolded Value_Contains_def]] by blast
  have okv: "value_ok v" "unique_keys v"
    using assms(2,3) v(1) by (cases "value_rhs f"; auto simp: in_filter_ok_def)+
  have okl: "value_ok lhs" "unique_keys lhs" using document_field_ok[OF assms(4) lhs(1)] by simp_all
  have "GetTypeOrder v = GetTypeOrder lhs" using v(2) by (auto simp: Value_Equals.simps[of split v lhs] Let_def split: if_splits)
  moreover have "Value_Compare split lhs (SortFields v) = Inr Same"
    using Value_Compare_key[OF okl(1) value_ok_SortFields[OF okv(1)]] value_key_SortFields[OF okv(2,1)]
      Equals_same_key[OF v(2) okv(1) okl(1) okv(2) okl(2)] by simp
  ultimately have "matches split doc (equal_filter (filter_field f) v)"
    using lhs(1) by (simp add: matches_def field_filter_matching equal_filter_def GetTypeOrder_SortFields[OF okv(2)] MatchesComparison_def)
  then show ?thesis using v(1) by blast
qed

lemma holds_expanded:
  "\<forall>l \<in> leaves f. in_filter_ok l \<Longrightarrow> document_ok doc \<Longrightarrow> holds (matches split doc) f \<Longrightarrow> holds (matches split doc) (expanded f)"
proof (induction f)
  case (IsField f)
  then show ?case using in_filter_expands[of split doc f] by auto
next
  case (Composite fs op)
  then have "\<forall>g \<in> set fs. holds (matches split doc) g \<longrightarrow> holds (matches split doc) (expanded g)" by auto
  then show ?case using Composite.prems(3) by (cases op) auto
qed

lemma normal_form_terms:
  assumes "normal_form g"
  defines "ts \<equiv> if IsSingleFieldFilter g \<or> IsFlatConjunction g then [g] else GetFilters g"
  shows "list_all conj_form ts" "holds ev g = (\<exists>t \<in> set ts. holds ev t)"
proof -
  show "list_all conj_form ts" "holds ev g = (\<exists>t \<in> set ts. holds ev t)"
    using assms(1) by (cases rule: normal_cases;
      auto simp: ts_def IsSingleFieldFilter_def IsFlatConjunction_def normal_form_def)+
qed

lemma GetDnfTerms_expanded:
  assumes "nonempty f" "\<forall>l \<in> leaves f. in_filter_ok l"
  shows "\<exists>ts. GetDnfTerms a f = Inr ts \<and> list_all conj_form ts \<and> (\<forall>ev. holds ev (expanded f) = (\<exists>t \<in> set ts. holds ev t))"
proof -
  obtain g where g: "ComputeDistributedNormalForm (expanded f) = Inr g" "normal_form_of (expanded f) g"
    using ComputeDistributedNormalForm_ok[OF nonempty_expanded[OF assms]] by auto
  then have n: "normal_form g" by (simp add: normal_form_of_def)
  have "\<not> Filter_IsEmpty f" using assms(1) by (cases f) simp_all
  then have "GetDnfTerms a f = Inr (if IsSingleFieldFilter g \<or> IsFlatConjunction g then [g] else GetFilters g)"
    using g(1) ComputeInExpansion_expanded[OF assms(2)] normal_form_IsDisjunctiveNormalForm[OF n] by (simp add: GetDnfTerms_def)
  then show ?thesis using normal_form_terms[OF n] g(2) by (auto simp: normal_form_of_def)
qed

text \<open>
  C37. The terms into which a filter is split for index lookups are field filters or flat conjunctions, computed without
  failing an assertion for every filter whose composites have parts, and they cover the filter: a document that matches
  the filter matches one of them. Without \<^verbatim>\<open>in\<close> filters nothing is added: a document that does not match the
  filter matches none.
\<close>

theorem GetDnfTerms_cover:
  assumes "nonempty f" "\<forall>l \<in> leaves f. in_filter_ok l" "document_ok doc"
  shows "\<exists>ts. GetDnfTerms a f = Inr ts \<and> (\<forall>t \<in> set ts. IsSingleFieldFilter t \<or> IsFlatConjunction t) \<and>
    (Filter_Matches split f doc = Inr True \<longrightarrow> (\<exists>t \<in> set ts. Filter_Matches split t doc = Inr True)) \<and>
    (Filter_Matches split f doc = Inr False \<and> (\<forall>l \<in> leaves f. filter_rep l \<noteq> InFilter_Rep) \<longrightarrow>
       (\<forall>t \<in> set ts. Filter_Matches split t doc \<noteq> Inr True))"
proof -
  let ?ev = "matches split doc"
  obtain ts where ts: "GetDnfTerms a f = Inr ts" "list_all conj_form ts" "holds ?ev (expanded f) = (\<exists>t \<in> set ts. holds ?ev t)"
    using GetDnfTerms_expanded[OF assms(1,2)] by blast
  have "IsSingleFieldFilter t \<or> IsFlatConjunction t" if "conj_form t" for t
    using that by (cases t) (simp_all add: IsSingleFieldFilter_def IsFlatConjunction_def)
  then have flat: "\<forall>t \<in> set ts. IsSingleFieldFilter t \<or> IsFlatConjunction t" using ts(2) by (simp add: list_all_iff)
  have "Filter_Matches split f doc = Inr True \<Longrightarrow> \<exists>t \<in> set ts. Filter_Matches split t doc = Inr True"
    using Filter_Matches_holds(1)[of split f doc True] holds_expanded[OF assms(2,3), of split] ts(2,3) conj_form_Matches
    by (metis list_all_iff)
  moreover have "Filter_Matches split t doc \<noteq> Inr True"
    if "Filter_Matches split f doc = Inr False" "\<forall>l \<in> leaves f. filter_rep l \<noteq> InFilter_Rep" "t \<in> set ts" for t
    using Filter_Matches_holds(1)[OF that(1)] Filter_Matches_holds(1)[of split t doc True] expanded_id[OF that(2)] ts(3) that(3) by auto
  ultimately show ?thesis using ts(1) flat by blast
qed

definition field_filter :: "string \<Rightarrow> Operator \<Rightarrow> Value \<Rightarrow> field_filter_rep \<Rightarrow> FieldFilter" where
  "field_filter name op v rep = \<lparr>filter_field = [name], filter_op = op, value_rhs = v, filter_rep = rep\<rparr>"

definition number_document :: MutableDocument where
  "number_document = FoundDocument [''c'', ''d''] SnapshotVersion_None [(''a'', Double_value double_one)]"

lemma number_document_field: "document_field number_document [''a''] = Some (Double_value double_one)"
  by (simp add: document_field_def number_document_def FoundDocument_def ConvertToFoundDocument_value_def InvalidDocument_def
    ObjectValue_Get_def find_entry_def string_cmp.cmp_refl)

text \<open>A conjunction with a disjunction and an \<^verbatim>\<open>in\<close> filter.\<close>

definition nested_filter :: Filter where
  "nested_filter = Composite [
     Composite [IsField (field_filter ''a'' GreaterThan (Integer_value 0) FieldFilter_Rep),
       IsField (field_filter ''b'' Equal Null_value FieldFilter_Rep)] Or,
     IsField (field_filter ''a'' In (Array_value [Double_value double_one, Null_value]) InFilter_Rep)] And"

theorem GetDnfTerms_cover_witness:
  "Filter_Matches (\<lambda>s. [s]) nested_filter number_document = Inr True \<and>
   (\<exists>ts. GetDnfTerms absl_reference nested_filter = Inr ts \<and> (\<exists>t \<in> set ts. Filter_Matches (\<lambda>s. [s]) t number_document = Inr True))"
proof -
  have "Value_Compare (\<lambda>s. [s]) (Double_value double_one) (Integer_value 0) = Inr Descending"
    using dval_double_one by (simp add: Value_Compare.simps CompareMixedNumber_value DefaultComparator_def)
  then have m: "Filter_Matches (\<lambda>s. [s]) nested_filter number_document = Inr True"
    by (simp add: nested_filter_def field_filter_def field_filter_matching number_document_field MatchesComparison_def
      Value_Contains_def Value_Equals.simps DoubleBitwiseEquals_def)
  have "nonempty nested_filter" "\<forall>l \<in> leaves nested_filter. in_filter_ok l" "document_ok number_document"
    by (simp_all add: nested_filter_def field_filter_def in_filter_ok_def IsKeyFieldPath_def first_segment_def kDocumentKeyPath_def
      document_ok_def number_document_def FoundDocument_def ConvertToFoundDocument_value_def InvalidDocument_def
      server_timestamp_ok_def kTypeKey_def)
  from GetDnfTerms_cover[OF this, of absl_reference "\<lambda>s. [s]"] m show ?thesis by blast
qed


end
