(* ===== verification/Query_Core.thy ===== *)
theory Query_Core
  imports Filter_Logic
begin

text \<open>
  Queries: \<^verbatim>\<open>core/direction.cc\<close>, \<^verbatim>\<open>core/order_by.cc\<close>, \<^verbatim>\<open>core/bound.cc\<close>, \<^verbatim>\<open>core/query.cc\<close> and the data
  of \<^verbatim>\<open>core/target.h\<close>.

  Queries are immutable; the builder methods return updated records. Memoised values are computed where they are used.
  A document comparator is the function it wraps.
\<close>

section \<open>Orders\<close>

datatype Direction = DirectionAscending | DirectionDescending

definition Direction_ApplyTo :: "Direction \<Rightarrow> ComparisonResult \<Rightarrow> ComparisonResult" where
  "Direction_ApplyTo direction result = (if direction = DirectionAscending then result else ReverseOrder result)"

record OrderBy =
  order_field :: FieldPath
  order_direction :: Direction

definition OrderBy_Compare :: "(string \<Rightarrow> string list) \<Rightarrow> OrderBy \<Rightarrow> MutableDocument \<Rightarrow> MutableDocument \<Rightarrow> ComparisonResult res" where
  "OrderBy_Compare split order lhs rhs =
     bind_res (if IsKeyFieldPath (order_field order) then Inr (DocumentKey_CompareTo (doc_key lhs) (doc_key rhs))
               else case (document_field lhs (order_field order), document_field rhs (order_field order)) of
                 (Some value1, Some value2) \<Rightarrow> Value_Compare split value1 value2
               | _ \<Rightarrow> Inl HardFail)
       (\<lambda>result. Inr (Direction_ApplyTo (order_direction order) result))"

section \<open>Bounds\<close>

record Bound =
  bound_position :: "Value list"
  bound_inclusive :: bool

definition Bound_FromValue :: "Value list \<Rightarrow> bool \<Rightarrow> Bound" where
  "Bound_FromValue position inclusive = \<lparr>bound_position = map SortFields position, bound_inclusive = inclusive\<rparr>"

definition compare_component :: "absl_strings \<Rightarrow> (string \<Rightarrow> string list) \<Rightarrow> Value \<Rightarrow> OrderBy \<Rightarrow> MutableDocument \<Rightarrow> ComparisonResult res" where
  "compare_component a split field_value order doc =
     (if order_field order = KeyFieldPath then
        bind_res (reference_key a field_value) (\<lambda>key. Inr (DocumentKey_CompareTo key (doc_key doc)))
      else case document_field doc (order_field order) of
        None \<Rightarrow> Inl HardAssert
      | Some doc_value \<Rightarrow> Value_Compare split field_value doc_value)"

fun bound_loop :: "absl_strings \<Rightarrow> (string \<Rightarrow> string list) \<Rightarrow> Value list \<Rightarrow> OrderBy list \<Rightarrow> MutableDocument \<Rightarrow> ComparisonResult res" where
  "bound_loop a split (v # vs) (order # orders) doc =
     bind_res (compare_component a split v order doc) (\<lambda>c.
       let comparison = Direction_ApplyTo (order_direction order) c
       in if comparison \<noteq> Same then Inr comparison else bound_loop a split vs orders doc)"
| "bound_loop a split _ _ doc = Inr Same"

definition CompareToDocument :: "absl_strings \<Rightarrow> (string \<Rightarrow> string list) \<Rightarrow> Bound \<Rightarrow> OrderBy list \<Rightarrow> MutableDocument \<Rightarrow> ComparisonResult res" where
  "CompareToDocument a split bound order_by doc =
     (if length (bound_position bound) \<le> length order_by then bound_loop a split (bound_position bound) order_by doc
      else Inl HardAssert)"

definition SortsBeforeDocument :: "absl_strings \<Rightarrow> (string \<Rightarrow> string list) \<Rightarrow> Bound \<Rightarrow> OrderBy list \<Rightarrow> MutableDocument \<Rightarrow> bool res" where
  "SortsBeforeDocument a split bound order_by doc =
     bind_res (CompareToDocument a split bound order_by doc) (\<lambda>comparison.
       Inr (if bound_inclusive bound then comparison = Ascending \<or> comparison = Same else comparison = Ascending))"

definition SortsAfterDocument :: "absl_strings \<Rightarrow> (string \<Rightarrow> string list) \<Rightarrow> Bound \<Rightarrow> OrderBy list \<Rightarrow> MutableDocument \<Rightarrow> bool res" where
  "SortsAfterDocument a split bound order_by doc =
     bind_res (CompareToDocument a split bound order_by doc) (\<lambda>comparison.
       Inr (if bound_inclusive bound then comparison = Descending \<or> comparison = Same else comparison = Descending))"

section \<open>Queries\<close>

datatype LimitType = LimitNone | LimitFirst | LimitLast

record Query =
  query_path :: ResourcePath
  collection_group :: "string option"
  query_filters :: "Filter list"
  explicit_order_bys :: "OrderBy list"
  query_limit :: int
  limit_type :: LimitType
  start_at :: "Bound option"
  end_at :: "Bound option"

record Target =
  target_path :: ResourcePath
  target_collection_group :: "string option"
  target_filters :: "Filter list"
  target_order_bys :: "OrderBy list"
  target_limit :: int
  target_start_at :: "Bound option"
  target_end_at :: "Bound option"

definition kNoLimit :: int where "kNoLimit = 2 ^ 31 - 1"

definition make_Query :: "ResourcePath \<Rightarrow> string option \<Rightarrow> Query" where
  "make_Query path cg = \<lparr>query_path = path, collection_group = cg, query_filters = [], explicit_order_bys = [],
     query_limit = kNoLimit, limit_type = LimitNone, start_at = None, end_at = None\<rparr>"

definition IsDocumentQuery :: "Query \<Rightarrow> bool" where
  "IsDocumentQuery q \<longleftrightarrow> IsDocumentKey (query_path q) \<and> collection_group q = None \<and> query_filters q = []"

definition MatchesAllDocuments :: "Query \<Rightarrow> bool" where
  "MatchesAllDocuments q \<longleftrightarrow> query_filters q = [] \<and> query_limit q = kNoLimit \<and> start_at q = None \<and> end_at q = None \<and>
     (case explicit_order_bys q of [] \<Rightarrow> True | [order] \<Rightarrow> IsKeyFieldPath (order_field order) | _ \<Rightarrow> False)"

definition InequalityFilterFields :: "Query \<Rightarrow> FieldPath list" where
  "InequalityFilterFields q =
     fold (set_insert Path_CompareTo)
       (map filter_field (filter IsInequality (concat (map GetFlattenedFilters (query_filters q))))) []"

definition FindOpInsideFilters :: "Query \<Rightarrow> Operator list \<Rightarrow> Operator option" where
  "FindOpInsideFilters q ops =
     find (\<lambda>op. op \<in> set ops) (map filter_op (concat (map GetFlattenedFilters (query_filters q))))"

definition normalized_order_bys :: "Query \<Rightarrow> OrderBy list" where
  "normalized_order_bys q =
     (let explicit = explicit_order_bys q;
          fieldsNormalized = set (map order_field explicit);
          last_direction = (if explicit = [] then DirectionAscending else order_direction (last explicit));
          implicit = map (\<lambda>field. \<lparr>order_field = field, order_direction = last_direction\<rparr>)
            (filter (\<lambda>field. field \<notin> fieldsNormalized \<and> \<not> IsKeyFieldPath field) (InequalityFilterFields q));
          key = (if KeyFieldPath \<in> fieldsNormalized then []
                 else [\<lparr>order_field = KeyFieldPath, order_direction = last_direction\<rparr>])
      in explicit @ implicit @ key)"

definition query_limit_value :: "Query \<Rightarrow> int res" where
  "query_limit_value q = (if limit_type q \<noteq> LimitNone then Inr (query_limit q) else Inl HardAssert)"

subsection \<open>Builder methods\<close>

definition Query_AddingFilter :: "Query \<Rightarrow> Filter \<Rightarrow> Query res" where
  "Query_AddingFilter q f = (if IsDocumentQuery q then Inl HardAssert else Inr (q\<lparr>query_filters := query_filters q @ [f]\<rparr>))"

definition Query_AddingOrderBy :: "Query \<Rightarrow> OrderBy \<Rightarrow> Query res" where
  "Query_AddingOrderBy q order =
     (if IsDocumentQuery q then Inl HardAssert else Inr (q\<lparr>explicit_order_bys := explicit_order_bys q @ [order]\<rparr>))"

definition WithLimitToFirst :: "Query \<Rightarrow> int \<Rightarrow> Query" where
  "WithLimitToFirst q l = q\<lparr>query_limit := l, limit_type := LimitFirst\<rparr>"

definition WithLimitToLast :: "Query \<Rightarrow> int \<Rightarrow> Query" where
  "WithLimitToLast q l = q\<lparr>query_limit := l, limit_type := LimitLast\<rparr>"

definition StartingAt :: "Query \<Rightarrow> Bound \<Rightarrow> Query" where
  "StartingAt q bound = q\<lparr>start_at := Some bound\<rparr>"

definition EndingAt :: "Query \<Rightarrow> Bound \<Rightarrow> Query" where
  "EndingAt q bound = q\<lparr>end_at := Some bound\<rparr>"

definition AsCollectionQueryAtPath :: "Query \<Rightarrow> ResourcePath \<Rightarrow> Query" where
  "AsCollectionQueryAtPath q path = q\<lparr>query_path := path, collection_group := None\<rparr>"

subsection \<open>Matching\<close>

definition MatchesPathAndCollectionGroup :: "Query \<Rightarrow> MutableDocument \<Rightarrow> bool" where
  "MatchesPathAndCollectionGroup q doc = (case collection_group q of
     Some cg \<Rightarrow> HasCollectionGroup (doc_key doc) cg \<and> IsPrefixOf (query_path q) (doc_key doc)
   | None \<Rightarrow> if IsDocumentKey (query_path q) then query_path q = doc_key doc
       else IsImmediateParentOf (query_path q) (doc_key doc))"

definition MatchesOrderBy :: "Query \<Rightarrow> MutableDocument \<Rightarrow> bool" where
  "MatchesOrderBy q doc \<longleftrightarrow>
     list_all (\<lambda>order. order_field order = KeyFieldPath \<or> document_field doc (order_field order) \<noteq> None) (normalized_order_bys q)"

definition MatchesBounds :: "absl_strings \<Rightarrow> (string \<Rightarrow> string list) \<Rightarrow> Query \<Rightarrow> MutableDocument \<Rightarrow> bool res" where
  "MatchesBounds a split q doc =
     bind_res (case start_at q of None \<Rightarrow> Inr True | Some b \<Rightarrow> SortsBeforeDocument a split b (normalized_order_bys q) doc) (\<lambda>starts.
       if \<not> starts then Inr False
       else case end_at q of None \<Rightarrow> Inr True | Some b \<Rightarrow> SortsAfterDocument a split b (normalized_order_bys q) doc)"

definition Query_Matches :: "absl_strings \<Rightarrow> (string \<Rightarrow> string list) \<Rightarrow> Query \<Rightarrow> MutableDocument \<Rightarrow> bool res" where
  "Query_Matches a split q doc =
     (if \<not> (is_found_document doc \<and> MatchesPathAndCollectionGroup q doc \<and> MatchesOrderBy q doc) then Inr False
      else bind_res (Matches_all split (query_filters q) doc) (\<lambda>b. if \<not> b then Inr False else MatchesBounds a split q doc))"

fun compare_documents :: "(string \<Rightarrow> string list) \<Rightarrow> OrderBy list \<Rightarrow> MutableDocument \<Rightarrow> MutableDocument \<Rightarrow> ComparisonResult res" where
  "compare_documents split [] doc1 doc2 = Inr Same"
| "compare_documents split (order # orders) doc1 doc2 =
     bind_res (OrderBy_Compare split order doc1 doc2) (\<lambda>comp.
       if comp \<noteq> Same then Inr comp else compare_documents split orders doc1 doc2)"

definition Query_Comparator :: "(string \<Rightarrow> string list) \<Rightarrow> Query \<Rightarrow> (MutableDocument \<Rightarrow> MutableDocument \<Rightarrow> ComparisonResult res) res" where
  "Query_Comparator split q =
     (let orders = normalized_order_bys q
      in if list_ex (\<lambda>order. order_field order = KeyFieldPath) orders then Inr (compare_documents split orders)
         else Inl HardFail)"

subsection \<open>Targets\<close>

definition flip_order :: "OrderBy \<Rightarrow> OrderBy" where
  "flip_order order = order\<lparr>order_direction :=
     (if order_direction order = DirectionDescending then DirectionAscending else DirectionDescending)\<rparr>"

definition rebuild_bound :: "Bound option \<Rightarrow> Bound option" where
  "rebuild_bound = map_option (\<lambda>b. Bound_FromValue (bound_position b) (bound_inclusive b))"

definition ToTarget_ordered :: "Query \<Rightarrow> OrderBy list \<Rightarrow> Target" where
  "ToTarget_ordered q order_bys =
     (if limit_type q = LimitLast then
        \<lparr>target_path = query_path q, target_collection_group = collection_group q, target_filters = query_filters q,
         target_order_bys = map flip_order order_bys, target_limit = query_limit q,
         target_start_at = rebuild_bound (end_at q), target_end_at = rebuild_bound (start_at q)\<rparr>
      else
        \<lparr>target_path = query_path q, target_collection_group = collection_group q, target_filters = query_filters q,
         target_order_bys = order_bys, target_limit = query_limit q,
         target_start_at = start_at q, target_end_at = end_at q\<rparr>)"

definition ToTarget :: "Query \<Rightarrow> Target" where
  "ToTarget q = ToTarget_ordered q (normalized_order_bys q)"

definition ToAggregateTarget :: "Query \<Rightarrow> Target" where
  "ToAggregateTarget q = ToTarget_ordered q (explicit_order_bys q)"

section \<open>The order of the results\<close>

lemma IsKeyFieldPath_iff: "IsKeyFieldPath p \<longleftrightarrow> p = KeyFieldPath"
  by (cases p) (auto simp: IsKeyFieldPath_def KeyFieldPath_def first_segment_def)

lemma comparator_then:
  assumes "comparator c" "comparator d"
  shows "comparator (\<lambda>x y. then_cmp (c x y) (d x y))"
proof
  fix x y z
  show "then_cmp (c x x) (d x x) = Same"
    using comparator.cmp_refl[OF assms(1)] comparator.cmp_refl[OF assms(2)] by simp
  show "then_cmp (c y x) (d y x) = ReverseOrder (then_cmp (c x y) (d x y))"
    using comparator.cmp_sym[OF assms(1), of x y] comparator.cmp_sym[OF assms(2), of x y]
    by (cases "c x y") simp_all
  show "then_cmp (c x z) (d x z) \<noteq> Descending"
    if "then_cmp (c x y) (d x y) \<noteq> Descending" "then_cmp (c y z) (d y z) \<noteq> Descending"
    using that comparator.cmp_chain[OF assms(1), of x y z] comparator.cmp_trans[OF assms(2), of x y z]
    by (cases "c x y"; cases "c y z") simp_all
qed

lemma comparator_direction:
  assumes "comparator c"
  shows "comparator (\<lambda>x y. Direction_ApplyTo dir (c x y))"
proof
  fix x y z
  show "Direction_ApplyTo dir (c x x) = Same" using comparator.cmp_refl[OF assms] by (simp add: Direction_ApplyTo_def)
  show "Direction_ApplyTo dir (c y x) = ReverseOrder (Direction_ApplyTo dir (c x y))"
    using comparator.cmp_sym[OF assms, of x y] by (simp add: Direction_ApplyTo_def)
  show "Direction_ApplyTo dir (c x z) \<noteq> Descending"
    if "Direction_ApplyTo dir (c x y) \<noteq> Descending" "Direction_ApplyTo dir (c y z) \<noteq> Descending"
    using that comparator.cmp_trans[OF assms, of x y z] comparator.cmp_trans[OF assms, of z y x]
    by (simp add: Direction_ApplyTo_def comparator.not_Descending_iff[OF assms, of z] comparator.not_Descending_iff[OF assms, of y x]
      split: if_splits)
qed

text \<open>The comparison of documents that have all fields, as a total function.\<close>

definition order_cmp :: "(string \<Rightarrow> string list) \<Rightarrow> OrderBy \<Rightarrow> MutableDocument cmp" where
  "order_cmp split order x y = Direction_ApplyTo (order_direction order)
     (if IsKeyFieldPath (order_field order) then DocumentKey_CompareTo (doc_key x) (doc_key y)
      else compare_keys (value_key split (the (document_field x (order_field order))))
        (value_key split (the (document_field y (order_field order)))))"

fun orders_cmp :: "(string \<Rightarrow> string list) \<Rightarrow> OrderBy list \<Rightarrow> MutableDocument cmp" where
  "orders_cmp split [] x y = Same"
| "orders_cmp split (order # orders) x y = then_cmp (order_cmp split order x y) (orders_cmp split orders x y)"

definition has_fields :: "OrderBy list \<Rightarrow> MutableDocument \<Rightarrow> bool" where
  "has_fields orders doc \<longleftrightarrow>
     list_all (\<lambda>order. order_field order = KeyFieldPath \<or> document_field doc (order_field order) \<noteq> None) orders"

lemma order_cmp_comparator: "comparator (order_cmp split order)"
proof -
  have "comparator (\<lambda>x y. if IsKeyFieldPath (order_field order) then DocumentKey_CompareTo (doc_key x) (doc_key y)
      else compare_keys (value_key split (the (document_field x (order_field order))))
        (value_key split (the (document_field y (order_field order)))))" (is "comparator ?c")
  proof (cases "IsKeyFieldPath (order_field order)")
    case True
    then show ?thesis using comparator_on[OF key_cmp.comparator_axioms, of ?c doc_key] by simp
  next
    case False
    then show ?thesis
      using comparator_on[OF keys_cmp.comparator_axioms, of ?c "\<lambda>x. value_key split (the (document_field x (order_field order)))"] by simp
  qed
  then show ?thesis unfolding order_cmp_def[abs_def] by (rule comparator_direction)
qed

lemma orders_cmp_comparator: "comparator (orders_cmp split orders)"
proof (induction orders)
  case Nil
  then show ?case by unfold_locales simp_all
next
  case (Cons order orders)
  show ?case unfolding orders_cmp.simps[abs_def] by (rule comparator_then[OF order_cmp_comparator Cons])
qed

lemma OrderBy_Compare_total:
  assumes "has_fields [order] x" "has_fields [order] y" "document_ok x" "document_ok y"
  shows "OrderBy_Compare split order x y = Inr (order_cmp split order x y)"
proof (cases "IsKeyFieldPath (order_field order)")
  case False
  then obtain v w where "document_field x (order_field order) = Some v" "document_field y (order_field order) = Some w"
    using assms(1,2) by (auto simp: has_fields_def IsKeyFieldPath_iff)
  then show ?thesis using False document_field_ok[OF assms(3)] document_field_ok[OF assms(4)]
    by (simp add: OrderBy_Compare_def order_cmp_def Value_Compare_key)
qed (simp add: OrderBy_Compare_def order_cmp_def)

lemma compare_documents_total:
  "has_fields orders x \<Longrightarrow> has_fields orders y \<Longrightarrow> document_ok x \<Longrightarrow> document_ok y \<Longrightarrow>
   compare_documents split orders x y = Inr (orders_cmp split orders x y)"
proof (induction orders)
  case (Cons order orders)
  then have "OrderBy_Compare split order x y = Inr (order_cmp split order x y)"
    by (intro OrderBy_Compare_total) (simp_all add: has_fields_def)
  then show ?case using Cons by (simp add: has_fields_def then_cmp_def)
qed simp

lemma orders_cmp_Same_key:
  "\<exists>order \<in> set orders. order_field order = KeyFieldPath \<Longrightarrow> orders_cmp split orders x y = Same \<Longrightarrow> doc_key x = doc_key y"
proof (induction orders)
  case (Cons order orders)
  then show ?case
    by (auto simp: then_cmp_def order_cmp_def IsKeyFieldPath_iff Direction_ApplyTo_def split: if_splits)
qed simp

lemma normalized_order_bys_key: "\<exists>order \<in> set (normalized_order_bys q). order_field order = KeyFieldPath"
proof (cases "KeyFieldPath \<in> set (map order_field (explicit_order_bys q))")
  case True
  then obtain order where "order \<in> set (explicit_order_bys q)" "order_field order = KeyFieldPath" by auto
  then show ?thesis by (auto simp: normalized_order_bys_def Let_def)
qed (auto simp: normalized_order_bys_def Let_def)

lemma Query_Matches_has_fields: "Query_Matches a split q doc = Inr True \<Longrightarrow> has_fields (normalized_order_bys q) doc"
  by (auto simp: Query_Matches_def MatchesOrderBy_def has_fields_def split: if_splits)

text \<open>
  C39. On well-formed documents that match a query, the comparator of the query never fails and is a total order up to
  the document: reflexive, opposite when the arguments are swapped, transitive, and it identifies only documents with
  the same key, because the orders of a query always contain the key.
\<close>

theorem Query_Comparator_total_order:
  assumes "Query_Matches a split q x = Inr True" "Query_Matches a split q y = Inr True" "Query_Matches a split q z = Inr True"
    "document_ok x" "document_ok y" "document_ok z"
  shows "\<exists>cmp. Query_Comparator split q = Inr cmp \<and> cmp x x = Inr Same \<and>
    (\<exists>c. cmp x y = Inr c \<and> cmp y x = Inr (ReverseOrder c) \<and> (c = Same \<longrightarrow> doc_key x = doc_key y)) \<and>
    (cmp x y \<noteq> Inr Descending \<longrightarrow> cmp y z \<noteq> Inr Descending \<longrightarrow> cmp x z \<noteq> Inr Descending)"
proof -
  let ?orders = "normalized_order_bys q"
  have "Query_Comparator split q = Inr (compare_documents split ?orders)"
    using normalized_order_bys_key[of q] by (auto simp: Query_Comparator_def list_ex_iff)
  then show ?thesis
    using compare_documents_total[of ?orders] assms(4-6) assms(1-3)[THEN Query_Matches_has_fields]
      comparator.cmp_refl[OF orders_cmp_comparator[of split ?orders], of x]
      comparator.cmp_sym[OF orders_cmp_comparator[of split ?orders], of y x]
      comparator.cmp_trans[OF orders_cmp_comparator[of split ?orders], of x y z]
      orders_cmp_Same_key[OF normalized_order_bys_key[of q], of split x y]
    by simp
qed

definition sample_query :: Query where
  "sample_query = (make_Query [''c''] None)\<lparr>query_filters := [IsField (field_filter ''a'' GreaterThan (Integer_value 0) FieldFilter_Rep)]\<rparr>"

definition sample_document :: "string \<Rightarrow> int64 \<Rightarrow> MutableDocument" where
  "sample_document name n = FoundDocument [''c'', name] SnapshotVersion_None [(''a'', Integer_value n)]"

lemma sample_document_ok: "document_ok (sample_document name n)"
  by (simp add: document_ok_def sample_document_def FoundDocument_def ConvertToFoundDocument_value_def InvalidDocument_def
    server_timestamp_ok_def kTypeKey_def)

lemma sample_document_field: "document_field (sample_document name n) [''a''] = Some (Integer_value n)"
  by (simp add: document_field_def sample_document_def FoundDocument_def ConvertToFoundDocument_value_def InvalidDocument_def
    ObjectValue_Get_def find_entry_def)

lemma sample_matches: "0 < sint n \<Longrightarrow> Query_Matches a split sample_query (sample_document name n) = Inr True"
proof -
  assume n: "0 < sint n"
  have k: "[''a''] \<noteq> KeyFieldPath" by (simp add: KeyFieldPath_def kDocumentKeyPath_def)
  have o: "normalized_order_bys sample_query = [\<lparr>order_field = [''a''], order_direction = DirectionAscending\<rparr>,
      \<lparr>order_field = KeyFieldPath, order_direction = DirectionAscending\<rparr>]"
    using k by (simp add: normalized_order_bys_def sample_query_def make_Query_def InequalityFilterFields_def sliced_def
      field_filter_def IsInequality_def IsKeyFieldPath_iff)
  have "Value_Compare split (Integer_value n) (Integer_value 0) = Inr Descending"
    using n by (simp add: Value_Compare.simps Compare_int64_def DefaultComparator_def)
  moreover have "doc_key (sample_document name n) = [''c'', name]" "is_found_document (sample_document name n)"
    by (simp_all add: sample_document_def FoundDocument_def ConvertToFoundDocument_value_def InvalidDocument_def is_found_document_def)
  ultimately show ?thesis
    by (simp add: Query_Matches_def MatchesPathAndCollectionGroup_def MatchesOrderBy_def MatchesBounds_def o sample_document_field)
      (simp add: sample_query_def make_Query_def field_filter_def field_filter_matching sample_document_field
        MatchesComparison_def IsDocumentKey_def IsImmediateParentOf_def, blast)
qed

theorem Query_Comparator_total_order_witness:
  "\<exists>cmp c. Query_Comparator (\<lambda>s. [s]) sample_query = Inr cmp \<and>
     cmp (sample_document ''x'' 1) (sample_document ''y'' 2) = Inr c \<and> cmp (sample_document ''y'' 2) (sample_document ''x'' 1) = Inr (ReverseOrder c)"
proof -
  have m: "Query_Matches absl_reference (\<lambda>s. [s]) sample_query (sample_document name n) = Inr True" if "n = 1 \<or> n = 2" for name n
    using that by (intro sample_matches) auto
  show ?thesis
    using Query_Comparator_total_order[OF m[of 1 "''x''"] m[of 2 "''y''"] m[of 1 "''x''"] sample_document_ok sample_document_ok sample_document_ok]
    by auto
qed

section \<open>Limiting to the last results\<close>

lemma flip_order_ApplyTo:
  "Direction_ApplyTo (order_direction (flip_order order)) c = ReverseOrder (Direction_ApplyTo (order_direction order) c)"
  by (cases "order_direction order") (simp_all add: flip_order_def Direction_ApplyTo_def)

lemma flip_order_field [simp]: "order_field (flip_order order) = order_field order"
  by (simp add: flip_order_def)

lemma bind_res_assoc: "bind_res (bind_res m f) g = bind_res m (\<lambda>x. bind_res (f x) g)"
  by (cases m) simp_all

lemma OrderBy_Compare_flip:
  "OrderBy_Compare split (flip_order order) x y = bind_res (OrderBy_Compare split order x y) (\<lambda>c. Inr (ReverseOrder c))"
  by (simp add: OrderBy_Compare_def bind_res_assoc flip_order_ApplyTo)

lemma compare_documents_flip:
  "compare_documents split (map flip_order orders) x y = bind_res (compare_documents split orders x y) (\<lambda>c. Inr (ReverseOrder c))"
proof (induction orders)
  case (Cons order orders)
  show ?case
    by (cases "OrderBy_Compare split order x y") (simp_all add: OrderBy_Compare_flip Cons)
qed simp

definition bound_ok :: "Bound \<Rightarrow> bool" where
  "bound_ok b \<longleftrightarrow> list_all (\<lambda>v. value_ok v \<and> unique_keys v) (bound_position b)"

lemma reference_key_SortFields [simp]: "reference_key a (SortFields v) = reference_key a v"
proof (cases v)
  case (Map_value fs)
  then show ?thesis using SortFields_Map[of fs] by simp
qed simp_all

lemma compare_component_SortFields:
  assumes "value_ok v" "unique_keys v" "document_ok doc"
  shows "compare_component a split (SortFields v) order doc = compare_component a split v order doc"
proof -
  have "Value_Compare split (SortFields v) w = Value_Compare split v w" if "document_field doc p = Some w" for w p
    using document_field_ok[OF assms(3) that] assms(1,2)
    by (simp add: Value_Compare_key value_ok_SortFields value_key_SortFields)
  then show ?thesis by (simp add: compare_component_def split: option.split)
qed

lemma bound_loop_flip:
  assumes "document_ok doc"
  shows "list_all (\<lambda>v. value_ok v \<and> unique_keys v) vs \<Longrightarrow> bound_loop a split (map SortFields vs) (map flip_order orders) doc =
   bind_res (bound_loop a split vs orders doc) (\<lambda>c. Inr (ReverseOrder c))"
proof (induction vs orders rule: list_induct2')
  case (4 v vs order orders)
  have "compare_component a split (SortFields v) (flip_order order) doc = compare_component a split v order doc"
    using compare_component_SortFields[OF _ _ assms, of v a split "flip_order order"] 4 by (simp add: compare_component_def)
  then show ?case using 4
    by (cases "compare_component a split v order doc") (simp_all add: flip_order_ApplyTo Let_def)
qed simp_all

lemma CompareToDocument_flip:
  assumes "document_ok doc" "bound_ok b"
  shows "CompareToDocument a split (Bound_FromValue (bound_position b) (bound_inclusive b)) (map flip_order orders) doc =
    bind_res (CompareToDocument a split b orders doc) (\<lambda>c. Inr (ReverseOrder c))"
  using assms bound_loop_flip[of doc "bound_position b"] by (simp add: CompareToDocument_def Bound_FromValue_def bound_ok_def)

lemma SortsBefore_flip:
  assumes "document_ok doc" "bound_ok b"
  shows "SortsBeforeDocument a split (Bound_FromValue (bound_position b) (bound_inclusive b)) (map flip_order orders) doc =
      SortsAfterDocument a split b orders doc"
    "SortsAfterDocument a split (Bound_FromValue (bound_position b) (bound_inclusive b)) (map flip_order orders) doc =
      SortsBeforeDocument a split b orders doc"
  unfolding SortsBeforeDocument_def SortsAfterDocument_def CompareToDocument_flip[OF assms]
  by (cases "CompareToDocument a split b orders doc"; simp add: Bound_FromValue_def)+

definition within_bounds :: "absl_strings \<Rightarrow> (string \<Rightarrow> string list) \<Rightarrow> Bound option \<Rightarrow> Bound option \<Rightarrow> OrderBy list \<Rightarrow> MutableDocument \<Rightarrow> bool res \<times> bool res" where
  "within_bounds a split starts ends orders doc =
     (case starts of None \<Rightarrow> Inr True | Some b \<Rightarrow> SortsBeforeDocument a split b orders doc,
      case ends of None \<Rightarrow> Inr True | Some b \<Rightarrow> SortsAfterDocument a split b orders doc)"

text \<open>
  C40. The target of a query that is limited to its last results asks for the first results of the mirrored query: it
  compares documents exactly the other way round, with the same failures, its start bound admits the documents that the
  query's end bound admits and the other way round, and filters, path and limit are those of the query.
\<close>

theorem limit_to_last_mirrors:
  assumes "limit_type q = LimitLast" "document_ok doc" "\<forall>b. start_at q = Some b \<or> end_at q = Some b \<longrightarrow> bound_ok b"
  shows "(\<forall>x y. compare_documents split (target_order_bys (ToTarget q)) x y =
       bind_res (compare_documents split (normalized_order_bys q) x y) (\<lambda>c. Inr (ReverseOrder c))) \<and>
     within_bounds a split (target_start_at (ToTarget q)) (target_end_at (ToTarget q)) (target_order_bys (ToTarget q)) doc =
       prod.swap (within_bounds a split (start_at q) (end_at q) (normalized_order_bys q) doc) \<and>
     target_filters (ToTarget q) = query_filters q \<and> target_path (ToTarget q) = query_path q \<and>
     target_collection_group (ToTarget q) = collection_group q \<and> target_limit (ToTarget q) = query_limit q"
  using assms(1) SortsBefore_flip[OF assms(2)] assms(3)
  by (auto simp: ToTarget_def ToTarget_ordered_def compare_documents_flip within_bounds_def rebuild_bound_def split: option.split)

theorem limit_to_last_mirrors_witness:
  "let q = (WithLimitToLast sample_query 3)\<lparr>start_at := Some \<lparr>bound_position = [Integer_value 1], bound_inclusive = False\<rparr>\<rparr>
   in limit_type q = LimitLast \<and> document_ok (sample_document ''x'' 2) \<and>
     within_bounds absl_reference (\<lambda>s. [s]) (target_start_at (ToTarget q)) (target_end_at (ToTarget q)) (target_order_bys (ToTarget q))
       (sample_document ''x'' 2) =
     prod.swap (within_bounds absl_reference (\<lambda>s. [s]) (start_at q) (end_at q) (normalized_order_bys q) (sample_document ''x'' 2))"
  unfolding Let_def
  by (intro conjI sample_document_ok conjunct1[OF conjunct2[OF limit_to_last_mirrors]])
    (simp_all add: WithLimitToLast_def sample_document_ok bound_ok_def sample_query_def make_Query_def)

end
