(* ===== verification/Document_Set.thy ===== *)
theory Document_Set
  imports Sorted_Map Query_Core
begin

text \<open>
  Sets of documents, \<^verbatim>\<open>model/document_set.cc\<close>: a dictionary from keys to documents and, over the same documents, a sorted
  set ordered by the comparator of a query, both immutable sorted maps.

  A document comparator aborts the program when it compares a document that lacks a field of the order. The comparator of
  a set is a total function here (\<open>DocumentComparator_of\<close>), which runs the comparator of the query and places documents
  outside its domain after all others; the sets that views build contain no such document.
\<close>

section \<open>Dictionaries\<close>

text \<open>Sorted maps whose comparator identifies only equal keys are finite maps.\<close>

locale dictionary = key_comparator cmp + strong_comparator cmp
  for cmp :: "'k::default cmp"
begin

lemma dict_insert:
  fixes m :: "('k, 'v::default) SortedMap"
  assumes "sorted_map_inv cmp m" "SortedMap_size m < tree_capacity"
  shows "\<exists>m'. SortedMap_insert m k v = Inr m' \<and> sorted_map_inv cmp m' \<and> SortedMap_get m' = (SortedMap_get m)(k \<mapsto> v)"
proof -
  have len: "length (SortedMap_entries m) < tree_capacity" using assms(2) SortedMap_size_entries[OF assms(1)] by simp
  from sorted_map_insert_contract[OF assms(1) len, of k v] obtain m' where
    m: "SortedMap_insert m k v = Inr m'" "sorted_map_inv cmp m'" by blast
  then show ?thesis using SortedMap_lookup_insert[OF assms(1) len m(1)] by (intro exI[of _ m']) (auto simp: fun_eq_iff)
qed

lemma dict_erase:
  fixes m :: "('k, 'v::default) SortedMap"
  assumes "sorted_map_inv cmp m"
  shows "\<exists>m'. SortedMap_erase m k = Inr m' \<and> sorted_map_inv cmp m' \<and> SortedMap_get m' = (SortedMap_get m)(k := None)"
proof -
  from sorted_map_erase_contract[OF assms, of k] obtain m' where
    m: "SortedMap_erase m k = Inr m'" "sorted_map_inv cmp m'" by blast
  then show ?thesis using SortedMap_lookup_erase[OF assms m(1)] by (intro exI[of _ m']) (auto simp: fun_eq_iff)
qed

lemma get_entries_iff:
  "sorted_entries cmp xs \<Longrightarrow> get_entries cmp xs k = Some v \<longleftrightarrow> (k, v) \<in> set xs"
proof (induction xs)
  case (Cons p xs)
  obtain a b where p: "p = (a, b)" by fastforce
  have "(k, v) \<notin> set xs" if "a = k" using Cons.prems that by (auto simp: p entries_above_def cmp_refl)
  then show ?case using Cons by (auto simp: p)
qed simp

lemma dict_entries:
  fixes m :: "('k, 'v::default) SortedMap"
  assumes "sorted_map_inv cmp m"
  shows "(k, v) \<in> set (SortedMap_entries m) \<longleftrightarrow> SortedMap_get m k = Some v"
  using get_entries_iff[OF smap.sorted_m[OF assms]] smap.lookup_m[OF assms] by simp

lemma dict_size:
  fixes m :: "('k, 'v::default) SortedMap"
  assumes "sorted_map_inv cmp m"
  shows "finite (dom (SortedMap_get m))" "SortedMap_size m = card (dom (SortedMap_get m))"
proof -
  have d: "dom (SortedMap_get m) = set (map fst (SortedMap_entries m))"
    using dict_entries[OF assms] by (force simp: dom_def image_iff)
  have "distinct (map fst (SortedMap_entries m))" by (rule sorted_entries_distinct[OF smap.sorted_m[OF assms]])
  from distinct_card[OF this] show "SortedMap_size m = card (dom (SortedMap_get m))"
    using d SortedMap_size_entries[OF assms] by (metis length_map)
  show "finite (dom (SortedMap_get m))" using d by (metis List.finite_set)
qed

lemma dict_contains:
  fixes m :: "('k, 'v::default) SortedMap"
  assumes "sorted_map_inv cmp m"
  shows "SortedMap_contains m k \<longleftrightarrow> k \<in> dom (SortedMap_get m)"
  using SortedMap_contains_get[OF assms] by auto

end

interpretation key_dict: dictionary DocumentKey_CompareTo
  by unfold_locales

type_synonym DocumentKeySet = "DocumentKey SortedSet"

abbreviation key_map_inv :: "(DocumentKey, 'v) SortedMap \<Rightarrow> bool" where
  "key_map_inv \<equiv> sorted_map_inv DocumentKey_CompareTo"

definition keys_in :: "DocumentKeySet \<Rightarrow> DocumentKey set" where
  "keys_in s = dom (SortedMap_get s)"

lemma keys_in_insert:
  assumes "key_map_inv s" "card (keys_in s) < tree_capacity"
  shows "\<exists>s'. SortedSet_insert s k = Inr s' \<and> key_map_inv s' \<and> keys_in s' = insert k (keys_in s)"
  using key_dict.dict_insert[OF assms(1), of k "()"] assms key_dict.dict_size(2)[OF assms(1)]
  by (auto simp: SortedSet_insert_def keys_in_def)

lemma keys_in_erase:
  assumes "key_map_inv s"
  shows "\<exists>s'. SortedSet_erase s k = Inr s' \<and> key_map_inv s' \<and> keys_in s' = keys_in s - {k}"
  using key_dict.dict_erase[OF assms, of k] by (auto simp: SortedSet_erase_def keys_in_def)

lemma keys_in_contains: "key_map_inv s \<Longrightarrow> SortedSet_contains s k \<longleftrightarrow> k \<in> keys_in s"
  by (simp add: SortedSet_contains_def keys_in_def key_dict.dict_contains)

lemma keys_in_finite: "key_map_inv s \<Longrightarrow> finite (keys_in s)"
  by (simp add: keys_in_def key_dict.dict_size)

lemma keys_in_entries: "key_map_inv s \<Longrightarrow> set (map fst (SortedMap_entries s)) = keys_in s"
  using key_dict.dict_entries[of s] by (force simp: keys_in_def dom_def image_iff)

lemma keys_in_new [simp]: "keys_in (SortedSet_new DocumentKey_CompareTo) = {}" "key_map_inv (SortedSet_new DocumentKey_CompareTo)"
  by (simp_all add: keys_in_def SortedSet_new_def dom_def)

lemma keys_in_empty: "key_map_inv s \<Longrightarrow> SortedMap_empty s \<longleftrightarrow> keys_in s = {}"
  using key_dict.dict_size[of s] by (cases s) (auto simp: keys_in_def ArraySortedMap_empty_def TreeSortedMap_empty_def
    TreeSortedMap_size_def node_empty_def)

section \<open>Document sets\<close>

instantiation MutableDocument_ext :: (default) default
begin

definition default_MutableDocument_ext :: "'a MutableDocument_ext" where
  "default_MutableDocument_ext =
     MutableDocument_ext [] kInvalid SnapshotVersion_None SnapshotVersion_None ObjectValue_new kSynced default"

instance ..

end

type_synonym DocumentMap = "(DocumentKey, MutableDocument) SortedMap"

record DocumentSet =
  doc_index :: DocumentMap
  sorted_set :: "MutableDocument SortedSet"

definition DocumentComparator_ByKey :: "MutableDocument cmp" where
  "DocumentComparator_ByKey lhs rhs = DocumentKey_CompareTo (doc_key lhs) (doc_key rhs)"

definition DocumentSet_new :: "MutableDocument cmp \<Rightarrow> DocumentSet" where
  "DocumentSet_new cmp = \<lparr>doc_index = SortedMap_new DocumentKey_CompareTo, sorted_set = SortedSet_new cmp\<rparr>"

definition DocumentSet_comparator :: "DocumentSet \<Rightarrow> MutableDocument cmp" where
  "DocumentSet_comparator s = SortedMap_comparator (sorted_set s)"

definition DocumentSet_size :: "DocumentSet \<Rightarrow> nat" where
  "DocumentSet_size s = SortedMap_size (doc_index s)"

definition DocumentSet_empty :: "DocumentSet \<Rightarrow> bool" where
  "DocumentSet_empty s = SortedMap_empty (doc_index s)"

definition ContainsKey :: "DocumentSet \<Rightarrow> DocumentKey \<Rightarrow> bool" where
  "ContainsKey s key \<longleftrightarrow> \<not> SortedMapIterator_eq (SortedMap_find (doc_index s) key) (SortedMap_end (doc_index s))"

definition GetDocument :: "DocumentSet \<Rightarrow> DocumentKey \<Rightarrow> MutableDocument option" where
  "GetDocument s key = SortedMap_get (doc_index s) key"

definition document_at :: "MutableDocument SortedSet \<Rightarrow> (MutableDocument, unit) SortedMapIterator \<Rightarrow> MutableDocument option res" where
  "document_at s result =
     (if \<not> SortedMapIterator_eq result (SortedMap_end s) then bind_res (SortedMapIterator_get result) (\<lambda>e. Inr (Some (fst e)))
      else Inr None)"

definition GetFirstDocument :: "DocumentSet \<Rightarrow> MutableDocument option res" where
  "GetFirstDocument s = document_at (sorted_set s) (SortedMap_min (sorted_set s))"

definition GetLastDocument :: "DocumentSet \<Rightarrow> MutableDocument option res" where
  "GetLastDocument s = document_at (sorted_set s) (SortedMap_max (sorted_set s))"

definition IndexOf :: "DocumentSet \<Rightarrow> DocumentKey \<Rightarrow> nat" where
  "IndexOf s key = (case GetDocument s key of Some doc \<Rightarrow> SortedSet_find_index (sorted_set s) doc | None \<Rightarrow> npos)"

definition DocumentSet_erase :: "DocumentSet \<Rightarrow> DocumentKey \<Rightarrow> DocumentSet res" where
  "DocumentSet_erase s key = (case GetDocument s key of
     None \<Rightarrow> Inr s
   | Some doc \<Rightarrow>
       bind_res (SortedMap_erase (doc_index s) key) (\<lambda>index.
       bind_res (SortedSet_erase (sorted_set s) doc) (\<lambda>set.
       Inr \<lparr>doc_index = index, sorted_set = set\<rparr>)))"

definition DocumentSet_insert :: "DocumentSet \<Rightarrow> MutableDocument option \<Rightarrow> DocumentSet res" where
  "DocumentSet_insert s document = (case document of
     None \<Rightarrow> Inr s
   | Some doc \<Rightarrow>
       bind_res (DocumentSet_erase s (doc_key doc)) (\<lambda>removed.
       bind_res (SortedMap_insert (doc_index removed) (doc_key doc) doc) (\<lambda>index.
       bind_res (SortedSet_insert (sorted_set removed) doc) (\<lambda>set.
       Inr \<lparr>doc_index = index, sorted_set = set\<rparr>))))"

text \<open>Iterating a set visits its documents in order.\<close>

definition docs :: "DocumentSet \<Rightarrow> MutableDocument list" where
  "docs s = map fst (SortedMap_entries (sorted_set s))"

subsection \<open>The comparator of a query\<close>

definition comparable :: "Query \<Rightarrow> MutableDocument \<Rightarrow> bool" where
  "comparable q doc \<longleftrightarrow> document_ok doc \<and> has_fields (normalized_order_bys q) doc"

definition DocumentComparator_of :: "(string \<Rightarrow> string list) \<Rightarrow> Query \<Rightarrow> MutableDocument cmp" where
  "DocumentComparator_of split q x y =
     (if comparable q x \<and> comparable q y then
        (case bind_res (Query_Comparator split q) (\<lambda>c. c x y) of Inr r \<Rightarrow> r | Inl _ \<Rightarrow> Same)
      else if comparable q x then Ascending else if comparable q y then Descending
      else DocumentKey_CompareTo (doc_key x) (doc_key y))"

lemma Query_Comparator_Inr: "Query_Comparator split q = Inr (compare_documents split (normalized_order_bys q))"
  using normalized_order_bys_key[of q] by (auto simp: Query_Comparator_def list_ex_iff)

lemma DocumentComparator_of_orders:
  "comparable q x \<Longrightarrow> comparable q y \<Longrightarrow> DocumentComparator_of split q x y = orders_cmp split (normalized_order_bys q) x y"
  by (simp add: DocumentComparator_of_def Query_Comparator_Inr comparable_def compare_documents_total)

text \<open>On its domain the total comparator is the comparator of the query.\<close>

lemma DocumentComparator_of_runs:
  "comparable q x \<Longrightarrow> comparable q y \<Longrightarrow>
   bind_res (Query_Comparator split q) (\<lambda>c. c x y) = Inr (DocumentComparator_of split q x y)"
  by (simp add: DocumentComparator_of_orders Query_Comparator_Inr comparable_def compare_documents_total)

subsection \<open>Sets under a comparator that identifies only documents with the same key\<close>

locale document_order = key_comparator cmp
  for cmp :: "MutableDocument cmp" +
  assumes same_key: "cmp x y = Same \<Longrightarrow> doc_key x = doc_key y"

lemma DocumentComparator_of_comparator: "comparator (DocumentComparator_of split q)"
proof
  let ?o = "orders_cmp split (normalized_order_bys q)"
  note O = orders_cmp_comparator[of split "normalized_order_bys q"]
  fix x y z
  show "DocumentComparator_of split q x x = Same"
    using comparator.cmp_refl[OF O, of x] DocumentComparator_of_orders[of q x x]
    by (cases "comparable q x") (simp_all add: DocumentComparator_of_def key_cmp.cmp_refl)
  show "DocumentComparator_of split q y x = ReverseOrder (DocumentComparator_of split q x y)"
    using comparator.cmp_sym[OF O, of x y] DocumentComparator_of_orders[of q x y split] DocumentComparator_of_orders[of q y x split]
      key_cmp.cmp_sym[of "doc_key x" "doc_key y"]
    by (cases "comparable q x"; cases "comparable q y") (simp_all add: DocumentComparator_of_def)
  show "DocumentComparator_of split q x z \<noteq> Descending"
    if "DocumentComparator_of split q x y \<noteq> Descending" "DocumentComparator_of split q y z \<noteq> Descending"
  proof (cases "comparable q x \<and> comparable q y \<and> comparable q z")
    case True
    then show ?thesis using that comparator.cmp_trans[OF O, of x y z] by (simp add: DocumentComparator_of_orders)
  next
    case False
    then show ?thesis using that key_cmp.cmp_trans[of "doc_key x" "doc_key y" "doc_key z"]
      by (cases "comparable q x"; cases "comparable q y"; cases "comparable q z") (simp_all add: DocumentComparator_of_def)
  qed
qed

interpretation query_order: document_order "DocumentComparator_of split q" for split q
proof (intro document_order.intro key_comparator.intro DocumentComparator_of_comparator document_order_axioms.intro)
  fix x y
  assume s: "DocumentComparator_of split q x y = Same"
  show "doc_key x = doc_key y"
  proof (cases "comparable q x \<and> comparable q y")
    case True
    then show ?thesis using s orders_cmp_Same_key[OF normalized_order_bys_key] by (auto simp: DocumentComparator_of_orders)
  next
    case False
    then show ?thesis using s by (simp add: DocumentComparator_of_def split: if_splits)
  qed
qed

definition document_set_inv :: "MutableDocument cmp \<Rightarrow> DocumentSet \<Rightarrow> bool" where
  "document_set_inv cmp s \<longleftrightarrow> sorted_map_inv cmp (sorted_set s) \<and> key_map_inv (doc_index s) \<and>
     (\<forall>k d. SortedMap_get (doc_index s) k = Some d \<longleftrightarrow> d \<in> set (docs s) \<and> doc_key d = k)"

lemma set_upd_entries_fresh:
  "\<forall>p \<in> set xs. cmp (fst p) k \<noteq> Same \<Longrightarrow> set (upd_entries cmp k v xs) = insert (k, v) (set xs)"
  by (induction cmp k v xs rule: upd_entries.induct) (auto split: ComparisonResult.splits)

lemma get_entries_fresh: "\<forall>p \<in> set xs. cmp (fst p) k \<noteq> Same \<Longrightarrow> get_entries cmp xs k = None"
  by (induction xs) auto

lemma remaining_node_max:
  "good n \<Longrightarrow> n \<noteq> Empty \<Longrightarrow> remaining [node_max n] = [last (entries n)]"
proof (induction n)
  case (Rep e c s l r)
  then have "good r" by (simp add: good_Rep)
  then show ?case using Rep.IH
    by (cases "r = Empty") (auto simp: sized_node_empty goodD good_entries_Nil)
qed simp

context key_comparator
begin

lemma set_put_entries_fresh:
  assumes "\<forall>p \<in> set xs. cmp (fst p) k \<noteq> Same"
  shows "set (put_entries k v xs) = insert (k, v) (set xs)"
proof -
  have "dropWhile (\<lambda>el. cmp (fst el) k \<noteq> Descending) xs = dropWhile (\<lambda>el. cmp (fst el) k = Ascending) xs"
    using assms by (intro dropWhile_cong) (auto intro: ComparisonResult.exhaust)
  then have "set (put_entries k v xs) = insert (k, v)
      (set (takeWhile (\<lambda>el. cmp (fst el) k = Ascending) xs @ dropWhile (\<lambda>el. cmp (fst el) k = Ascending) xs))"
    unfolding put_entries_def set_append list.set by auto
  then show ?thesis by simp
qed

lemma insert_fresh:
  fixes m :: "('k, 'v::default) SortedMap"
  assumes inv: "sorted_map_inv cmp m" and len: "length (SortedMap_entries m) < tree_capacity"
    and fresh: "\<forall>p \<in> set (SortedMap_entries m). cmp (fst p) k \<noteq> Same"
  shows "\<exists>m'. SortedMap_insert m k v = Inr m' \<and> sorted_map_inv cmp m' \<and> set (SortedMap_entries m') = insert (k, v) (set (SortedMap_entries m))"
proof (cases m)
  case (ArrayMap a)
  have a: "array_map_inv cmp a" "array_comparator a = cmp" "sorted_entries cmp (array_entries a)"
    using inv ArrayMap by (auto simp: array_map_inv_def)
  show ?thesis
  proof (cases "ArraySortedMap_size a \<ge> kFixedSize")
    case True
    define t where "t = TreeSortedMap_Create (array_entries a) cmp"
    have t: "tree_map_inv cmp t" "tree_map_entries t = array_entries a"
      unfolding t_def using len ArrayMap by (simp_all add: TreeSortedMap_Create_sorted a)
    have l: "length (tree_map_entries t) < tree_capacity" using t len ArrayMap by simp
    show ?thesis
      using True a t tree_insert_entries[OF t(1) l, of k v] set_upd_entries_fresh[of "array_entries a" cmp k v] fresh
      by (simp add: ArrayMap t_def[symmetric])
  next
    case False
    then have l: "length (array_entries a) < kFixedSize" by (simp add: ArraySortedMap_size_def)
    have "get_entries cmp (array_entries a) k = None" using fresh ArrayMap get_entries_fresh by simp
    with array_insert_entries[OF a(1) l, of k v] False show ?thesis
      using set_put_entries_fresh[of "array_entries a" k v] fresh by (auto simp: ArrayMap)
  qed
next
  case (TreeMap t)
  then show ?thesis
    using tree_insert_entries[of t k v] inv len set_upd_entries_fresh[of "tree_map_entries t" cmp k v] fresh by simp
qed

end

lemma document_set_invI:
  assumes "sorted_map_inv cmp S" "key_map_inv I" "\<And>k d. SortedMap_get I k = Some d \<longleftrightarrow> d \<in> fst ` set (SortedMap_entries S) \<and> doc_key d = k"
  shows "document_set_inv cmp \<lparr>doc_index = I, sorted_set = S\<rparr>"
  using assms by (simp add: document_set_inv_def docs_def)

context document_order
begin

lemma docs_sorted: "document_set_inv cmp s \<Longrightarrow> sorted_wrt (\<lambda>x y. cmp x y = Ascending) (docs s)"
  using smap.sorted_m[of "sorted_set s"]
  by (simp add: document_set_inv_def docs_def sorted_entries_def sorted_wrt_map)

lemma docs_distinct: "document_set_inv cmp s \<Longrightarrow> distinct (docs s)"
  using sorted_entries_distinct[OF smap.sorted_m, of "sorted_set s"] by (simp add: document_set_inv_def docs_def)

lemma GetDocument_iff: "document_set_inv cmp s \<Longrightarrow> GetDocument s k = Some d \<longleftrightarrow> d \<in> set (docs s) \<and> doc_key d = k"
  by (simp add: document_set_inv_def GetDocument_def)

lemma docs_keys_inj: "document_set_inv cmp s \<Longrightarrow> inj_on doc_key (set (docs s))"
  by (rule inj_onI) (metis GetDocument_iff option.inject)

lemma GetDocument_None_iff: "document_set_inv cmp s \<Longrightarrow> GetDocument s k = None \<longleftrightarrow> k \<notin> doc_key ` set (docs s)"
  using GetDocument_iff by (metis (no_types, opaque_lifting) imageE image_eqI not_None_eq)

lemma dom_index: "document_set_inv cmp s \<Longrightarrow> dom (SortedMap_get (doc_index s)) = doc_key ` set (docs s)"
  using GetDocument_None_iff[of s] by (auto simp: GetDocument_def dom_def)

lemma ContainsKey_iff: "document_set_inv cmp s \<Longrightarrow> ContainsKey s k \<longleftrightarrow> k \<in> doc_key ` set (docs s)"
proof -
  assume inv: "document_set_inv cmp s"
  have "SortedMap_get (doc_index s) k \<noteq> None \<longleftrightarrow> ContainsKey s k"
  proof (cases "doc_index s")
    case (ArrayMap a)
    then show ?thesis
      using std_find_if_le[of "\<lambda>kv. array_comparator a k (fst kv) = Same" "array_entries a"]
      by (auto simp: SortedMap_get_def ContainsKey_def ArraySortedMap_find_def ArraySortedMap_end_def Let_def)
  next
    case (TreeMap t)
    then show ?thesis
      by (auto simp: SortedMap_get_def ContainsKey_def Iterator_eq_def Iterator_get_def
        TreeSortedMap_end_def Iterator_End_def is_end_def Let_def)
  qed
  then show ?thesis using dom_index[OF inv] by (auto simp: dom_def)
qed

lemma DocumentSet_size_docs: "document_set_inv cmp s \<Longrightarrow> DocumentSet_size s = length (docs s)"
proof -
  assume inv: "document_set_inv cmp s"
  then have "DocumentSet_size s = card (doc_key ` set (docs s))"
    using key_dict.dict_size(2)[of "doc_index s"] dom_index[OF inv] by (simp add: DocumentSet_size_def document_set_inv_def)
  then show ?thesis using card_image[OF docs_keys_inj[OF inv]] distinct_card[OF docs_distinct[OF inv]] by simp
qed

lemma DocumentSet_size_card: "document_set_inv cmp s \<Longrightarrow> DocumentSet_size s = card (set (docs s))"
  using DocumentSet_size_docs distinct_card[OF docs_distinct] by simp

lemma DocumentSet_new_inv: "document_set_inv cmp (DocumentSet_new cmp)" "docs (DocumentSet_new cmp) = []"
  by (simp_all add: document_set_inv_def DocumentSet_new_def docs_def SortedSet_new_def SortedMap_new_def ArraySortedMap_new_def
    array_map_inv_def SortedMap_get_eq ArraySortedMap_lookup_def ArraySortedMap_find_def ArraySortedMap_end_def std_find_if_def)

lemma DocumentSet_erase_docs:
  assumes inv: "document_set_inv cmp s"
  shows "\<exists>s'. DocumentSet_erase s k = Inr s' \<and> document_set_inv cmp s' \<and> docs s' = filter (\<lambda>d. doc_key d \<noteq> k) (docs s)"
proof (cases "GetDocument s k")
  case None
  then have "filter (\<lambda>d. doc_key d \<noteq> k) (docs s) = docs s"
    using GetDocument_None_iff[OF inv] by (auto intro!: filter_True)
  then show ?thesis using None inv by (simp add: DocumentSet_erase_def)
next
  case (Some doc)
  then have d: "doc \<in> set (docs s)" "doc_key doc = k" using GetDocument_iff[OF inv] by auto
  have m: "sorted_map_inv cmp (sorted_set s)" "key_map_inv (doc_index s)" using inv by (simp_all add: document_set_inv_def)
  obtain index where index: "SortedMap_erase (doc_index s) k = Inr index" "key_map_inv index"
    "SortedMap_get index = (SortedMap_get (doc_index s))(k := None)"
    using key_dict.dict_erase[OF m(2), of k] by blast
  obtain set' where set': "SortedMap_erase (sorted_set s) doc = Inr set'" "sorted_map_inv cmp set'"
    "SortedMap_entries set' = del_entries cmp doc (SortedMap_entries (sorted_set s))"
    using sorted_map_erase_contract[OF m(1), of doc] by blast
  have "cmp x doc = Same \<longleftrightarrow> doc_key x = k" if "x \<in> set (docs s)" for x
    using inj_onD[OF docs_keys_inj[OF inv], of x doc] same_key[of x doc] cmp_refl[of doc] that d by metis
  then have e: "map fst (SortedMap_entries set') = filter (\<lambda>d. doc_key d \<noteq> k) (docs s)"
    unfolding set'(3) del_entries_def by (simp add: docs_def filter_map o_def cong: filter_cong)
  have "document_set_inv cmp \<lparr>doc_index = index, sorted_set = set'\<rparr>"
  proof (rule document_set_invI[OF set'(2) index(2)])
    show "SortedMap_get index k' = Some d' \<longleftrightarrow> d' \<in> fst ` set (SortedMap_entries set') \<and> doc_key d' = k'" for k' d'
      using GetDocument_iff[OF inv, of k' d'] arg_cong[OF e, of set] by (auto simp: index(3) GetDocument_def)
  qed
  then show ?thesis using Some index(1) set'(1) e by (simp add: DocumentSet_erase_def SortedSet_erase_def docs_def)
qed

lemma DocumentSet_insert_docs:
  assumes inv: "document_set_inv cmp s" and size: "DocumentSet_size s < tree_capacity"
  shows "\<exists>s'. DocumentSet_insert s (Some d) = Inr s' \<and> document_set_inv cmp s' \<and>
    set (docs s') = insert d {x \<in> set (docs s). doc_key x \<noteq> doc_key d}"
proof -
  let ?k = "doc_key d"
  obtain r where r: "DocumentSet_erase s ?k = Inr r" "document_set_inv cmp r" "docs r = filter (\<lambda>d. doc_key d \<noteq> ?k) (docs s)"
    using DocumentSet_erase_docs[OF inv] by blast
  have m: "sorted_map_inv cmp (sorted_set r)" "key_map_inv (doc_index r)" using r(2) by (simp_all add: document_set_inv_def)
  have "length (docs r) \<le> length (docs s)" using r(3) by simp
  then have l: "length (docs r) < tree_capacity" using size DocumentSet_size_docs[OF inv] by simp
  have "SortedMap_size (doc_index r) < tree_capacity"
    using l DocumentSet_size_docs[OF r(2)] by (simp add: DocumentSet_size_def)
  then obtain index where index: "SortedMap_insert (doc_index r) ?k d = Inr index" "key_map_inv index"
    "SortedMap_get index = (SortedMap_get (doc_index r))(?k \<mapsto> d)"
    using key_dict.dict_insert[OF m(2), of ?k d] by blast
  have "\<forall>p \<in> set (SortedMap_entries (sorted_set r)). cmp (fst p) d \<noteq> Same"
  proof
    fix p
    assume "p \<in> set (SortedMap_entries (sorted_set r))"
    then have "fst p \<in> set (docs r)" by (simp add: docs_def)
    then show "cmp (fst p) d \<noteq> Same" using same_key[of "fst p" d] r(3) by auto
  qed
  then obtain set' where set': "SortedMap_insert (sorted_set r) d () = Inr set'" "sorted_map_inv cmp set'"
    "set (SortedMap_entries set') = insert (d, ()) (set (SortedMap_entries (sorted_set r)))"
    using insert_fresh[OF m(1), of d "()"] l by (auto simp: docs_def)
  have e: "fst ` set (SortedMap_entries set') = insert d (set (docs r))" by (simp add: set'(3) docs_def)
  have "document_set_inv cmp \<lparr>doc_index = index, sorted_set = set'\<rparr>"
  proof (rule document_set_invI[OF set'(2) index(2)])
    show "SortedMap_get index k' = Some d' \<longleftrightarrow> d' \<in> fst ` set (SortedMap_entries set') \<and> doc_key d' = k'" for k' d'
      using GetDocument_iff[OF r(2), of k' d'] r(3) by (auto simp: index(3) e GetDocument_def)
  qed
  then show ?thesis using r index(1) set'(1) e by (simp add: DocumentSet_insert_def SortedSet_insert_def docs_def)
qed

lemma GetFirstDocument_docs:
  assumes inv: "document_set_inv cmp s"
  shows "GetFirstDocument s = Inr (case docs s of [] \<Rightarrow> None | d # _ \<Rightarrow> Some d)"
proof -
  have m: "sorted_map_inv cmp (sorted_set s)" using inv by (simp add: document_set_inv_def)
  have b: "SortedMap_min (sorted_set s) = SortedMap_begin (sorted_set s)"
    by (cases "sorted_set s") (simp_all add: ArraySortedMap_min_def TreeSortedMap_min_def)
  note be = SortedMap_begin_end_ok[OF m]
  have "distinct (map fst (it_remaining (SortedMap_begin (sorted_set s))))"
    using be sorted_entries_distinct[OF smap.sorted_m[OF m]] by simp
  then have eq: "SortedMapIterator_eq (SortedMap_begin (sorted_set s)) (SortedMap_end (sorted_set s)) \<longleftrightarrow> SortedMap_entries (sorted_set s) = []"
    using it_eq_iff[of "SortedMap_begin (sorted_set s)" "SortedMap_end (sorted_set s)" "SortedMap_entries (sorted_set s)"] be by simp
  show ?thesis
  proof (cases "SortedMap_entries (sorted_set s)")
    case (Cons p ps)
    then have "SortedMapIterator_get (SortedMap_begin (sorted_set s)) = Inr p"
      using it_next_remaining[of "SortedMap_begin (sorted_set s)" _ p ps] be by auto
    then show ?thesis using Cons eq by (simp add: GetFirstDocument_def document_at_def b docs_def)
  qed (use eq in \<open>simp add: GetFirstDocument_def document_at_def b docs_def\<close>)
qed

lemma GetLastDocument_docs:
  assumes inv: "document_set_inv cmp s"
  shows "GetLastDocument s = Inr (if docs s = [] then None else Some (last (docs s)))"
proof (cases "sorted_set s")
  case (ArrayMap a)
  show ?thesis
  proof (cases "array_entries a = []")
    case False
    then have "length (array_entries a) - Suc 0 \<noteq> length (array_entries a)" by (cases "array_entries a") auto
    then show ?thesis using ArrayMap False
      by (simp add: GetLastDocument_def document_at_def docs_def ArraySortedMap_max_def ArraySortedMap_end_def
        ArraySortedMap_empty_def ArraySortedMap_size_def last_conv_nth last_map)
  qed (simp add: ArrayMap GetLastDocument_def document_at_def docs_def ArraySortedMap_max_def ArraySortedMap_end_def
        ArraySortedMap_empty_def ArraySortedMap_size_def)
next
  case (TreeMap t)
  then have t: "good (tree_root t)" using inv by (simp add: document_set_inv_def tree_map_inv_def llrb_inv_def)
  show ?thesis
  proof (cases "tree_root t = Empty")
    case True
    then show ?thesis using TreeMap by (simp add: GetLastDocument_def document_at_def docs_def TreeSortedMap_max_def
      TreeSortedMap_empty_def TreeSortedMap_end_def Iterator_End_def node_empty_def tree_map_entries_def Iterator_eq_def is_end_def)
  next
    case False
    then have "\<not> TreeSortedMap_empty t" using t by (simp add: TreeSortedMap_empty_def sized_node_empty goodD)
    then show ?thesis using TreeMap remaining_node_max[OF t False] False t
      by (simp add: GetLastDocument_def document_at_def docs_def TreeSortedMap_max_def TreeSortedMap_end_def Iterator_End_def
        tree_map_entries_def Iterator_eq_def is_end_def Iterator_get_def last_map good_entries_Nil)
  qed
qed

end

lemma option_fun_eqI:
  assumes "\<And>k x. f k = Some x \<longleftrightarrow> g k = Some x"
  shows "f = g"
proof
  show "f k = g k" for k using assms[of k] by (metis not_None_eq)
qed

context document_order
begin

text \<open>The operations as updates of the map from keys to documents.\<close>

lemma GetDocument_dom: "document_set_inv cmp s \<Longrightarrow> dom (GetDocument s) = doc_key ` set (docs s)"
  using dom_index[of s] unfolding dom_def GetDocument_def by simp

lemma GetDocument_size:
  assumes "document_set_inv cmp s"
  shows "finite (dom (GetDocument s))" "DocumentSet_size s = card (dom (GetDocument s))"
  unfolding GetDocument_dom[OF assms] DocumentSet_size_card[OF assms] card_image[OF docs_keys_inj[OF assms]] by simp_all

lemma DocumentSet_erase_get:
  assumes inv: "document_set_inv cmp s"
  shows "\<exists>s'. DocumentSet_erase s k = Inr s' \<and> document_set_inv cmp s' \<and> docs s' = filter (\<lambda>d. doc_key d \<noteq> k) (docs s) \<and>
    GetDocument s' = (GetDocument s)(k := None)"
proof -
  obtain s' where s': "DocumentSet_erase s k = Inr s'" "document_set_inv cmp s'" "docs s' = filter (\<lambda>d. doc_key d \<noteq> k) (docs s)"
    using DocumentSet_erase_docs[OF inv, of k] by (elim exE conjE)
  have "GetDocument s' = (GetDocument s)(k := None)"
  proof (rule option_fun_eqI)
    show "GetDocument s' k' = Some x \<longleftrightarrow> ((GetDocument s)(k := None)) k' = Some x" for k' x
    proof (cases "k' = k")
      case True
      then show ?thesis using GetDocument_iff[OF s'(2), of k' x] s'(3) by simp
    next
      case False
      have "GetDocument s' k' = Some x \<longleftrightarrow> GetDocument s k' = Some x"
        unfolding GetDocument_iff[OF s'(2)] GetDocument_iff[OF inv] s'(3) set_filter using False by blast
      then show ?thesis using False by simp
    qed
  qed
  then show ?thesis by (intro exI[of _ s'] conjI s')
qed

lemma DocumentSet_insert_get:
  assumes inv: "document_set_inv cmp s" and size: "DocumentSet_size s < tree_capacity"
  shows "\<exists>s'. DocumentSet_insert s (Some d) = Inr s' \<and> document_set_inv cmp s' \<and>
    set (docs s') = insert d {x \<in> set (docs s). doc_key x \<noteq> doc_key d} \<and> GetDocument s' = (GetDocument s)(doc_key d \<mapsto> d)"
proof -
  obtain s' where s': "DocumentSet_insert s (Some d) = Inr s'" "document_set_inv cmp s'"
    "set (docs s') = insert d {x \<in> set (docs s). doc_key x \<noteq> doc_key d}"
    using DocumentSet_insert_docs[OF assms, of d] by (elim exE conjE)
  have "GetDocument s' = (GetDocument s)(doc_key d \<mapsto> d)"
  proof (rule option_fun_eqI)
    show "GetDocument s' k' = Some x \<longleftrightarrow> ((GetDocument s)(doc_key d \<mapsto> d)) k' = Some x" for k' x
    proof (cases "k' = doc_key d")
      case True
      have "d \<in> set (docs s')" unfolding s'(3) by (rule insertI1)
      then have "GetDocument s' k' = Some d" using GetDocument_iff[OF s'(2), of k' d] True by simp
      then show ?thesis using True by simp
    next
      case False
      have "x \<in> set (docs s') \<and> doc_key x = k' \<longleftrightarrow> x \<in> set (docs s) \<and> doc_key x = k'"
        unfolding s'(3) insert_iff mem_Collect_eq using False by metis
      then show ?thesis using False GetDocument_iff[OF s'(2), of k' x] GetDocument_iff[OF inv, of k' x] by simp
    qed
  qed
  then show ?thesis by (intro exI[of _ s'] conjI s')
qed

end

end
