(* ===== verification/View_Core.thy ===== *)
theory View_Core
  imports Document_Set
begin

text \<open>
  The view of a query, \<^verbatim>\<open>core/view.cc\<close> with the change sets and snapshots of \<^verbatim>\<open>core/view_snapshot.cc\<close>, and the steps of
  \<^verbatim>\<open>core/sync_engine.cc\<close> that keep a view up to date.

  A view holds the documents that match its query, within the limit of the query, in the order of the query. Changed
  documents come in as a map. Computing their effect returns new documents and a change set and leaves the view alone;
  applying that result updates the view and produces a snapshot and the documents that went into or out of limbo.
\<close>

section \<open>Change sets\<close>

datatype ChangeType = Change_Removed | Change_Added | Change_Modified | Change_Metadata

record DocumentViewChange =
  change_document :: MutableDocument
  change_type :: ChangeType

instantiation DocumentViewChange_ext :: (default) default
begin

definition default_DocumentViewChange_ext :: "'a DocumentViewChange_ext" where
  "default_DocumentViewChange_ext = DocumentViewChange_ext default Change_Removed default"

instance ..

end

type_synonym DocumentViewChangeSet = "(DocumentKey, DocumentViewChange) SortedMap"

definition make_change :: "MutableDocument \<Rightarrow> ChangeType \<Rightarrow> DocumentViewChange" where
  "make_change document type = \<lparr>change_document = document, change_type = type\<rparr>"

definition DocumentViewChangeSet_new :: DocumentViewChangeSet where
  "DocumentViewChangeSet_new = SortedMap_new DocumentKey_CompareTo"

definition AddChange :: "DocumentViewChangeSet \<Rightarrow> DocumentViewChange \<Rightarrow> DocumentViewChangeSet res" where
  "AddChange change_map change =
     (let key = doc_key (change_document change)
      in case SortedMap_get change_map key of
        None \<Rightarrow> SortedMap_insert change_map key change
      | Some old \<Rightarrow>
          (let old_type = change_type old; new_type = change_type change
           in if new_type \<noteq> Change_Added \<and> old_type = Change_Metadata then SortedMap_insert change_map key change
              else if new_type = Change_Metadata \<and> old_type \<noteq> Change_Removed then
                SortedMap_insert change_map key (make_change (change_document change) old_type)
              else if new_type = Change_Modified \<and> old_type = Change_Modified then
                SortedMap_insert change_map key (make_change (change_document change) Change_Modified)
              else if new_type = Change_Modified \<and> old_type = Change_Added then
                SortedMap_insert change_map key (make_change (change_document change) Change_Added)
              else if new_type = Change_Removed \<and> old_type = Change_Added then SortedMap_erase change_map key
              else if new_type = Change_Removed \<and> old_type = Change_Modified then
                SortedMap_insert change_map key (make_change (change_document old) Change_Removed)
              else if new_type = Change_Added \<and> old_type = Change_Removed then
                SortedMap_insert change_map key (make_change (change_document change) Change_Modified)
              else Inl HardFail))"

definition GetChanges :: "DocumentViewChangeSet \<Rightarrow> DocumentViewChange list" where
  "GetChanges change_map = map snd (SortedMap_entries change_map)"

section \<open>The view\<close>

datatype SyncState = SyncNone | SyncLocal | SyncSynced

datatype OnlineState = OnlineUnknown | OnlineOnline | OnlineOffline

datatype LimboDocumentChange = Limbo_Added DocumentKey | Limbo_Removed DocumentKey

record TargetChange =
  tc_resume_token :: string
  tc_current :: bool
  added_documents :: DocumentKeySet
  modified_documents :: DocumentKeySet
  removed_documents :: DocumentKeySet

record ViewDocumentChanges =
  changed_documents :: DocumentSet
  change_set :: DocumentViewChangeSet
  changed_mutated_keys :: DocumentKeySet
  needs_refill :: bool

record ViewSnapshot =
  snapshot_query :: Query
  snapshot_documents :: DocumentSet
  old_documents :: DocumentSet
  document_changes :: "DocumentViewChange list"
  snapshot_mutated_keys :: DocumentKeySet
  from_cache :: bool
  sync_state_changed :: bool
  excludes_metadata_changes :: bool
  has_cached_results :: bool

record View =
  view_query :: Query
  document_set :: DocumentSet
  synced_documents :: DocumentKeySet
  limbo_documents :: DocumentKeySet
  mutated_keys :: DocumentKeySet
  sync_state :: SyncState
  view_current :: bool

definition no_keys :: DocumentKeySet where
  "no_keys = SortedSet_new DocumentKey_CompareTo"

definition View_new :: "(string \<Rightarrow> string list) \<Rightarrow> Query \<Rightarrow> DocumentKeySet \<Rightarrow> View" where
  "View_new split q remote_documents =
     \<lparr>view_query = q, document_set = DocumentSet_new (DocumentComparator_of split q), synced_documents = remote_documents,
      limbo_documents = no_keys, mutated_keys = no_keys, sync_state = SyncNone, view_current = False\<rparr>"

definition has_limit_to_first :: "Query \<Rightarrow> bool" where
  "has_limit_to_first q \<longleftrightarrow> limit_type q = LimitFirst \<and> query_limit q \<noteq> kNoLimit"

definition has_limit_to_last :: "Query \<Rightarrow> bool" where
  "has_limit_to_last q \<longleftrightarrow> limit_type q = LimitLast \<and> query_limit q \<noteq> kNoLimit"

text \<open>The signed limit converted to \<^verbatim>\<open>size_t\<close>.\<close>

definition limit_size :: "Query \<Rightarrow> nat" where
  "limit_size q = nat (query_limit q mod 2 ^ 64)"

definition View_Compare :: "View \<Rightarrow> MutableDocument cmp" where
  "View_Compare v = DocumentSet_comparator (document_set v)"

definition ShouldWaitForSyncedDocument :: "MutableDocument \<Rightarrow> MutableDocument \<Rightarrow> bool" where
  "ShouldWaitForSyncedDocument new_doc old_doc \<longleftrightarrow>
     has_local_mutations old_doc \<and> has_committed_mutations new_doc \<and> \<not> has_local_mutations new_doc"

subsection \<open>Computing document changes\<close>

text \<open>
  The loop state is the result under construction. \<open>calculate_change\<close> is the case distinction on the old and the new
  version of a document; it also says whether the change applies.
\<close>

definition add_change :: "ViewDocumentChanges \<Rightarrow> MutableDocument \<Rightarrow> ChangeType \<Rightarrow> bool \<Rightarrow> (ViewDocumentChanges \<times> bool) res" where
  "add_change st document type refill =
     bind_res (AddChange (change_set st) (make_change document type)) (\<lambda>cs.
       Inr (st\<lparr>change_set := cs, needs_refill := needs_refill st \<or> refill\<rparr>, True))"

definition outside_limits :: "View \<Rightarrow> MutableDocument option \<Rightarrow> MutableDocument option \<Rightarrow> MutableDocument \<Rightarrow> bool" where
  "outside_limits v last_doc_in_limit first_doc_in_limit new_doc \<longleftrightarrow>
     (\<exists>last \<in> set_option last_doc_in_limit. View_Compare v new_doc last = Descending) \<or>
     (\<exists>first \<in> set_option first_doc_in_limit. View_Compare v new_doc first = Ascending)"

definition calculate_change :: "(string \<Rightarrow> string list) \<Rightarrow> View \<Rightarrow> MutableDocument option \<Rightarrow> MutableDocument option \<Rightarrow>
    DocumentKey \<Rightarrow> MutableDocument option \<Rightarrow> MutableDocument option \<Rightarrow> ViewDocumentChanges \<Rightarrow> (ViewDocumentChanges \<times> bool) res" where
  "calculate_change split v last_doc_in_limit first_doc_in_limit key old_doc new_doc st = (case (old_doc, new_doc) of
     (Some old, Some new) \<Rightarrow>
       bind_res (Value_Equals split (Map_value (doc_data old)) (Map_value (doc_data new))) (\<lambda>docs_equal.
         if \<not> docs_equal then
           (if \<not> ShouldWaitForSyncedDocument new old then
              add_change st new Change_Modified (outside_limits v last_doc_in_limit first_doc_in_limit new)
            else Inr (st, False))
         else
           (let old_doc_had_pending_mutations = SortedSet_contains (mutated_keys v) key;
                new_doc_has_pending_mutations = has_local_mutations new \<or>
                  SortedSet_contains (mutated_keys v) key \<and> has_committed_mutations new
            in if old_doc_had_pending_mutations \<noteq> new_doc_has_pending_mutations then add_change st new Change_Metadata False
               else Inr (st, False)))
   | (None, Some new) \<Rightarrow> add_change st new Change_Added False
   | (Some old, None) \<Rightarrow> add_change st old Change_Removed (last_doc_in_limit \<noteq> None \<or> first_doc_in_limit \<noteq> None)
   | (None, None) \<Rightarrow> Inr (st, False))"

definition apply_change :: "DocumentKey \<Rightarrow> MutableDocument option \<Rightarrow> ViewDocumentChanges \<Rightarrow> ViewDocumentChanges res" where
  "apply_change key new_doc st = (case new_doc of
     Some new \<Rightarrow>
       bind_res (DocumentSet_insert (changed_documents st) new_doc) (\<lambda>ds.
       bind_res (if has_local_mutations new then SortedSet_insert (changed_mutated_keys st) key
                 else SortedSet_erase (changed_mutated_keys st) key) (\<lambda>mk.
       Inr (st\<lparr>changed_documents := ds, changed_mutated_keys := mk\<rparr>)))
   | None \<Rightarrow>
       bind_res (DocumentSet_erase (changed_documents st) key) (\<lambda>ds.
       bind_res (SortedSet_erase (changed_mutated_keys st) key) (\<lambda>mk.
       Inr (st\<lparr>changed_documents := ds, changed_mutated_keys := mk\<rparr>))))"

definition visit_document :: "absl_strings \<Rightarrow> (string \<Rightarrow> string list) \<Rightarrow> View \<Rightarrow> DocumentSet \<Rightarrow> MutableDocument option \<Rightarrow>
    MutableDocument option \<Rightarrow> DocumentKey \<times> MutableDocument \<Rightarrow> ViewDocumentChanges \<Rightarrow> ViewDocumentChanges res" where
  "visit_document a split v old_document_set last_doc_in_limit first_doc_in_limit kv st =
     bind_res (Query_Matches a split (view_query v) (snd kv)) (\<lambda>matches.
       let key = fst kv; old_doc = GetDocument old_document_set key; new_doc = (if matches then Some (snd kv) else None)
       in bind_res (calculate_change split v last_doc_in_limit first_doc_in_limit key old_doc new_doc st) (\<lambda>(st', change_applied).
            if change_applied then apply_change key new_doc st' else Inr st'))"

fun visit_documents :: "absl_strings \<Rightarrow> (string \<Rightarrow> string list) \<Rightarrow> View \<Rightarrow> DocumentSet \<Rightarrow> MutableDocument option \<Rightarrow>
    MutableDocument option \<Rightarrow> (DocumentKey \<times> MutableDocument) list \<Rightarrow> ViewDocumentChanges \<Rightarrow> ViewDocumentChanges res" where
  "visit_documents a split v old_document_set l f [] st = Inr st"
| "visit_documents a split v old_document_set l f (kv # kvs) st =
     bind_res (visit_document a split v old_document_set l f kv st) (visit_documents a split v old_document_set l f kvs)"

text \<open>Dropping documents to meet the limit. Dereferencing an empty optional is undefined.\<close>

fun drop_documents :: "Query \<Rightarrow> nat \<Rightarrow> ViewDocumentChanges \<Rightarrow> ViewDocumentChanges res" where
  "drop_documents q 0 st = Inr st"
| "drop_documents q (Suc i) st =
     bind_res (if has_limit_to_first q then GetLastDocument (changed_documents st) else GetFirstDocument (changed_documents st)) (\<lambda>found.
       case found of None \<Rightarrow> Inl UndefinedBehaviour
       | Some old_doc \<Rightarrow>
           bind_res (DocumentSet_erase (changed_documents st) (doc_key old_doc)) (\<lambda>ds.
           bind_res (SortedSet_erase (changed_mutated_keys st) (doc_key old_doc)) (\<lambda>mk.
           bind_res (AddChange (change_set st) (make_change old_doc Change_Removed)) (\<lambda>cs.
           drop_documents q i (st\<lparr>changed_documents := ds, changed_mutated_keys := mk, change_set := cs\<rparr>)))))"

definition meet_limit :: "Query \<Rightarrow> ViewDocumentChanges \<Rightarrow> ViewDocumentChanges res" where
  "meet_limit q st =
     (if limit_type q \<noteq> LimitNone \<and> limit_size q < DocumentSet_size (changed_documents st)
      then drop_documents q (DocumentSet_size (changed_documents st) - limit_size q) st else Inr st)"

definition initial_changes :: "View \<Rightarrow> ViewDocumentChanges option \<Rightarrow> ViewDocumentChanges" where
  "initial_changes v previous_changes = (case previous_changes of
     Some p \<Rightarrow> p\<lparr>needs_refill := False\<rparr>
   | None \<Rightarrow> \<lparr>changed_documents = document_set v, change_set = DocumentViewChangeSet_new, changed_mutated_keys = mutated_keys v,
       needs_refill = False\<rparr>)"

definition ComputeDocumentChanges :: "absl_strings \<Rightarrow> (string \<Rightarrow> string list) \<Rightarrow> View \<Rightarrow> DocumentMap \<Rightarrow> ViewDocumentChanges option \<Rightarrow>
    ViewDocumentChanges res" where
  "ComputeDocumentChanges a split v doc_changes previous_changes =
     (let q = view_query v; st = initial_changes v previous_changes; old_document_set = changed_documents st;
          full = (DocumentSet_size old_document_set = limit_size q)
      in bind_res (if has_limit_to_first q \<and> full then GetLastDocument old_document_set else Inr None) (\<lambda>last_doc_in_limit.
         bind_res (if has_limit_to_last q \<and> full then GetFirstDocument old_document_set else Inr None) (\<lambda>first_doc_in_limit.
         bind_res (visit_documents a split v old_document_set last_doc_in_limit first_doc_in_limit (SortedMap_entries doc_changes) st) (\<lambda>st.
         bind_res (meet_limit q st) (\<lambda>st.
         if needs_refill st \<and> previous_changes \<noteq> None then Inl HardAssert else Inr st)))))"

subsection \<open>Applying document changes\<close>

fun GetDocumentViewChangeTypePosition :: "ChangeType \<Rightarrow> int" where
  "GetDocumentViewChangeTypePosition Change_Removed = 0"
| "GetDocumentViewChangeTypePosition Change_Added = 1"
| "GetDocumentViewChangeTypePosition Change_Modified = 2"
| "GetDocumentViewChangeTypePosition Change_Metadata = 2"

definition change_less :: "View \<Rightarrow> DocumentViewChange \<Rightarrow> DocumentViewChange \<Rightarrow> bool" where
  "change_less v lhs rhs =
     (let pos1 = GetDocumentViewChangeTypePosition (change_type lhs); pos2 = GetDocumentViewChangeTypePosition (change_type rhs)
      in if pos1 \<noteq> pos2 then pos1 < pos2
         else View_Compare v (change_document lhs) (change_document rhs) = Ascending)"

text \<open>The changes are sorted with a strict order under which no two of them are equivalent, so the order is determined.\<close>

fun insert_change :: "View \<Rightarrow> DocumentViewChange \<Rightarrow> DocumentViewChange list \<Rightarrow> DocumentViewChange list" where
  "insert_change v c [] = [c]"
| "insert_change v c (d # ds) = (if change_less v d c then d # insert_change v c ds else c # d # ds)"

definition sort_changes :: "View \<Rightarrow> DocumentViewChange list \<Rightarrow> DocumentViewChange list" where
  "sort_changes v changes = foldr (insert_change v) changes []"

definition ShouldBeInLimbo :: "View \<Rightarrow> DocumentKey \<Rightarrow> bool" where
  "ShouldBeInLimbo v key =
     (if SortedSet_contains (synced_documents v) key then False
      else if \<not> ContainsKey (document_set v) key then False
      else if has_local_mutations (the (GetDocument (document_set v) key)) then False else True)"

fun erase_keys :: "DocumentKey list \<Rightarrow> DocumentKeySet \<Rightarrow> DocumentKeySet res" where
  "erase_keys [] s = Inr s"
| "erase_keys (k # ks) s = bind_res (SortedSet_erase s k) (erase_keys ks)"

definition set_keys :: "DocumentKeySet \<Rightarrow> DocumentKey list" where
  "set_keys s = map fst (SortedMap_entries s)"

definition ApplyTargetChange :: "View \<Rightarrow> TargetChange option \<Rightarrow> View res" where
  "ApplyTargetChange v maybe_target_change = (case maybe_target_change of
     None \<Rightarrow> Inr v
   | Some tc \<Rightarrow>
       bind_res (SortedSet_insert_loop (set_keys (added_documents tc)) (synced_documents v)) (\<lambda>synced.
         if list_ex (\<lambda>key. \<not> SortedSet_contains synced key) (set_keys (modified_documents tc)) then Inl HardAssert
         else bind_res (erase_keys (set_keys (removed_documents tc)) synced) (\<lambda>synced'.
           Inr (v\<lparr>synced_documents := synced', view_current := tc_current tc\<rparr>))))"

definition UpdateLimboDocuments :: "View \<Rightarrow> (View \<times> LimboDocumentChange list) res" where
  "UpdateLimboDocuments v =
     (if \<not> view_current v then Inr (v, [])
      else
        (let old_limbo_documents = limbo_documents v; v' = v\<lparr>limbo_documents := no_keys\<rparr>
         in bind_res (SortedSet_insert_loop (filter (ShouldBeInLimbo v') (map doc_key (docs (document_set v')))) no_keys) (\<lambda>limbo.
           Inr (v'\<lparr>limbo_documents := limbo\<rparr>,
             map Limbo_Removed (filter (\<lambda>key. \<not> SortedSet_contains limbo key) (set_keys old_limbo_documents)) @
             map Limbo_Added (filter (\<lambda>key. \<not> SortedSet_contains old_limbo_documents key) (set_keys limbo))))))"

definition View_ApplyChanges :: "View \<Rightarrow> ViewDocumentChanges \<Rightarrow> TargetChange option \<Rightarrow> bool \<Rightarrow>
    (View \<times> ViewSnapshot option \<times> LimboDocumentChange list) res" where
  "View_ApplyChanges v doc_changes target_change targetIsPendingReset =
     (if needs_refill doc_changes then Inl HardAssert
      else
        (let old_docs = document_set v;
             v = v\<lparr>document_set := changed_documents doc_changes, mutated_keys := changed_mutated_keys doc_changes\<rparr>;
             changes = sort_changes v (GetChanges (change_set doc_changes))
         in bind_res (ApplyTargetChange v target_change) (\<lambda>v.
            bind_res (if targetIsPendingReset then Inr (v, []) else UpdateLimboDocuments v) (\<lambda>(v, limbo_changes).
              let synced = (SortedMap_empty (limbo_documents v) \<and> view_current v \<and> \<not> targetIsPendingReset);
                  new_sync_state = (if synced then SyncSynced else SyncLocal);
                  changed = (new_sync_state \<noteq> sync_state v);
                  v = v\<lparr>sync_state := new_sync_state\<rparr>
              in if changes = [] \<and> \<not> changed then Inr (v, None, limbo_changes)
                 else Inr (v, Some \<lparr>snapshot_query = view_query v, snapshot_documents = changed_documents doc_changes,
                     old_documents = old_docs, document_changes = changes, snapshot_mutated_keys = changed_mutated_keys doc_changes,
                     from_cache = (new_sync_state = SyncLocal), sync_state_changed = changed, excludes_metadata_changes = False,
                     has_cached_results = (case target_change of None \<Rightarrow> False | Some tc \<Rightarrow> tc_resume_token tc \<noteq> [])\<rparr>,
                   limbo_changes)))))"

definition ApplyOnlineStateChange :: "View \<Rightarrow> OnlineState \<Rightarrow> (View \<times> ViewSnapshot option \<times> LimboDocumentChange list) res" where
  "ApplyOnlineStateChange v online_state =
     (if view_current v \<and> online_state = OnlineOffline then
        (let v = v\<lparr>view_current := False\<rparr>
         in View_ApplyChanges v \<lparr>changed_documents = document_set v, change_set = DocumentViewChangeSet_new,
              changed_mutated_keys = mutated_keys v, needs_refill = False\<rparr> None False)
      else Inr (v, None, []))"

definition FromInitialDocuments :: "(string \<Rightarrow> string list) \<Rightarrow> Query \<Rightarrow> DocumentSet \<Rightarrow> DocumentKeySet \<Rightarrow> bool \<Rightarrow> bool \<Rightarrow> bool \<Rightarrow> ViewSnapshot" where
  "FromInitialDocuments split q documents keys cached excludes cached_results =
     \<lparr>snapshot_query = q, snapshot_documents = documents, old_documents = DocumentSet_new (DocumentComparator_of split q),
      document_changes = map (\<lambda>doc. make_change doc Change_Added) (docs documents), snapshot_mutated_keys = keys,
      from_cache = cached, sync_state_changed = True, excludes_metadata_changes = excludes, has_cached_results = cached_results\<rparr>"

subsection \<open>The steps of the sync engine\<close>

text \<open>
  What \<^verbatim>\<open>EmitNewSnapshotsAndNotifyLocalStore\<close> does for one view; \<open>query_result\<close> stands for the documents that the local
  store returns for the query.
\<close>

definition emit_new_snapshot :: "absl_strings \<Rightarrow> (string \<Rightarrow> string list) \<Rightarrow> DocumentMap \<Rightarrow> View \<Rightarrow> DocumentMap \<Rightarrow> TargetChange option \<Rightarrow> bool \<Rightarrow>
    (View \<times> ViewSnapshot option \<times> LimboDocumentChange list) res" where
  "emit_new_snapshot a split query_result v changes target_changes targetIsPendingReset =
     bind_res (ComputeDocumentChanges a split v changes None) (\<lambda>view_doc_changes.
     bind_res (if needs_refill view_doc_changes then ComputeDocumentChanges a split v query_result (Some view_doc_changes)
               else Inr view_doc_changes) (\<lambda>view_doc_changes.
     View_ApplyChanges v view_doc_changes target_changes targetIsPendingReset))"

text \<open>The creation of a view; the synchronisation state is that of a view on the same target, if there is one.\<close>

definition InitializeViewAndComputeSnapshot :: "absl_strings \<Rightarrow> (string \<Rightarrow> string list) \<Rightarrow> Query \<Rightarrow> DocumentMap \<Rightarrow> DocumentKeySet \<Rightarrow> SyncState \<Rightarrow> string \<Rightarrow>
    (View \<times> ViewSnapshot \<times> LimboDocumentChange list) res" where
  "InitializeViewAndComputeSnapshot a split q documents remote_keys current_sync_state resume_token =
     (let synthesized_current_change = \<lparr>tc_resume_token = resume_token, tc_current = (current_sync_state = SyncSynced),
            added_documents = no_keys, modified_documents = no_keys, removed_documents = no_keys\<rparr>;
          view = View_new split q remote_keys
      in bind_res (ComputeDocumentChanges a split view documents None) (\<lambda>view_doc_changes.
         bind_res (View_ApplyChanges view view_doc_changes (Some synthesized_current_change) False) (\<lambda>(view, snapshot, limbo_changes).
         case snapshot of None \<Rightarrow> Inl HardAssert | Some s \<Rightarrow> Inr (view, s, limbo_changes))))"

end
