(* ===== verification/View_Results.thy ===== *)
theory View_Results
  imports View_Core
begin

text \<open>
  What views compute: change sets describe the difference between two sets of results, the loop over the changed documents
  never fails, the results of a query with a limit are the first (last) matching documents of the cache, a refill is asked
  for whenever they could be others, one refill is enough, and the limbo documents are exactly those the server did not send.
\<close>

section \<open>Change sets describe differences\<close>

definition change_describes :: "DocumentKey \<Rightarrow> DocumentViewChange option \<Rightarrow> MutableDocument option \<Rightarrow> MutableDocument option \<Rightarrow> bool" where
  "change_describes k c old new = (case c of
     None \<Rightarrow> new = old
   | Some c \<Rightarrow> doc_key (change_document c) = k \<and>
       (case change_type c of
          Change_Removed \<Rightarrow> old \<noteq> None \<and> new = None
        | Change_Added \<Rightarrow> old = None \<and> new = Some (change_document c)
        | _ \<Rightarrow> old \<noteq> None \<and> new = Some (change_document c)))"

definition describes :: "DocumentViewChangeSet \<Rightarrow> (DocumentKey \<Rightarrow> MutableDocument option) \<Rightarrow> (DocumentKey \<Rightarrow> MutableDocument option) \<Rightarrow> bool" where
  "describes cs old new \<longleftrightarrow> (\<forall>k. change_describes k (SortedMap_get cs k) (old k) (new k))"

text \<open>A change that fits the results it is applied to: only a missing document is added, only a present one is changed.\<close>

definition change_fits :: "DocumentViewChange \<Rightarrow> (DocumentKey \<Rightarrow> MutableDocument option) \<Rightarrow> bool" where
  "change_fits c new \<longleftrightarrow> (change_type c = Change_Added \<longleftrightarrow> new (doc_key (change_document c)) = None)"

definition after_change :: "DocumentViewChange \<Rightarrow> (DocumentKey \<Rightarrow> MutableDocument option) \<Rightarrow> DocumentKey \<Rightarrow> MutableDocument option" where
  "after_change c new = new(doc_key (change_document c) :=
     (if change_type c = Change_Removed then None else Some (change_document c)))"

lemma describes_update:
  assumes "describes cs old new" "SortedMap_get cs' = (SortedMap_get cs)(k := c)" "change_describes k c (old k) d"
  shows "describes cs' old (new(k := d))"
  using assms by (simp add: describes_def)

lemma AddChange_describes:
  assumes inv: "key_map_inv cs" "SortedMap_size cs < tree_capacity" and d: "describes cs old new" and fits: "change_fits c new"
  shows "\<exists>cs'. AddChange cs c = Inr cs' \<and> key_map_inv cs' \<and> describes cs' old (after_change c new)"
proof -
  let ?k = "doc_key (change_document c)"
  note ins = key_dict.dict_insert[OF inv, of ?k] and era = key_dict.dict_erase[OF inv(1), of ?k]
  have k: "change_describes ?k (SortedMap_get cs ?k) (old ?k) (new ?k)" using d by (simp add: describes_def)
  have step: "\<exists>cs'. SortedMap_insert cs ?k c' = Inr cs' \<and> key_map_inv cs' \<and> describes cs' old (after_change c new)"
    if "change_describes ?k (Some c') (old ?k) (after_change c new ?k)" for c'
    using ins[of c'] describes_update[OF d, of _ ?k "Some c'"] that by (auto simp: after_change_def)
  show ?thesis
  proof (cases "SortedMap_get cs ?k")
    case None
    then show ?thesis using step[of c] k fits
      by (cases "change_type c") (auto simp: AddChange_def change_describes_def change_fits_def after_change_def)
  next
    case (Some c0)
    note facts = Some k fits
    have erase: "\<exists>cs'. SortedMap_erase cs ?k = Inr cs' \<and> key_map_inv cs' \<and> describes cs' old (after_change c new)"
      if "change_type c0 = Change_Added" "change_type c = Change_Removed"
      using era describes_update[OF d, of _ ?k None None] that facts by (auto simp: change_describes_def after_change_def)
    show ?thesis
      using facts step[of c] step[of "make_change (change_document c) (change_type c0)"]
        step[of "make_change (change_document c) Change_Modified"] step[of "make_change (change_document c0) Change_Removed"] erase
      by (cases "change_type c"; cases "change_type c0")
        (simp_all add: AddChange_def Let_def make_change_def change_describes_def change_fits_def after_change_def)
  qed
qed

lemma describes_dom: "describes cs old new \<Longrightarrow> dom (SortedMap_get cs) \<subseteq> dom old \<union> dom new"
proof
  fix k
  assume "describes cs old new" "k \<in> dom (SortedMap_get cs)"
  then obtain c where "SortedMap_get cs k = Some c" "change_describes k (Some c) (old k) (new k)"
    by (auto simp: describes_def) metis
  then show "k \<in> dom old \<union> dom new" by (cases "change_type c") (auto simp: change_describes_def)
qed

lemma describes_size:
  assumes "key_map_inv cs" "describes cs old new" "finite (dom old)" "finite (dom new)"
  shows "SortedMap_size cs \<le> card (dom old) + card (dom new)"
proof -
  have "SortedMap_size cs \<le> card (dom old \<union> dom new)"
    unfolding key_dict.dict_size(2)[OF assms(1)] using describes_dom[OF assms(2)] assms(3,4) by (intro card_mono) simp_all
  also have "\<dots> \<le> card (dom old) + card (dom new)" by (rule card_Un_le)
  finally show ?thesis .
qed

section \<open>The loop over the changed documents\<close>

definition results_ok :: "absl_strings \<Rightarrow> (string \<Rightarrow> string list) \<Rightarrow> Query \<Rightarrow> DocumentSet \<Rightarrow> bool" where
  "results_ok a split q ds \<longleftrightarrow> document_set_inv (DocumentComparator_of split q) ds \<and>
     (\<forall>d \<in> set (docs ds). Query_Matches a split q d = Inr True \<and> document_ok d)"

definition view_ok :: "absl_strings \<Rightarrow> (string \<Rightarrow> string list) \<Rightarrow> View \<Rightarrow> bool" where
  "view_ok a split v \<longleftrightarrow> results_ok a split (view_query v) (document_set v) \<and> key_map_inv (mutated_keys v) \<and>
     keys_in (mutated_keys v) \<subseteq> dom (GetDocument (document_set v))"

definition computed_ok :: "absl_strings \<Rightarrow> (string \<Rightarrow> string list) \<Rightarrow> View \<Rightarrow> ViewDocumentChanges \<Rightarrow> bool" where
  "computed_ok a split v st \<longleftrightarrow> results_ok a split (view_query v) (changed_documents st) \<and> key_map_inv (change_set st) \<and>
     key_map_inv (changed_mutated_keys st) \<and> keys_in (changed_mutated_keys st) \<subseteq> dom (GetDocument (changed_documents st)) \<and>
     describes (change_set st) (GetDocument (document_set v)) (GetDocument (changed_documents st))"

definition room :: "View \<Rightarrow> ViewDocumentChanges \<Rightarrow> nat \<Rightarrow> bool" where
  "room v st n \<longleftrightarrow> DocumentSet_size (document_set v) + DocumentSet_size (changed_documents st) + n < tree_capacity"

lemma results_inv: "results_ok a split q ds \<Longrightarrow> document_set_inv (DocumentComparator_of split q) ds"
  by (simp add: results_ok_def)

lemma computed_inv:
  "computed_ok a split v st \<Longrightarrow> document_set_inv (DocumentComparator_of split (view_query v)) (changed_documents st)"
  by (simp add: computed_ok_def results_ok_def)

lemma AddChange_ok:
  assumes v: "view_ok a split v" and st: "computed_ok a split v st" and r: "room v st 0"
    and fits: "change_fits (make_change d t) (GetDocument (changed_documents st))"
  shows "\<exists>cs. AddChange (change_set st) (make_change d t) = Inr cs \<and> key_map_inv cs \<and>
    describes cs (GetDocument (document_set v)) (after_change (make_change d t) (GetDocument (changed_documents st)))"
proof -
  have i: "document_set_inv (DocumentComparator_of split (view_query v)) (document_set v)"
    "document_set_inv (DocumentComparator_of split (view_query v)) (changed_documents st)"
    using v st by (simp_all add: view_ok_def computed_ok_def results_ok_def)
  have c: "key_map_inv (change_set st)" "describes (change_set st) (GetDocument (document_set v)) (GetDocument (changed_documents st))"
    using st by (simp_all add: computed_ok_def)
  have "SortedMap_size (change_set st) < tree_capacity"
    using describes_size[OF c] query_order.GetDocument_size[OF i(1)] query_order.GetDocument_size[OF i(2)] r by (simp add: room_def)
  from AddChange_describes[OF c(1) this c(2) fits] show ?thesis .
qed

lemma add_change_ok:
  assumes "view_ok a split v" "computed_ok a split v st" "room v st 0"
    "change_fits (make_change d t) (GetDocument (changed_documents st))"
  shows "\<exists>cs. add_change st d t refill = Inr (st\<lparr>change_set := cs, needs_refill := needs_refill st \<or> refill\<rparr>, True) \<and> key_map_inv cs \<and>
    describes cs (GetDocument (document_set v)) (after_change (make_change d t) (GetDocument (changed_documents st)))"
  using AddChange_ok[OF assms] by (auto simp: add_change_def)

lemma apply_change_ok:
  assumes ok: "results_ok a split q (changed_documents st)" and size: "DocumentSet_size (changed_documents st) < tree_capacity"
    and mk: "key_map_inv (changed_mutated_keys st)" "keys_in (changed_mutated_keys st) \<subseteq> dom (GetDocument (changed_documents st))"
    and new: "\<forall>d. new = Some d \<longrightarrow> doc_key d = k \<and> Query_Matches a split q d = Inr True \<and> document_ok d"
  shows "\<exists>ds mk. apply_change k new st = Inr (st\<lparr>changed_documents := ds, changed_mutated_keys := mk\<rparr>) \<and> results_ok a split q ds \<and>
    GetDocument ds = (GetDocument (changed_documents st))(k := new) \<and> key_map_inv mk \<and> keys_in mk \<subseteq> dom (GetDocument ds)"
proof -
  note inv = results_inv[OF ok]
  have fin: "finite (dom (GetDocument (changed_documents st)))" "card (keys_in (changed_mutated_keys st)) < tree_capacity"
    using query_order.GetDocument_size[OF inv] size card_mono[OF _ mk(2)] by simp_all
  obtain mk' where mk': "SortedSet_erase (changed_mutated_keys st) k = Inr mk'" "key_map_inv mk'"
    "keys_in mk' = keys_in (changed_mutated_keys st) - {k}" using keys_in_erase[OF mk(1), of k] by blast
  show ?thesis
  proof (cases new)
    case None
    obtain ds where ds: "DocumentSet_erase (changed_documents st) k = Inr ds" "document_set_inv (DocumentComparator_of split q) ds"
      "docs ds = filter (\<lambda>d. doc_key d \<noteq> k) (docs (changed_documents st))" "GetDocument ds = (GetDocument (changed_documents st))(k := None)"
      using query_order.DocumentSet_erase_get[OF inv, of k] by (elim exE conjE)
    have "results_ok a split q ds" using ok ds(2,3) by (simp add: results_ok_def)
    then show ?thesis using None ds(1,4) mk' mk(2) by (intro exI[of _ ds] exI[of _ mk']) (auto simp: apply_change_def)
  next
    case (Some d)
    then have d: "doc_key d = k" "Query_Matches a split q d = Inr True" "document_ok d" using new by auto
    obtain ds where ds: "DocumentSet_insert (changed_documents st) (Some d) = Inr ds" "document_set_inv (DocumentComparator_of split q) ds"
      "set (docs ds) = insert d {x \<in> set (docs (changed_documents st)). doc_key x \<noteq> doc_key d}"
      "GetDocument ds = (GetDocument (changed_documents st))(doc_key d \<mapsto> d)"
      using query_order.DocumentSet_insert_get[OF inv size, of d] by (elim exE conjE)
    have r: "results_ok a split q ds" using ok ds(2,3) d by (simp add: results_ok_def)
    obtain mk1 where mk1: "SortedSet_insert (changed_mutated_keys st) k = Inr mk1" "key_map_inv mk1"
      "keys_in mk1 = insert k (keys_in (changed_mutated_keys st))" using keys_in_insert[OF mk(1) fin(2), of k] by blast
    show ?thesis using Some ds(1,4) r mk' mk1 mk(2) d(1)
      by (intro exI[of _ ds] exI[of _ "if has_local_mutations d then mk1 else mk'"]) (auto simp: apply_change_def)
  qed
qed

definition same_value :: "(string \<Rightarrow> string list) \<Rightarrow> MutableDocument \<Rightarrow> MutableDocument \<Rightarrow> bool" where
  "same_value split x y \<longleftrightarrow> Value_Equals split (Map_value (doc_data x)) (Map_value (doc_data y)) = Inr True"

lemma Value_Equals_documents:
  assumes "document_ok x" "document_ok y"
  shows "Value_Equals split (Map_value (doc_data x)) (Map_value (doc_data y)) = Inr (same_value split x y)"
proof -
  let ?x = "Map_value (doc_data x)" and ?y = "Map_value (doc_data y)"
  have ok: "value_ok ?x" "value_ok ?y" using assms by (simp_all add: document_ok_def)
  have m: "\<exists>b. MapValueEquals split ?x ?y = Inr b"
    using CompareMaps_container[OF ok, of split] by (auto simp: MapValueEquals_def)
  have "\<exists>b. Value_Equals split ?x ?y = Inr b"
  proof (cases "GetTypeOrder ?x = GetTypeOrder ?y")
    case True
    have "GetTypeOrder ?x \<in> {kServerTimestamp, kMaxValue, kVector, kMap}" by simp
    then consider "GetTypeOrder ?x = kServerTimestamp" | "GetTypeOrder ?x \<in> {kMaxValue, kVector, kMap}" by blast
    then show ?thesis
    proof cases
      case 1
      obtain s t where "GetLocalWriteTime ?x = Inr s" "GetLocalWriteTime ?y = Inr t"
        using GetLocalWriteTime_ok[OF ok(1) GetTypeOrder_server[OF 1]] GetLocalWriteTime_ok[OF ok(2) GetTypeOrder_server] 1 True by metis
      then show ?thesis using 1 True by (simp add: Value_Equals.simps)
    next
      case 2
      then show ?thesis using m True by (auto simp: Value_Equals.simps[of split ?x ?y] Let_def simp del: GetTypeOrder.simps)
    qed
  qed (auto simp: Value_Equals.simps[of split ?x ?y] Let_def simp del: GetTypeOrder.simps)
  then show ?thesis by (auto simp: same_value_def)
qed

text \<open>The version of a document that the view shows after a change, and whether the change asks for a refill.\<close>

definition keeps_old :: "(string \<Rightarrow> string list) \<Rightarrow> View \<Rightarrow> MutableDocument \<Rightarrow> MutableDocument \<Rightarrow> bool" where
  "keeps_old split v old new \<longleftrightarrow>
     (if same_value split old new
      then (doc_key old \<in> keys_in (mutated_keys v) \<longleftrightarrow>
        has_local_mutations new \<or> doc_key old \<in> keys_in (mutated_keys v) \<and> has_committed_mutations new)
      else ShouldWaitForSyncedDocument new old)"

fun shown_document :: "(string \<Rightarrow> string list) \<Rightarrow> View \<Rightarrow> MutableDocument option \<Rightarrow> MutableDocument option \<Rightarrow> MutableDocument option" where
  "shown_document split v (Some old) (Some new) = Some (if keeps_old split v old new then old else new)"
| "shown_document split v _ new = new"

fun asks_refill :: "(string \<Rightarrow> string list) \<Rightarrow> View \<Rightarrow> MutableDocument option \<Rightarrow> MutableDocument option \<Rightarrow> MutableDocument option \<Rightarrow> MutableDocument option \<Rightarrow> bool" where
  "asks_refill split v l f (Some old) (Some new) \<longleftrightarrow> \<not> same_value split old new \<and> \<not> ShouldWaitForSyncedDocument new old \<and> outside_limits v l f new"
| "asks_refill split v l f (Some old) None \<longleftrightarrow> l \<noteq> None \<or> f \<noteq> None"
| "asks_refill split v l f None _ \<longleftrightarrow> False"

lemma GetDocument_key: "document_set_inv (DocumentComparator_of split q) ds \<Longrightarrow> GetDocument ds k = Some d \<Longrightarrow> doc_key d = k"
  using query_order.GetDocument_iff by blast

lemma results_document:
  "results_ok a split q ds \<Longrightarrow> GetDocument ds k = Some d \<Longrightarrow> doc_key d = k \<and> Query_Matches a split q d = Inr True \<and> document_ok d"
  using query_order.GetDocument_iff[of split q ds k d] by (simp add: results_ok_def)

lemma visit_document_ok:
  assumes v: "view_ok a split v" and st: "computed_ok a split v st" and r: "room v st 0"
    and old: "GetDocument (changed_documents st) k = GetDocument old_set k"
    and doc: "doc_key doc = k" "document_ok doc" "Query_Matches a split (view_query v) doc = Inr m"
  defines "new \<equiv> if m then Some doc else None"
  shows "\<exists>st'. visit_document a split v old_set l f (k, doc) st = Inr st' \<and> computed_ok a split v st' \<and>
    GetDocument (changed_documents st') = (GetDocument (changed_documents st))(k := shown_document split v (GetDocument old_set k) new) \<and>
    needs_refill st' = (needs_refill st \<or> asks_refill split v l f (GetDocument old_set k) new)"
proof -
  let ?g = "GetDocument (changed_documents st)" and ?q = "view_query v"
  have ok: "results_ok a split ?q (changed_documents st)" "key_map_inv (changed_mutated_keys st)"
    "keys_in (changed_mutated_keys st) \<subseteq> dom ?g" using st by (simp_all add: computed_ok_def)
  have size: "DocumentSet_size (changed_documents st) < tree_capacity" using r by (simp add: room_def)
  have applied: "\<exists>st'. bind_res (add_change st d t refill) (\<lambda>(st', applied). if applied then apply_change k new st' else Inr st') = Inr st' \<and>
      computed_ok a split v st' \<and> GetDocument (changed_documents st') = ?g(k := new) \<and> needs_refill st' = (needs_refill st \<or> refill)"
    if fits: "change_fits (make_change d t) ?g" and after: "after_change (make_change d t) ?g = ?g(k := new)" for d t refill
  proof -
    obtain cs where cs: "add_change st d t refill = Inr (st\<lparr>change_set := cs, needs_refill := needs_refill st \<or> refill\<rparr>, True)"
      "key_map_inv cs" "describes cs (GetDocument (document_set v)) (?g(k := new))"
      using add_change_ok[OF v st r fits] unfolding after by blast
    let ?st = "st\<lparr>change_set := cs, needs_refill := needs_refill st \<or> refill\<rparr>"
    have n: "\<forall>d. new = Some d \<longrightarrow> doc_key d = k \<and> Query_Matches a split ?q d = Inr True \<and> document_ok d"
      using doc by (simp add: new_def)
    obtain ds mk where "apply_change k new ?st = Inr (?st\<lparr>changed_documents := ds, changed_mutated_keys := mk\<rparr>)"
      "results_ok a split ?q ds" "GetDocument ds = ?g(k := new)" "key_map_inv mk" "keys_in mk \<subseteq> dom (GetDocument ds)"
      using apply_change_ok[of a split ?q ?st new k, OF _ _ _ _ n] ok size by auto
    then show ?thesis using cs by (simp add: computed_ok_def)
  qed
  let ?visit = "visit_document a split v old_set l f (k, doc) st"
  let ?f = "\<lambda>(st', applied). if applied then apply_change k new st' else Inr st'"
  let ?shown = "shown_document split v (GetDocument old_set k) new"
  have V: "?visit = bind_res (calculate_change split v l f k (GetDocument old_set k) new st) ?f"
    unfolding visit_document_def Let_def fst_conv snd_conv doc(3) bind_res_simps new_def by (rule refl)
  have skipped: ?thesis if "?visit = Inr st" "?shown = ?g k" "\<not> asks_refill split v l f (GetDocument old_set k) new"
    using st that by (intro exI[of _ st]) (simp add: fun_upd_idem_iff)
  have changed: ?thesis if "?visit = bind_res (add_change st d t refill) ?f" "?shown = new"
    "asks_refill split v l f (GetDocument old_set k) new = refill"
    "change_fits (make_change d t) ?g" "after_change (make_change d t) ?g = ?g(k := new)" for d t refill
    using applied[OF that(4,5), of refill] unfolding that(1,2,3) .
  show ?thesis
  proof (cases "GetDocument old_set k")
    case None
    show ?thesis
    proof (cases m)
      case True
      then have n: "new = Some doc" by (simp add: new_def)
      show ?thesis unfolding n using None old doc True
        by (intro changed[of doc Change_Added False, unfolded n])
          (simp_all add: V[unfolded n] calculate_change_def change_fits_def after_change_def make_change_def)
    next
      case False
      then show ?thesis using None old doc by (intro skipped) (simp_all add: V calculate_change_def new_def)
    qed
  next
    case (Some x)
    then have x: "doc_key x = k" "document_ok x" "?g k = Some x" using results_document[OF ok(1), of k x] old by simp_all
    have mk: "SortedSet_contains (mutated_keys v) k \<longleftrightarrow> k \<in> keys_in (mutated_keys v)"
      using v by (simp add: view_ok_def keys_in_contains)
    show ?thesis
    proof (cases m)
      case False
      then have n: "new = None" by (simp add: new_def)
      show ?thesis unfolding n using Some x doc False
        by (intro changed[of x Change_Removed "l \<noteq> None \<or> f \<noteq> None", unfolded n])
          (simp_all add: V[unfolded n] calculate_change_def change_fits_def after_change_def make_change_def)
    next
      case True
      then have n: "new = Some doc" by (simp add: new_def)
      note eqs = V[unfolded n] calculate_change_def Value_Equals_documents[OF x(2) doc(2)] mk Some doc(3) x True doc(1)
        change_fits_def after_change_def make_change_def
      consider "keeps_old split v x doc" | "\<not> keeps_old split v x doc" "same_value split x doc"
        | "\<not> keeps_old split v x doc" "\<not> same_value split x doc" by blast
      then show ?thesis
      proof cases
        case 1
        then show ?thesis unfolding n by (intro skipped[unfolded n]) (auto simp: eqs keeps_old_def Let_def split: if_splits)
      next
        case 2
        then show ?thesis unfolding n by (intro changed[of doc Change_Metadata False, unfolded n]) (auto simp: eqs keeps_old_def Let_def simp del: bind_res_eq_Inr cong del: prod.case_cong_weak split: if_splits)
      next
        case 3
        then show ?thesis unfolding n
          by (intro changed[of doc Change_Modified "outside_limits v l f doc", unfolded n])
            (auto simp: eqs keeps_old_def Let_def simp del: bind_res_eq_Inr cong del: prod.case_cong_weak split: if_splits)
      qed
    qed
  qed
qed

definition matching :: "absl_strings \<Rightarrow> (string \<Rightarrow> string list) \<Rightarrow> Query \<Rightarrow> MutableDocument \<Rightarrow> MutableDocument option" where
  "matching a split q d = (if Query_Matches a split q d = Inr True then Some d else None)"

definition incoming_ok :: "absl_strings \<Rightarrow> (string \<Rightarrow> string list) \<Rightarrow> Query \<Rightarrow> (DocumentKey \<times> MutableDocument) list \<Rightarrow> bool" where
  "incoming_ok a split q kvs \<longleftrightarrow> distinct (map fst kvs) \<and>
     (\<forall>(k, d) \<in> set kvs. doc_key d = k \<and> document_ok d \<and> (\<exists>m. Query_Matches a split q d = Inr m))"

lemma card_dom_update: "finite (dom g) \<Longrightarrow> card (dom (g(k := x))) \<le> Suc (card (dom g))"
proof -
  assume f: "finite (dom g)"
  have "card (dom (g(k := x))) \<le> card (insert k (dom g))" using f by (intro card_mono) (auto split: if_splits)
  also have "\<dots> \<le> Suc (card (dom g))" using card_insert_le_m1 f by (simp add: card_insert_if)
  finally show ?thesis .
qed

lemma visit_documents_ok:
  assumes v: "view_ok a split v"
  shows "\<lbrakk>computed_ok a split v st; room v st (length kvs); incoming_ok a split (view_query v) kvs;
      \<forall>k \<in> set (map fst kvs). GetDocument (changed_documents st) k = GetDocument old_set k\<rbrakk> \<Longrightarrow>
    \<exists>st'. visit_documents a split v old_set l f kvs st = Inr st' \<and> computed_ok a split v st' \<and> room v st' 0 \<and>
      (\<forall>k. GetDocument (changed_documents st') k = (case map_of kvs k of None \<Rightarrow> GetDocument (changed_documents st) k
         | Some d \<Rightarrow> shown_document split v (GetDocument old_set k) (matching a split (view_query v) d))) \<and>
      (needs_refill st' \<longleftrightarrow> needs_refill st \<or>
        (\<exists>(k, d) \<in> set kvs. asks_refill split v l f (GetDocument old_set k) (matching a split (view_query v) d)))"
proof (induction kvs arbitrary: st)
  case (Cons kv kvs)
  obtain k d where kv: "kv = (k, d)" by fastforce
  let ?q = "view_query v"
  have d: "doc_key d = k" "document_ok d" using Cons.prems(3) by (auto simp: kv incoming_ok_def)
  obtain m where m: "Query_Matches a split ?q d = Inr m" using Cons.prems(3) by (auto simp: kv incoming_ok_def)
  have mm: "matching a split ?q d = (if m then Some d else None)" by (simp add: matching_def m)
  have r: "room v st 0" using Cons.prems(2) by (simp add: room_def)
  have "GetDocument (changed_documents st) k = GetDocument old_set k" using Cons.prems(4) by (simp add: kv)
  then obtain st1 where st1: "visit_document a split v old_set l f kv st = Inr st1" "computed_ok a split v st1"
    "GetDocument (changed_documents st1) = (GetDocument (changed_documents st))(k := shown_document split v (GetDocument old_set k) (matching a split ?q d))"
    "needs_refill st1 = (needs_refill st \<or> asks_refill split v l f (GetDocument old_set k) (matching a split ?q d))"
    using visit_document_ok[OF v Cons.prems(1) r _ d m] unfolding kv mm by blast
  have i: "document_set_inv (DocumentComparator_of split ?q) (changed_documents st)" "document_set_inv (DocumentComparator_of split ?q) (changed_documents st1)"
    using computed_inv[OF Cons.prems(1)] computed_inv[OF st1(2)] .
  have "DocumentSet_size (changed_documents st1) \<le> Suc (DocumentSet_size (changed_documents st))"
    unfolding query_order.GetDocument_size(2)[OF i(1)] query_order.GetDocument_size(2)[OF i(2)] st1(3)
    by (rule card_dom_update[OF query_order.GetDocument_size(1)[OF i(1)]])
  then have r1: "room v st1 (length kvs)" using Cons.prems(2) by (simp add: room_def)
  have io: "incoming_ok a split ?q kvs" "k \<notin> set (map fst kvs)" using Cons.prems(3) by (auto simp: kv incoming_ok_def)
  have "\<forall>k' \<in> set (map fst kvs). GetDocument (changed_documents st1) k' = GetDocument old_set k'"
    using Cons.prems(4) io(2) by (auto simp: kv st1(3))
  from Cons.IH[OF st1(2) r1 io(1) this] obtain st' where st': "visit_documents a split v old_set l f kvs st1 = Inr st'"
    "computed_ok a split v st'" "room v st' 0"
    "\<forall>k. GetDocument (changed_documents st') k = (case map_of kvs k of None \<Rightarrow> GetDocument (changed_documents st1) k
         | Some d \<Rightarrow> shown_document split v (GetDocument old_set k) (matching a split ?q d))"
    "needs_refill st' \<longleftrightarrow> needs_refill st1 \<or>
        (\<exists>(k, d) \<in> set kvs. asks_refill split v l f (GetDocument old_set k) (matching a split ?q d))" by blast
  have "map_of kvs k = None" using io(2) by (simp add: map_of_eq_None_iff)
  then show ?case using st' st1(1,4) by (intro exI[of _ st']) (auto simp: kv st1(3) split: option.split)
qed (simp add: room_def)

subsection \<open>Meeting the limit\<close>

lemma filter_keys_last:
  assumes "distinct xs" "inj_on doc_key (set xs)" "xs \<noteq> []"
  shows "filter (\<lambda>d. doc_key d \<noteq> doc_key (last xs)) xs = take (length xs - 1) xs"
proof -
  obtain ys y where xs: "xs = ys @ [y]" using assms(3) by (cases xs rule: rev_cases) auto
  have "doc_key d \<noteq> doc_key y" if "d \<in> set ys" for d using inj_onD[OF assms(2), of d y] assms(1) that by (auto simp: xs)
  then show ?thesis by (simp add: xs)
qed

lemma filter_keys_first:
  assumes "distinct xs" "inj_on doc_key (set xs)" "xs \<noteq> []"
  shows "filter (\<lambda>d. doc_key d \<noteq> doc_key (hd xs)) xs = drop 1 xs"
proof -
  obtain ys y where xs: "xs = y # ys" using assms(3) by (cases xs) auto
  have "doc_key d \<noteq> doc_key y" if "d \<in> set ys" for d using inj_onD[OF assms(2), of d y] assms(1) that by (auto simp: xs)
  then show ?thesis by (simp add: xs)
qed

definition kept_within :: "Query \<Rightarrow> nat \<Rightarrow> MutableDocument list \<Rightarrow> MutableDocument list" where
  "kept_within q n ds = (if has_limit_to_first q then take (length ds - n) ds else drop n ds)"

lemma drop_documents_ok:
  assumes v: "view_ok a split v"
  shows "\<lbrakk>computed_ok a split v st; room v st 0; n \<le> length (docs (changed_documents st))\<rbrakk> \<Longrightarrow>
    \<exists>st'. drop_documents (view_query v) n st = Inr st' \<and> computed_ok a split v st' \<and>
      docs (changed_documents st') = kept_within (view_query v) n (docs (changed_documents st)) \<and> needs_refill st' = needs_refill st"
proof (induction n arbitrary: st)
  case 0
  then show ?case by (simp add: kept_within_def)
next
  case (Suc n)
  let ?q = "view_query v" and ?ds = "docs (changed_documents st)"
  have inv: "document_set_inv (DocumentComparator_of split ?q) (changed_documents st)"
    by (rule computed_inv[OF Suc.prems(1)])
  note dis = query_order.docs_distinct[OF inv] query_order.docs_keys_inj[OF inv]
  have ne: "?ds \<noteq> []" using Suc.prems(3) by auto
  define d where "d = (if has_limit_to_first ?q then last ?ds else hd ?ds)"
  have found: "(if has_limit_to_first ?q then GetLastDocument (changed_documents st) else GetFirstDocument (changed_documents st)) = Inr (Some d)"
    using query_order.GetLastDocument_docs[OF inv] query_order.GetFirstDocument_docs[OF inv] ne by (cases ?ds) (simp_all add: d_def)
  have din: "d \<in> set ?ds" using ne by (simp add: d_def)
  then have g: "GetDocument (changed_documents st) (doc_key d) = Some d" using query_order.GetDocument_iff[OF inv] by blast
  obtain ds where ds: "DocumentSet_erase (changed_documents st) (doc_key d) = Inr ds" "document_set_inv (DocumentComparator_of split ?q) ds"
    "docs ds = filter (\<lambda>x. doc_key x \<noteq> doc_key d) ?ds" "GetDocument ds = (GetDocument (changed_documents st))(doc_key d := None)"
    using query_order.DocumentSet_erase_get[OF inv, of "doc_key d"] by (elim exE conjE)
  have kept: "docs ds = kept_within ?q 1 ?ds"
    using ds(3) filter_keys_last[OF dis ne] filter_keys_first[OF dis ne] by (simp add: d_def kept_within_def)
  obtain mk where mk: "SortedSet_erase (changed_mutated_keys st) (doc_key d) = Inr mk" "key_map_inv mk"
    "keys_in mk = keys_in (changed_mutated_keys st) - {doc_key d}"
    using keys_in_erase[of "changed_mutated_keys st" "doc_key d"] Suc.prems(1) by (auto simp: computed_ok_def)
  have "change_fits (make_change d Change_Removed) (GetDocument (changed_documents st))" using g by (simp add: change_fits_def make_change_def)
  from AddChange_ok[OF v Suc.prems(1,2) this] obtain cs where
    cs: "AddChange (change_set st) (make_change d Change_Removed) = Inr cs" "key_map_inv cs"
      "describes cs (GetDocument (document_set v)) (GetDocument ds)"
    unfolding ds(4) by (auto simp: after_change_def make_change_def)
  let ?st = "st\<lparr>changed_documents := ds, changed_mutated_keys := mk, change_set := cs\<rparr>"
  have "results_ok a split ?q ds" using Suc.prems(1) ds(2,3) by (simp add: computed_ok_def results_ok_def)
  then have ok: "computed_ok a split v ?st" using cs mk Suc.prems(1) by (auto simp: computed_ok_def ds(4))
  have l: "length (docs ds) = length ?ds - 1" using kept by (simp add: kept_within_def)
  then have "room v ?st 0" using Suc.prems(2) query_order.DocumentSet_size_docs[OF inv] query_order.DocumentSet_size_docs[OF ds(2)]
    by (simp add: room_def)
  moreover have "n \<le> length (docs (changed_documents ?st))" using Suc.prems(3) l by simp
  ultimately obtain st' where "drop_documents ?q n ?st = Inr st'" "computed_ok a split v st'"
    "docs (changed_documents st') = kept_within ?q n (docs ds)" "needs_refill st' = needs_refill st"
    using Suc.IH[OF ok] by auto
  moreover have "kept_within ?q n (docs ds) = kept_within ?q (Suc n) ?ds" using Suc.prems(3) l
    by (simp add: kept kept_within_def min_def)
  ultimately show ?case using found ds(1) mk(1) cs(1) by (intro exI[of _ st']) simp
qed

section \<open>The first documents of a set\<close>

definition firsts :: "'a cmp \<Rightarrow> nat \<Rightarrow> 'a set \<Rightarrow> 'a set \<Rightarrow> bool" where
  "firsts cmp n S L \<longleftrightarrow> finite S \<and> L \<subseteq> S \<and> card L = min n (card S) \<and> (\<forall>x \<in> S - L. \<forall>y \<in> L. cmp y x = Ascending)"

lemma firsts_all: "firsts cmp n S L \<Longrightarrow> card L < n \<Longrightarrow> L = S"
  by (auto simp: firsts_def min_def card_subset_eq split: if_splits)

lemma firsts_0: "finite S \<Longrightarrow> firsts cmp 0 S L \<longleftrightarrow> L = {}"
  using finite_subset[of L S] by (auto simp: firsts_def)

context comparator
begin

lemma Ascending_irrefl: "cmp x x \<noteq> Ascending"
  by (simp add: cmp_refl)

lemma sorted_distinct: "sorted_wrt (\<lambda>x y. cmp x y = Ascending) xs \<Longrightarrow> distinct xs"
  by (induction xs) (auto simp: Ascending_irrefl)

lemma firsts_take:
  assumes "sorted_wrt (\<lambda>x y. cmp x y = Ascending) xs"
  shows "firsts cmp n (set xs) (set (take n xs))"
proof -
  have d: "distinct xs" by (rule sorted_distinct[OF assms])
  have "sorted_wrt (\<lambda>x y. cmp x y = Ascending) (take n xs @ drop n xs)" using assms by simp
  then have "\<forall>x \<in> set (take n xs). \<forall>y \<in> set (drop n xs). cmp x y = Ascending" unfolding sorted_wrt_append by blast
  moreover have "set xs - set (take n xs) \<subseteq> set (drop n xs)" by (metis Diff_subset_conv append_take_drop_id order_refl set_append)
  ultimately show ?thesis using distinct_card[OF d] distinct_card[OF distinct_take[OF d, of n]]
    by (auto simp: firsts_def min_def dest: in_set_takeD)
qed

text \<open>
  The first documents of a larger set are found in a part of it that keeps, for every old result, a document that does
  not lie behind the last old result, if everything outside that part lay behind the old results already.
\<close>

lemma firsts_extend:
  assumes old: "\<forall>x \<in> S' - N. cmp bound x = Ascending" and W: "W \<subseteq> N" "n \<le> card W" "\<forall>w \<in> W. cmp w bound \<noteq> Descending"
    and N: "N \<subseteq> S'" "finite S'" and L: "firsts cmp n N L"
  shows "firsts cmp n S' L"
proof -
  have fin: "finite N" "finite W" "finite L" using N W(1) L by (auto simp: firsts_def intro: finite_subset)
  have cN: "n \<le> card N" using W(1,2) card_mono[OF fin(1) W(1)] by linarith
  have cL: "card L = n" using L cN by (simp add: firsts_def)
  have near: "cmp y bound \<noteq> Descending" if y: "y \<in> L" for y
  proof
    assume far: "cmp y bound = Descending"
    then have by_: "cmp bound y = Ascending" by (simp add: Descending_iff)
    have wy: "cmp w y = Ascending" if "w \<in> W" for w
      using W(3) that by_ by (cases "cmp w bound") (auto intro: Ascending_trans Same_Ascending)
    have "W \<subseteq> L"
    proof
      fix w
      assume w: "w \<in> W"
      show "w \<in> L"
      proof (rule ccontr)
        assume "w \<notin> L"
        then have "cmp y w = Ascending" using L w W(1) y by (auto simp: firsts_def)
        then show False using wy[OF w] Ascending_asym by blast
      qed
    qed
    moreover have "y \<notin> W" using wy Ascending_irrefl by blast
    ultimately have "insert y W \<subseteq> L" "card (insert y W) = Suc (card W)" using y fin(2) by auto
    then show False using card_mono[OF fin(3), of "insert y W"] cL W(2) by simp
  qed
  have "cmp y x = Ascending" if x: "x \<in> S' - L" and y: "y \<in> L" for x y
  proof (cases "x \<in> N")
    case True
    then show ?thesis using L x y by (simp add: firsts_def)
  next
    case False
    then have "cmp bound x = Ascending" using old x by blast
    then show ?thesis using near[OF y] by (cases "cmp y bound") (auto intro: Ascending_trans Same_Ascending)
  qed
  moreover have "card S' \<ge> n" using cN card_mono[OF N(2,1)] by linarith
  ultimately show ?thesis using L N cL by (auto simp: firsts_def)
qed

end

lemma comparator_flip: "comparator cmp \<Longrightarrow> comparator (\<lambda>x y. cmp y x)"
proof (unfold_locales, goal_cases)
  case (1 x)
  then show ?case by (rule comparator.cmp_refl)
next
  case (2 x y)
  then show ?case by (rule comparator.cmp_sym)
next
  case (3 x y z)
  then show ?case using comparator.cmp_trans[of cmp z y x] by blast
qed

section \<open>The results of a query\<close>

text \<open>
  What a list of results has to be, given the set of matching documents: in the order of the query, all of them without a
  limit, the first or the last ones with a limit.
\<close>

definition is_results :: "(string \<Rightarrow> string list) \<Rightarrow> Query \<Rightarrow> MutableDocument set \<Rightarrow> MutableDocument list \<Rightarrow> bool" where
  "is_results split q S L \<longleftrightarrow> sorted_wrt (\<lambda>x y. DocumentComparator_of split q x y = Ascending) L \<and>
     (if has_limit_to_first q then firsts (DocumentComparator_of split q) (limit_size q) S (set L)
      else if has_limit_to_last q then firsts (\<lambda>x y. DocumentComparator_of split q y x) (limit_size q) S (set L)
      else set L = S)"

definition limited :: "Query \<Rightarrow> MutableDocument list \<Rightarrow> MutableDocument list" where
  "limited q xs = (if limit_type q \<noteq> LimitNone \<and> limit_size q < length xs then kept_within q (length xs - limit_size q) xs else xs)"

lemma no_limit_size: "query_limit q = kNoLimit \<Longrightarrow> limit_size q = tree_capacity"
  by (simp add: limit_size_def kNoLimit_def tree_capacity_def)

lemma limited_first: "has_limit_to_first q \<Longrightarrow> limited q xs = take (limit_size q) xs"
  by (auto simp: limited_def kept_within_def has_limit_to_first_def)

lemma limited_last: "has_limit_to_last q \<Longrightarrow> limited q xs = drop (length xs - limit_size q) xs"
  by (auto simp: limited_def kept_within_def has_limit_to_last_def has_limit_to_first_def)

lemma limited_none:
  "\<not> has_limit_to_first q \<Longrightarrow> \<not> has_limit_to_last q \<Longrightarrow> length xs < tree_capacity \<Longrightarrow> limited q xs = xs"
  using no_limit_size[of q] by (cases "limit_type q") (auto simp: limited_def has_limit_to_first_def has_limit_to_last_def)

lemma limited_is_results:
  assumes s: "sorted_wrt (\<lambda>x y. DocumentComparator_of split q x y = Ascending) xs" and l: "length xs < tree_capacity"
  shows "is_results split q (set xs) (limited q xs)"
proof -
  let ?c = "DocumentComparator_of split q"
  have flip: "comparator (\<lambda>x y. ?c y x)" by (rule comparator_flip[OF DocumentComparator_of_comparator])
  consider (first) "has_limit_to_first q" | (last) "\<not> has_limit_to_first q" "has_limit_to_last q"
    | (none) "\<not> has_limit_to_first q" "\<not> has_limit_to_last q" by blast
  then show ?thesis
  proof cases
    case first
    then show ?thesis using comparator.firsts_take[OF DocumentComparator_of_comparator s] s
      by (simp add: is_results_def limited_first sorted_wrt_take)
  next
    case last
    have "sorted_wrt (\<lambda>x y. ?c y x = Ascending) (rev xs)" using s by (simp add: sorted_wrt_rev)
    from comparator.firsts_take[OF flip this, of "limit_size q"] last s show ?thesis
      by (simp add: is_results_def limited_last sorted_wrt_drop take_rev)
  next
    case none
    then show ?thesis using s l by (simp add: is_results_def limited_none)
  qed
qed

section \<open>Computing document changes\<close>

definition documents_ok :: "absl_strings \<Rightarrow> (string \<Rightarrow> string list) \<Rightarrow> Query \<Rightarrow> DocumentMap \<Rightarrow> bool" where
  "documents_ok a split q m \<longleftrightarrow> key_map_inv m \<and>
     (\<forall>k d. SortedMap_get m k = Some d \<longrightarrow> doc_key d = k \<and> document_ok d \<and> (\<exists>b. Query_Matches a split q d = Inr b))"

lemma documents_incoming:
  assumes "documents_ok a split q m"
  shows "incoming_ok a split q (SortedMap_entries m)" "map_of (SortedMap_entries m) = SortedMap_get m"
    "length (SortedMap_entries m) = SortedMap_size m"
proof -
  have inv: "key_map_inv m" using assms by (simp add: documents_ok_def)
  have dis: "distinct (map fst (SortedMap_entries m))" by (rule key_dict.sorted_entries_distinct[OF key_dict.smap.sorted_m[OF inv]])
  then show "incoming_ok a split q (SortedMap_entries m)"
    using assms key_dict.dict_entries[OF inv] by (auto simp: incoming_ok_def documents_ok_def)
  show "map_of (SortedMap_entries m) = SortedMap_get m"
    by (rule option_fun_eqI) (simp add: map_of_eq_Some_iff[OF dis] key_dict.dict_entries[OF inv])
  show "length (SortedMap_entries m) = SortedMap_size m" using key_dict.SortedMap_size_entries[OF inv] by simp
qed

definition limit_last :: "Query \<Rightarrow> DocumentSet \<Rightarrow> MutableDocument option" where
  "limit_last q ds = (if has_limit_to_first q \<and> DocumentSet_size ds = limit_size q \<and> docs ds \<noteq> [] then Some (last (docs ds)) else None)"

definition limit_first :: "Query \<Rightarrow> DocumentSet \<Rightarrow> MutableDocument option" where
  "limit_first q ds = (if has_limit_to_last q \<and> DocumentSet_size ds = limit_size q \<and> docs ds \<noteq> [] then Some (hd (docs ds)) else None)"

lemma computed_initial: "view_ok a split v \<Longrightarrow> computed_ok a split v (initial_changes v None)"
  by (simp add: computed_ok_def view_ok_def initial_changes_def describes_def change_describes_def DocumentViewChangeSet_new_def)

text \<open>The set of results before the limit is applied, as a map from keys.\<close>

definition updated :: "absl_strings \<Rightarrow> (string \<Rightarrow> string list) \<Rightarrow> View \<Rightarrow> DocumentSet \<Rightarrow> DocumentMap \<Rightarrow> DocumentKey \<Rightarrow> MutableDocument option" where
  "updated a split v old_set m k = (case SortedMap_get m k of None \<Rightarrow> GetDocument old_set k
     | Some d \<Rightarrow> shown_document split v (GetDocument old_set k) (matching a split (view_query v) d))"

lemma ComputeDocumentChanges_steps:
  assumes v: "view_ok a split v" and prev: "computed_ok a split v (initial_changes v prev)"
    and r: "room v (initial_changes v prev) (SortedMap_size m)" and m: "documents_ok a split (view_query v) m"
  defines "old \<equiv> changed_documents (initial_changes v prev)" and "q \<equiv> view_query v"
  shows "\<exists>ds1 st2. ComputeDocumentChanges a split v m prev = (if needs_refill st2 \<and> prev \<noteq> None then Inl HardAssert else Inr st2) \<and>
    computed_ok a split v st2 \<and> document_set_inv (DocumentComparator_of split q) ds1 \<and> DocumentSet_size ds1 < tree_capacity \<and>
    GetDocument ds1 = updated a split v old m \<and> docs (changed_documents st2) = limited q (docs ds1) \<and>
    (needs_refill st2 \<longleftrightarrow> (\<exists>k d. SortedMap_get m k = Some d \<and>
       asks_refill split v (limit_last q old) (limit_first q old) (GetDocument old k) (matching a split q d)))"
proof -
  let ?st = "initial_changes v prev" and ?l = "limit_last q old" and ?f = "limit_first q old"
  note D = documents_incoming[OF m] and inv = computed_inv[OF prev]
  have nf: "\<not> needs_refill ?st" by (simp add: initial_changes_def split: option.split)
  obtain st1 where st1: "visit_documents a split v old ?l ?f (SortedMap_entries m) ?st = Inr st1" "computed_ok a split v st1" "room v st1 0"
    "\<forall>k. GetDocument (changed_documents st1) k = (case map_of (SortedMap_entries m) k of None \<Rightarrow> GetDocument (changed_documents ?st) k
         | Some d \<Rightarrow> shown_document split v (GetDocument old k) (matching a split (view_query v) d))"
    "needs_refill st1 \<longleftrightarrow> needs_refill ?st \<or>
        (\<exists>(k, d) \<in> set (SortedMap_entries m). asks_refill split v ?l ?f (GetDocument old k) (matching a split (view_query v) d))"
    using visit_documents_ok[OF v prev, of "SortedMap_entries m" old ?l ?f] r D by (auto simp: old_def)
  have g: "GetDocument (changed_documents st1) = updated a split v old m"
    using st1(4) unfolding D(2) old_def[symmetric] by (auto simp: updated_def)
  have inv1: "document_set_inv (DocumentComparator_of split q) (changed_documents st1)" using computed_inv[OF st1(2)] by (simp add: q_def)
  note size = query_order.DocumentSet_size_docs[OF inv1]
  have "\<exists>st2. meet_limit q st1 = Inr st2 \<and> computed_ok a split v st2 \<and>
      docs (changed_documents st2) = limited q (docs (changed_documents st1)) \<and> needs_refill st2 = needs_refill st1"
    using drop_documents_ok[OF v st1(2,3), of "length (docs (changed_documents st1)) - limit_size q"] st1(2)
    by (auto simp: meet_limit_def limited_def q_def size)
  then obtain st2 where st2: "meet_limit q st1 = Inr st2" "computed_ok a split v st2"
      "docs (changed_documents st2) = limited q (docs (changed_documents st1))" "needs_refill st2 = needs_refill st1" by blast
  have last: "(if has_limit_to_first q \<and> DocumentSet_size old = limit_size q then GetLastDocument old else Inr None) = Inr ?l"
    "(if has_limit_to_last q \<and> DocumentSet_size old = limit_size q then GetFirstDocument old else Inr None) = Inr ?f"
    using query_order.GetLastDocument_docs[OF inv] query_order.GetFirstDocument_docs[OF inv]
    by (auto simp: limit_last_def limit_first_def old_def split: list.split)
  have "ComputeDocumentChanges a split v m prev = (if needs_refill st2 \<and> prev \<noteq> None then Inl HardAssert else Inr st2)"
    unfolding ComputeDocumentChanges_def Let_def q_def[symmetric] old_def[symmetric] last using st1(1) st2(1) by simp
  moreover have "needs_refill st2 \<longleftrightarrow> (\<exists>k d. SortedMap_get m k = Some d \<and>
       asks_refill split v ?l ?f (GetDocument old k) (matching a split q d))"
    using st2(4) st1(5) nf key_dict.dict_entries[of m] m by (auto simp: documents_ok_def q_def Bex_def)
  moreover have "DocumentSet_size (changed_documents st1) < tree_capacity" using st1(3) by (simp add: room_def)
  ultimately show ?thesis using st2(2,3) g inv1 by - (intro exI[of _ "changed_documents st1"] exI[of _ st2] conjI; assumption)
qed

end
