(* ===== verification/View_Apply.thy ===== *)
theory View_Apply
  imports View_Results
begin

text \<open>
  Applying computed changes to a view: which keys the server is taken to know, which documents are in limbo, when the view is
  in sync, and what the snapshot reports.
\<close>

section \<open>Sets of keys\<close>

lemma keys_in_insert_loop:
  "key_map_inv s \<Longrightarrow> card (keys_in s \<union> set ks) < tree_capacity \<Longrightarrow>
     \<exists>s'. SortedSet_insert_loop ks s = Inr s' \<and> key_map_inv s' \<and> keys_in s' = keys_in s \<union> set ks"
proof (induction ks arbitrary: s)
  case (Cons k ks)
  have "card (keys_in s) \<le> card (keys_in s \<union> set (k # ks))" using keys_in_finite[OF Cons.prems(1)] by (intro card_mono) auto
  then obtain s1 where s1: "SortedSet_insert s k = Inr s1" "key_map_inv s1" "keys_in s1 = insert k (keys_in s)"
    using keys_in_insert[OF Cons.prems(1), of k] Cons.prems(2) by auto
  have "keys_in s1 \<union> set ks = keys_in s \<union> set (k # ks)" by (simp add: s1(3))
  then show ?case using Cons.IH[OF s1(2)] Cons.prems(2) s1(1) by simp
qed simp

lemma keys_in_erase_keys:
  "key_map_inv s \<Longrightarrow> \<exists>s'. erase_keys ks s = Inr s' \<and> key_map_inv s' \<and> keys_in s' = keys_in s - set ks"
proof (induction ks arbitrary: s)
  case (Cons k ks)
  obtain s1 where s1: "SortedSet_erase s k = Inr s1" "key_map_inv s1" "keys_in s1 = keys_in s - {k}"
    using keys_in_erase[OF Cons.prems, of k] by blast
  have "keys_in s1 - set ks = keys_in s - set (k # ks)" by (auto simp: s1(3))
  then show ?case using Cons.IH[OF s1(2)] s1(1) by simp
qed simp

lemma set_set_keys: "key_map_inv s \<Longrightarrow> set (set_keys s) = keys_in s"
  by (simp add: set_keys_def keys_in_entries del: set_map)

lemma distinct_set_keys: "key_map_inv s \<Longrightarrow> distinct (set_keys s)"
  unfolding set_keys_def by (rule key_dict.sorted_entries_distinct[OF key_dict.smap.sorted_m])

lemma no_keys_in [simp]: "keys_in no_keys = {}" "key_map_inv no_keys"
  by (simp_all add: no_keys_def)

section \<open>Target changes\<close>

definition target_change_ok :: "View \<Rightarrow> TargetChange option \<Rightarrow> bool" where
  "target_change_ok v tc = (case tc of None \<Rightarrow> True | Some t \<Rightarrow>
     key_map_inv (added_documents t) \<and> key_map_inv (modified_documents t) \<and> key_map_inv (removed_documents t) \<and>
     keys_in (modified_documents t) \<subseteq> keys_in (synced_documents v) \<union> keys_in (added_documents t) \<and>
     card (keys_in (synced_documents v) \<union> keys_in (added_documents t)) < tree_capacity)"

definition synced_after :: "View \<Rightarrow> TargetChange option \<Rightarrow> DocumentKey set" where
  "synced_after v tc = (case tc of None \<Rightarrow> keys_in (synced_documents v)
     | Some t \<Rightarrow> keys_in (synced_documents v) \<union> keys_in (added_documents t) - keys_in (removed_documents t))"

definition current_after :: "View \<Rightarrow> TargetChange option \<Rightarrow> bool" where
  "current_after v tc = (case tc of None \<Rightarrow> view_current v | Some t \<Rightarrow> tc_current t)"

lemma ApplyTargetChange_ok:
  assumes s: "key_map_inv (synced_documents v)" and t: "target_change_ok v tc"
  shows "\<exists>s'. ApplyTargetChange v tc = Inr (v\<lparr>synced_documents := s', view_current := current_after v tc\<rparr>) \<and>
    key_map_inv s' \<and> keys_in s' = synced_after v tc"
proof (cases tc)
  case None
  then show ?thesis using s by (intro exI[of _ "synced_documents v"]) (simp add: ApplyTargetChange_def synced_after_def current_after_def)
next
  case (Some c)
  have k: "key_map_inv (added_documents c)" "key_map_inv (modified_documents c)" "key_map_inv (removed_documents c)"
    and mod: "keys_in (modified_documents c) \<subseteq> keys_in (synced_documents v) \<union> keys_in (added_documents c)"
    and card: "card (keys_in (synced_documents v) \<union> keys_in (added_documents c)) < tree_capacity"
    using t Some by (simp_all add: target_change_ok_def)
  obtain s1 where s1: "SortedSet_insert_loop (set_keys (added_documents c)) (synced_documents v) = Inr s1" "key_map_inv s1"
      "keys_in s1 = keys_in (synced_documents v) \<union> keys_in (added_documents c)"
    using keys_in_insert_loop[OF s, of "set_keys (added_documents c)"] card unfolding set_set_keys[OF k(1)] by blast
  obtain s2 where s2: "erase_keys (set_keys (removed_documents c)) s1 = Inr s2" "key_map_inv s2" "keys_in s2 = keys_in s1 - keys_in (removed_documents c)"
    using keys_in_erase_keys[OF s1(2), of "set_keys (removed_documents c)"] unfolding set_set_keys[OF k(3)] by blast
  have "\<not> list_ex (\<lambda>key. \<not> SortedSet_contains s1 key) (set_keys (modified_documents c))"
    using mod by (auto simp: list_ex_iff set_set_keys[OF k(2)] keys_in_contains[OF s1(2)] s1(3))
  then show ?thesis using Some s1 s2 by (intro exI[of _ s2]) (simp add: ApplyTargetChange_def synced_after_def current_after_def)
qed

section \<open>Limbo documents\<close>

text \<open>The documents that should be in limbo: results that the server did not send and that have no local mutations.\<close>

definition limbo_keys :: "DocumentSet \<Rightarrow> DocumentKey set \<Rightarrow> DocumentKey set" where
  "limbo_keys ds synced = {k. \<exists>d. GetDocument ds k = Some d \<and> k \<notin> synced \<and> \<not> has_local_mutations d}"

definition limbo_difference :: "DocumentKey set \<Rightarrow> DocumentKey set \<Rightarrow> LimboDocumentChange set" where
  "limbo_difference old new = Limbo_Removed ` (old - new) \<union> Limbo_Added ` (new - old)"

lemma ShouldBeInLimbo_iff:
  assumes "document_set_inv (DocumentComparator_of split q) (document_set v)" "key_map_inv (synced_documents v)"
  shows "ShouldBeInLimbo v k \<longleftrightarrow> k \<in> limbo_keys (document_set v) (keys_in (synced_documents v))"
proof -
  have "ContainsKey (document_set v) k \<longleftrightarrow> GetDocument (document_set v) k \<noteq> None"
    using query_order.ContainsKey_iff[OF assms(1), of k] query_order.GetDocument_None_iff[OF assms(1), of k] by simp
  then show ?thesis by (auto simp: ShouldBeInLimbo_def limbo_keys_def keys_in_contains[OF assms(2)])
qed

lemma UpdateLimboDocuments_ok:
  assumes inv: "document_set_inv (DocumentComparator_of split q) (document_set v)" "DocumentSet_size (document_set v) < tree_capacity"
    and k: "key_map_inv (synced_documents v)" "key_map_inv (limbo_documents v)"
  shows "\<exists>lb lc. UpdateLimboDocuments v = Inr (v\<lparr>limbo_documents := lb\<rparr>, lc) \<and> key_map_inv lb \<and>
    keys_in lb = (if view_current v then limbo_keys (document_set v) (keys_in (synced_documents v)) else keys_in (limbo_documents v)) \<and>
    distinct lc \<and> set lc = limbo_difference (keys_in (limbo_documents v)) (keys_in lb)"
proof (cases "view_current v")
  case False
  then show ?thesis using k(2)
    by (intro exI[of _ "limbo_documents v"] exI[of _ "[]"]) (simp add: UpdateLimboDocuments_def limbo_difference_def)
next
  case True
  let ?v = "v\<lparr>limbo_documents := no_keys\<rparr>" and ?old = "limbo_documents v"
  let ?ks = "filter (ShouldBeInLimbo ?v) (map doc_key (docs (document_set v)))"
  let ?L = "limbo_keys (document_set v) (keys_in (synced_documents v))"
  have S: "ShouldBeInLimbo ?v x \<longleftrightarrow> x \<in> ?L" for x using ShouldBeInLimbo_iff[of split q ?v x] inv(1) k(1) by simp
  have "?L \<subseteq> doc_key ` set (docs (document_set v))" using query_order.GetDocument_dom[OF inv(1)] by (auto simp: limbo_keys_def)
  then have ks: "set ?ks = ?L" using S by auto
  have "card (set ?ks) \<le> length ?ks" by (rule card_length)
  also have "\<dots> \<le> length (docs (document_set v))" using length_filter_le[of _ "map doc_key (docs (document_set v))"] by simp
  finally have "card (keys_in no_keys \<union> set ?ks) < tree_capacity" using inv(2) query_order.DocumentSet_size_docs[OF inv(1)] by simp
  from keys_in_insert_loop[OF no_keys_in(2) this] obtain lb where lb: "SortedSet_insert_loop ?ks no_keys = Inr lb" "key_map_inv lb" "keys_in lb = ?L"
    unfolding ks by auto
  let ?lc = "map Limbo_Removed (filter (\<lambda>key. \<not> SortedSet_contains lb key) (set_keys ?old)) @
             map Limbo_Added (filter (\<lambda>key. \<not> SortedSet_contains ?old key) (set_keys lb))"
  have "distinct ?lc" using distinct_set_keys[OF k(2)] distinct_set_keys[OF lb(2)] by (auto simp: distinct_map inj_on_def)
  moreover have "set ?lc = limbo_difference (keys_in ?old) (keys_in lb)"
    by (auto simp: limbo_difference_def set_set_keys[OF k(2)] set_set_keys[OF lb(2)] keys_in_contains[OF k(2)] keys_in_contains[OF lb(2)])
  moreover have "UpdateLimboDocuments v = Inr (v\<lparr>limbo_documents := lb\<rparr>, ?lc)"
    using True lb(1) by (simp add: UpdateLimboDocuments_def Let_def)
  ultimately show ?thesis using True lb(2,3) by (intro exI[of _ lb] exI[of _ ?lc]) simp
qed

section \<open>The order of the changes\<close>

lemma set_insert_change: "set (insert_change v c cs) = insert c (set cs)"
  by (induction cs) auto

lemma set_sort_changes: "set (sort_changes v cs) = set cs"
  unfolding sort_changes_def by (induction cs) (simp_all add: set_insert_change)

lemma length_insert_change: "length (insert_change v c cs) = Suc (length cs)"
  by (induction cs) auto

lemma length_sort_changes: "length (sort_changes v cs) = length cs"
  unfolding sort_changes_def by (induction cs) (simp_all add: length_insert_change)

lemma sort_changes_Nil: "sort_changes v cs = [] \<longleftrightarrow> cs = []"
  using length_sort_changes[of v cs] by (cases cs; cases "sort_changes v cs") simp_all

lemma distinct_insert_change: "distinct (map f (insert_change v c cs)) \<longleftrightarrow> distinct (map f (c # cs))"
  by (induction cs) (auto simp: set_insert_change)

lemma distinct_sort_changes: "distinct (map f (sort_changes v cs)) \<longleftrightarrow> distinct (map f cs)"
proof -
  have "distinct (map f (foldr (insert_change v) cs [])) \<longleftrightarrow> distinct (map f cs)"
  proof (induction cs)
    case (Cons c cs)
    then show ?case using set_sort_changes[of v cs] by (simp add: distinct_insert_change sort_changes_def)
  qed simp
  then show ?thesis by (simp add: sort_changes_def)
qed

definition change_cmp :: "View \<Rightarrow> DocumentViewChange cmp" where
  "change_cmp v x y = then_cmp (DefaultComparator (GetDocumentViewChangeTypePosition (change_type x)) (GetDocumentViewChangeTypePosition (change_type y)))
     (View_Compare v (change_document x) (change_document y))"

lemma change_less_cmp: "change_less v x y \<longleftrightarrow> change_cmp v x y = Ascending"
  by (auto simp: change_less_def change_cmp_def then_cmp_def DefaultComparator_def Let_def)

lemma set_comparator: "document_set_inv cmp ds \<Longrightarrow> DocumentSet_comparator ds = cmp"
  by (cases "sorted_set ds") (simp_all add: DocumentSet_comparator_def document_set_inv_def array_map_inv_def tree_map_inv_def)

lemma change_cmp_comparator:
  assumes "comparator (View_Compare v)"
  shows "comparator (change_cmp v)"
proof -
  have p: "comparator (\<lambda>x y. DefaultComparator (GetDocumentViewChangeTypePosition (change_type x)) (GetDocumentViewChangeTypePosition (change_type y)))"
    by (rule comparator_on[OF strong_comparator.axioms(1)[OF strong_comparator_DefaultComparator] refl])
  have d: "comparator (\<lambda>x y. View_Compare v (change_document x) (change_document y))"
    by (rule comparator_on[OF assms refl])
  have "change_cmp v = (\<lambda>x y. then_cmp (DefaultComparator (GetDocumentViewChangeTypePosition (change_type x)) (GetDocumentViewChangeTypePosition (change_type y)))
     (View_Compare v (change_document x) (change_document y)))" by (intro ext) (rule change_cmp_def)
  then show ?thesis using comparator_then[OF p d] by simp
qed

lemma sorted_insert_change:
  assumes c: "comparator (change_cmp v)"
  shows "sorted_wrt (\<lambda>x y. change_cmp v x y = Ascending) cs \<Longrightarrow> \<forall>d \<in> set cs. change_cmp v c d \<noteq> Same \<Longrightarrow>
    sorted_wrt (\<lambda>x y. change_cmp v x y = Ascending) (insert_change v c cs)"
proof (induction cs)
  case (Cons d cs)
  show ?case
  proof (cases "change_less v d c")
    case True
    then show ?thesis using Cons by (simp add: set_insert_change change_less_cmp)
  next
    case False
    have "change_cmp v c d = Ascending"
      using False Cons.prems(2) comparator.Descending_iff[OF c, of c d] by (cases "change_cmp v c d") (auto simp: change_less_cmp)
    then show ?thesis using False Cons.prems(1) comparator.Ascending_trans[OF c, of c d] by (simp add: change_less_cmp)
  qed
qed simp

lemma sorted_sort_changes:
  assumes c: "comparator (change_cmp v)"
  shows "distinct (map (\<lambda>c. doc_key (change_document c)) cs) \<Longrightarrow> (\<And>x y. View_Compare v x y = Same \<Longrightarrow> doc_key x = doc_key y) \<Longrightarrow>
    sorted_wrt (change_less v) (sort_changes v cs)"
proof (induction cs)
  case (Cons x cs)
  have ne: "\<forall>d \<in> set (sort_changes v cs). change_cmp v x d \<noteq> Same"
  proof
    fix d
    assume "d \<in> set (sort_changes v cs)"
    then have "doc_key (change_document x) \<noteq> doc_key (change_document d)" using Cons.prems(1) by (auto simp: set_sort_changes)
    then have "View_Compare v (change_document x) (change_document d) \<noteq> Same" using Cons.prems(2) by blast
    then show "change_cmp v x d \<noteq> Same"
      by (cases "DefaultComparator (GetDocumentViewChangeTypePosition (change_type x)) (GetDocumentViewChangeTypePosition (change_type d))")
        (simp_all add: change_cmp_def)
  qed
  have "sorted_wrt (change_less v) (sort_changes v cs)" using Cons.IH Cons.prems by simp
  then show ?case using sorted_insert_change[OF c _ ne] by (simp add: sort_changes_def change_less_cmp[abs_def])
qed (simp add: sort_changes_def)

section \<open>Replaying the changes\<close>

lemma replay_changes:
  "distinct (map (\<lambda>c. doc_key (change_document c)) cs) \<Longrightarrow>
    \<forall>c \<in> set cs. new (doc_key (change_document c)) = (if change_type c = Change_Removed then None else Some (change_document c)) \<Longrightarrow>
    \<forall>k. k \<notin> (\<lambda>c. doc_key (change_document c)) ` set cs \<longrightarrow> g k = new k \<Longrightarrow> fold after_change cs g = new"
proof (induction cs arbitrary: g)
  case Nil
  then show ?case by auto
next
  case (Cons c cs)
  have "fold after_change cs (after_change c g) = new"
    using Cons.prems by (intro Cons.IH) (auto simp: after_change_def)
  then show ?case by simp
qed

lemma GetChanges_keys:
  assumes "key_map_inv cs" "describes cs old new"
  shows "distinct (map (\<lambda>c. doc_key (change_document c)) (GetChanges cs))" "c \<in> set (GetChanges cs) \<longleftrightarrow> SortedMap_get cs (doc_key (change_document c)) = Some c"
proof -
  have key: "doc_key (change_document c) = k" if "SortedMap_get cs k = Some c" for k c
    using spec[OF assms(2)[unfolded describes_def], of k] that by (simp add: change_describes_def)
  note e = key_dict.dict_entries[OF assms(1)]
  have pair: "doc_key (change_document (snd p)) = fst p" if "p \<in> set (SortedMap_entries cs)" for p
    by (rule key[OF iffD1[OF e]]) (simp add: that)
  have "map (\<lambda>c. doc_key (change_document c)) (GetChanges cs) = map fst (SortedMap_entries cs)"
    unfolding GetChanges_def map_map by (rule map_cong[OF refl]) (simp add: pair)
  then show "distinct (map (\<lambda>c. doc_key (change_document c)) (GetChanges cs))"
    using key_dict.sorted_entries_distinct[OF key_dict.smap.sorted_m[OF assms(1)]] by simp
  show "c \<in> set (GetChanges cs) \<longleftrightarrow> SortedMap_get cs (doc_key (change_document c)) = Some c"
  proof
    assume "c \<in> set (GetChanges cs)"
    then obtain p where p: "p \<in> set (SortedMap_entries cs)" "c = snd p" by (auto simp: GetChanges_def)
    then show "SortedMap_get cs (doc_key (change_document c)) = Some c" using pair[OF p(1)] e[of "fst p" "snd p"] by simp
  next
    assume "SortedMap_get cs (doc_key (change_document c)) = Some c"
    then have "(doc_key (change_document c), c) \<in> set (SortedMap_entries cs)" using e by simp
    then show "c \<in> set (GetChanges cs)" by (force simp: GetChanges_def)
  qed
qed

lemma replay_describes:
  assumes "key_map_inv cs" "describes cs old new"
  shows "fold after_change (sort_changes v (GetChanges cs)) old = new"
proof (rule replay_changes)
  note K = GetChanges_keys[OF assms]
  show "distinct (map (\<lambda>c. doc_key (change_document c)) (sort_changes v (GetChanges cs)))" using K(1) by (simp add: distinct_sort_changes)
  show "\<forall>c \<in> set (sort_changes v (GetChanges cs)). new (doc_key (change_document c)) = (if change_type c = Change_Removed then None else Some (change_document c))"
  proof
    fix c
    assume "c \<in> set (sort_changes v (GetChanges cs))"
    then have "SortedMap_get cs (doc_key (change_document c)) = Some c" using K(2) by (simp add: set_sort_changes)
    then show "new (doc_key (change_document c)) = (if change_type c = Change_Removed then None else Some (change_document c))"
      using spec[OF assms(2)[unfolded describes_def], of "doc_key (change_document c)"] by (cases "change_type c") (simp_all add: change_describes_def)
  qed
  show "\<forall>k. k \<notin> (\<lambda>c. doc_key (change_document c)) ` set (sort_changes v (GetChanges cs)) \<longrightarrow> old k = new k"
  proof (intro allI impI)
    fix k
    assume k: "k \<notin> (\<lambda>c. doc_key (change_document c)) ` set (sort_changes v (GetChanges cs))"
    have d: "change_describes k (SortedMap_get cs k) (old k) (new k)" using assms(2) by (simp add: describes_def)
    show "old k = new k"
    proof (cases "SortedMap_get cs k")
      case (Some c)
      then have "doc_key (change_document c) = k" using d by (simp add: change_describes_def)
      then show ?thesis using k Some K(2)[of c] by (auto simp: set_sort_changes)
    qed (use d in \<open>simp add: change_describes_def\<close>)
  qed
qed

section \<open>Applying changes\<close>

definition view_inv :: "absl_strings \<Rightarrow> (string \<Rightarrow> string list) \<Rightarrow> View \<Rightarrow> bool" where
  "view_inv a split v \<longleftrightarrow> view_ok a split v \<and> key_map_inv (synced_documents v) \<and> key_map_inv (limbo_documents v)"

text \<open>The keys in limbo after applying changes, and the synchronisation state that follows.\<close>

definition limbo_after :: "View \<Rightarrow> DocumentSet \<Rightarrow> TargetChange option \<Rightarrow> bool \<Rightarrow> DocumentKey set" where
  "limbo_after v ds tc reset =
     (if reset \<or> \<not> current_after v tc then keys_in (limbo_documents v) else limbo_keys ds (synced_after v tc))"

definition sync_state_after :: "View \<Rightarrow> DocumentSet \<Rightarrow> TargetChange option \<Rightarrow> bool \<Rightarrow> SyncState" where
  "sync_state_after v ds tc reset =
     (if limbo_after v ds tc reset = {} \<and> current_after v tc \<and> \<not> reset then SyncSynced else SyncLocal)"

definition snapshot_of :: "View \<Rightarrow> View \<Rightarrow> ViewDocumentChanges \<Rightarrow> TargetChange option \<Rightarrow> ViewSnapshot option" where
  "snapshot_of v v' c tc =
     (if GetChanges (change_set c) = [] \<and> sync_state v' = sync_state v then None
      else Some \<lparr>snapshot_query = view_query v, snapshot_documents = changed_documents c, old_documents = document_set v,
        document_changes = sort_changes v' (GetChanges (change_set c)), snapshot_mutated_keys = changed_mutated_keys c,
        from_cache = (sync_state v' = SyncLocal), sync_state_changed = (sync_state v' \<noteq> sync_state v), excludes_metadata_changes = False,
        has_cached_results = (case tc of None \<Rightarrow> False | Some tc \<Rightarrow> tc_resume_token tc \<noteq> [])\<rparr>)"

text \<open>What a view is after applying changes, in terms of sets.\<close>

definition applied :: "View \<Rightarrow> ViewDocumentChanges \<Rightarrow> TargetChange option \<Rightarrow> bool \<Rightarrow> View \<Rightarrow> LimboDocumentChange list \<Rightarrow> bool" where
  "applied v c tc reset v' lc \<longleftrightarrow> view_query v' = view_query v \<and> document_set v' = changed_documents c \<and>
     mutated_keys v' = changed_mutated_keys c \<and> keys_in (synced_documents v') = synced_after v tc \<and> view_current v' = current_after v tc \<and>
     keys_in (limbo_documents v') = limbo_after v (changed_documents c) tc reset \<and>
     sync_state v' = sync_state_after v (changed_documents c) tc reset \<and>
     distinct lc \<and> set lc = limbo_difference (keys_in (limbo_documents v)) (keys_in (limbo_documents v'))"

lemma sort_changes_same:
  assumes "View_Compare v = View_Compare w"
  shows "sort_changes v cs = sort_changes w cs"
proof -
  have "insert_change v c ds = insert_change w c ds" for c ds
    using assms by (induction ds) (simp_all add: change_less_def)
  then have "insert_change v = insert_change w" by (intro ext)
  then show ?thesis by (simp add: sort_changes_def)
qed

lemma View_ApplyChanges_ok:
  assumes v: "view_inv a split v" and c: "computed_ok a split v c" "\<not> needs_refill c" "DocumentSet_size (changed_documents c) < tree_capacity"
    and t: "target_change_ok v tc"
  shows "\<exists>v' lc. View_ApplyChanges v c tc reset = Inr (v', snapshot_of v v' c tc, lc) \<and> view_inv a split v' \<and> applied v c tc reset v' lc"
proof -
  let ?cur = "current_after v tc"
  define v1 where "v1 = v\<lparr>document_set := changed_documents c, mutated_keys := changed_mutated_keys c\<rparr>"
  have k: "key_map_inv (synced_documents v1)" "key_map_inv (limbo_documents v1)" using v by (simp_all add: view_inv_def v1_def)
  have t1: "target_change_ok v1 tc" "current_after v1 tc = ?cur" "synced_after v1 tc = synced_after v tc"
    using t by (simp_all add: target_change_ok_def current_after_def synced_after_def v1_def split: option.splits)
  obtain sy where sy: "ApplyTargetChange v1 tc = Inr (v1\<lparr>synced_documents := sy, view_current := ?cur\<rparr>)"
      "key_map_inv sy" "keys_in sy = synced_after v tc"
    using ApplyTargetChange_ok[OF k(1) t1(1)] unfolding t1(2,3) by blast
  let ?v2 = "v1\<lparr>synced_documents := sy, view_current := ?cur\<rparr>"
  have di: "document_set_inv (DocumentComparator_of split (view_query v)) (document_set ?v2)" "DocumentSet_size (document_set ?v2) < tree_capacity"
    using computed_inv[OF c(1)] c(3) by (simp_all add: v1_def)
  have "\<exists>lb lc. (if reset then Inr (?v2, []) else UpdateLimboDocuments ?v2) = Inr (?v2\<lparr>limbo_documents := lb\<rparr>, lc) \<and> key_map_inv lb \<and>
    keys_in lb = limbo_after v (changed_documents c) tc reset \<and>
    distinct lc \<and> set lc = limbo_difference (keys_in (limbo_documents v)) (keys_in lb)"
  proof (cases reset)
    case True
    then show ?thesis using k(2)
      by (intro exI[of _ "limbo_documents v"] exI[of _ "[]"]) (simp add: limbo_after_def limbo_difference_def v1_def)
  next
    case False
    have eq: "document_set ?v2 = changed_documents c" "limbo_documents ?v2 = limbo_documents v" "view_current ?v2 = ?cur" "synced_documents ?v2 = sy"
      by (simp_all add: v1_def)
    have k2: "key_map_inv (synced_documents ?v2)" "key_map_inv (limbo_documents ?v2)" using k sy(2) by simp_all
    have after: "limbo_after v (changed_documents c) tc reset = (if ?cur then limbo_keys (changed_documents c) (synced_after v tc) else keys_in (limbo_documents v))"
      using False by (simp add: limbo_after_def)
    show ?thesis unfolding if_not_P[OF False] after using UpdateLimboDocuments_ok[OF di k2] unfolding eq sy(3) .
  qed
  then obtain lb lc where lb: "(if reset then Inr (?v2, []) else UpdateLimboDocuments ?v2) = Inr (?v2\<lparr>limbo_documents := lb\<rparr>, lc)"
    "key_map_inv lb" "keys_in lb = limbo_after v (changed_documents c) tc reset"
    "distinct lc" "set lc = limbo_difference (keys_in (limbo_documents v)) (keys_in lb)" by (elim exE conjE)
  define v' where "v' = ?v2\<lparr>limbo_documents := lb, sync_state := sync_state_after v (changed_documents c) tc reset\<rparr>"
  have synced: "(if SortedMap_empty lb \<and> ?cur \<and> \<not> reset then SyncSynced else SyncLocal) = sync_state_after v (changed_documents c) tc reset"
    by (simp add: sync_state_after_def keys_in_empty[OF lb(2)] lb(3))
  have sort: "sort_changes v1 (GetChanges (change_set c)) = sort_changes v' (GetChanges (change_set c))"
    by (rule sort_changes_same) (simp add: View_Compare_def v'_def)
  have "View_ApplyChanges v c tc reset = Inr (v', snapshot_of v v' c tc, lc)"
    unfolding View_ApplyChanges_def Let_def v1_def[symmetric] sort sy(1) bind_res_simps lb(1)
    using c(2) synced by (auto simp: snapshot_of_def sort_changes_Nil v'_def v1_def)
  moreover have "view_inv a split v'" using c(1) sy(2) lb(2) by (simp add: view_inv_def view_ok_def computed_ok_def v'_def v1_def)
  moreover have "applied v c tc reset v' lc" using sy lb by (simp add: applied_def v'_def v1_def)
  ultimately show ?thesis by (intro exI[of _ v'] exI[of _ lc] conjI)
qed

end
