(* ===== verification/View_Refill.thy ===== *)
theory View_Refill
  imports View_Apply
begin

text \<open>
  A view shows the results of its query over the documents of the local cache: the first (last) matching ones if there is
  a limit. This theory proves that views stay that way, with at most one refill, and what they report.
\<close>

section \<open>A view against the cache\<close>

definition cache_ok :: "(DocumentKey \<Rightarrow> MutableDocument option) \<Rightarrow> bool" where
  "cache_ok C \<longleftrightarrow> finite (dom C) \<and> (\<forall>k d. C k = Some d \<longrightarrow> doc_key d = k)"

definition matching_documents :: "absl_strings \<Rightarrow> (string \<Rightarrow> string list) \<Rightarrow> Query \<Rightarrow> (DocumentKey \<Rightarrow> MutableDocument option) \<Rightarrow> MutableDocument set" where
  "matching_documents a split q C = {d. C (doc_key d) = Some d \<and> Query_Matches a split q d = Inr True}"

definition view_shows :: "absl_strings \<Rightarrow> (string \<Rightarrow> string list) \<Rightarrow> View \<Rightarrow> (DocumentKey \<Rightarrow> MutableDocument option) \<Rightarrow> bool" where
  "view_shows a split v C \<longleftrightarrow>
     is_results split (view_query v) (matching_documents a split (view_query v) C) (docs (document_set v))"

text \<open>
  The cache as the view has taken it in after some documents changed. For a document of the view that still matches, the
  view keeps the old version when the values are equal and the mutation state is unchanged, and when it waits for the
  version that the server is about to send.
\<close>

definition seen :: "absl_strings \<Rightarrow> (string \<Rightarrow> string list) \<Rightarrow> View \<Rightarrow> DocumentSet \<Rightarrow> DocumentMap \<Rightarrow> (DocumentKey \<Rightarrow> MutableDocument option) \<Rightarrow>
    DocumentKey \<Rightarrow> MutableDocument option" where
  "seen a split v ds m C k = (case SortedMap_get m k of
     None \<Rightarrow> C k
   | Some d \<Rightarrow> (case GetDocument ds k of
       Some old \<Rightarrow> if Query_Matches a split (view_query v) d = Inr True \<and> keeps_old split v old d then Some old else Some d
     | None \<Rightarrow> Some d))"

text \<open>Documents whose values the code takes for equal are not told apart by the order of the query.\<close>

definition equal_alike :: "(string \<Rightarrow> string list) \<Rightarrow> View \<Rightarrow> DocumentMap \<Rightarrow> bool" where
  "equal_alike split v m \<longleftrightarrow> (\<forall>k d old. SortedMap_get m k = Some d \<longrightarrow> GetDocument (document_set v) k = Some old \<longrightarrow>
     same_value split old d \<longrightarrow> DocumentComparator_of split (view_query v) old d = Same)"

lemma docs_GetDocument:
  "document_set_inv (DocumentComparator_of split q) ds \<Longrightarrow> d \<in> set (docs ds) \<longleftrightarrow> GetDocument ds (doc_key d) = Some d"
  using query_order.GetDocument_iff[of split q ds "doc_key d" d] by simp

lemma is_results_subset: "is_results split q S L \<Longrightarrow> set L \<subseteq> S"
  by (auto simp: is_results_def firsts_def split: if_splits)

lemma matching_documents_finite: "cache_ok C \<Longrightarrow> finite (matching_documents a split q C)"
proof -
  assume "cache_ok C"
  then have "finite (ran C)" by (simp add: cache_ok_def finite_ran)
  moreover have "matching_documents a split q C \<subseteq> ran C" by (auto simp: matching_documents_def ran_def)
  ultimately show ?thesis by (rule finite_subset[rotated])
qed

lemma seen_cache_ok:
  assumes v: "results_ok a split (view_query v) ds" and C: "cache_ok C" and m: "documents_ok a split (view_query v) m"
  shows "cache_ok (seen a split v ds m C)"
proof -
  have km: "key_map_inv m" using m by (simp add: documents_ok_def)
  have "dom (seen a split v ds m C) \<subseteq> dom C \<union> dom (SortedMap_get m)" by (auto simp: seen_def split: option.splits)
  moreover have "finite (dom C \<union> dom (SortedMap_get m))" using C key_dict.dict_size(1)[OF km] by (simp add: cache_ok_def)
  moreover have "doc_key d = k" if "seen a split v ds m C k = Some d" for k d
    using that C m results_document[OF v, of k]
    by (auto simp: seen_def cache_ok_def documents_ok_def split: option.splits if_splits)
  ultimately show ?thesis unfolding cache_ok_def by (meson finite_subset)
qed

text \<open>Before the limit is applied, the view holds results only, and what it lacks was not in the view before either.\<close>

lemma updated_matches:
  assumes v: "view_ok a split v" and s: "view_shows a split v C" and m: "documents_ok a split (view_query v) m"
    and u: "updated a split v (document_set v) m (doc_key d) = Some d"
  shows "d \<in> matching_documents a split (view_query v) (seen a split v (document_set v) m C)"
proof -
  let ?q = "view_query v" and ?k = "doc_key d"
  have r: "results_ok a split ?q (document_set v)" using v by (simp add: view_ok_def)
  show ?thesis
  proof (cases "SortedMap_get m ?k")
    case None
    then have g: "GetDocument (document_set v) ?k = Some d" using u by (simp add: updated_def)
    then have "d \<in> set (docs (document_set v))" using docs_GetDocument[OF results_inv[OF r]] by blast
    then have "d \<in> matching_documents a split ?q C" using is_results_subset[OF s[unfolded view_shows_def]] by blast
    then show ?thesis using None by (simp add: matching_documents_def seen_def)
  next
    case (Some e)
    then have sh: "shown_document split v (GetDocument (document_set v) ?k) (matching a split ?q e) = Some d"
      using u by (simp add: updated_def)
    show ?thesis
    proof (cases "GetDocument (document_set v) ?k")
      case None
      then show ?thesis using sh Some by (simp add: matching_def matching_documents_def seen_def split: if_splits)
    next
      case (Some x)
      then have "Query_Matches a split ?q x = Inr True" using results_document[OF r] by blast
      then show ?thesis using sh \<open>SortedMap_get m ?k = Some e\<close> Some
        by (auto simp: matching_def matching_documents_def seen_def split: if_splits)
    qed
  qed
qed

lemma outside_updated:
  assumes v: "view_ok a split v" and m: "documents_ok a split (view_query v) m"
    and x: "x \<in> matching_documents a split (view_query v) (seen a split v (document_set v) m C)"
    and out: "updated a split v (document_set v) m (doc_key x) \<noteq> Some x"
  shows "x \<in> matching_documents a split (view_query v) C \<and> GetDocument (document_set v) (doc_key x) \<noteq> Some x"
proof (cases "SortedMap_get m (doc_key x)")
  case None
  then show ?thesis using x out by (simp add: matching_documents_def seen_def updated_def)
next
  case (Some e)
  then have False using x out
    by (auto simp: matching_documents_def seen_def updated_def matching_def split: option.splits if_splits)
  then show ?thesis ..
qed

text \<open>The results before the limit contain a document near the old bound for every old result.\<close>

lemma window_extends:
  assumes c: "comparator c" and v: "view_ok a split v" and s: "view_shows a split v C" and m: "documents_ok a split (view_query v) m"
    and C: "cache_ok C"
    and inv: "document_set_inv (DocumentComparator_of split (view_query v)) ds1" "GetDocument ds1 = updated a split v (document_set v) m"
    and old: "firsts c n (matching_documents a split (view_query v) C) (set (docs (document_set v)))"
    and L: "firsts c n (set (docs ds1)) L"
    and full: "length (docs (document_set v)) = n \<Longrightarrow> n \<noteq> 0 \<Longrightarrow>
      bound \<in> set (docs (document_set v)) \<and> (\<forall>y \<in> set (docs (document_set v)). c y bound \<noteq> Descending) \<and>
      (\<forall>k x d. SortedMap_get m k = Some d \<longrightarrow> GetDocument (document_set v) k = Some x \<longrightarrow>
        Query_Matches a split (view_query v) d = Inr True \<and> (keeps_old split v x d \<or> c d bound \<noteq> Descending))"
  shows "firsts c n (matching_documents a split (view_query v) (seen a split v (document_set v) m C)) L"
proof -
  let ?q = "view_query v" let ?S = "matching_documents a split ?q C" and ?S' = "matching_documents a split ?q (seen a split v (document_set v) m C)"
  let ?V = "set (docs (document_set v))" and ?N = "set (docs ds1)" and ?u = "updated a split v (document_set v) m"
  have vi: "document_set_inv (DocumentComparator_of split ?q) (document_set v)" using v by (simp add: view_ok_def results_ok_def)
  have N: "d \<in> ?N \<longleftrightarrow> ?u (doc_key d) = Some d" for d using docs_GetDocument[OF inv(1)] by (simp add: inv(2))
  have V: "d \<in> ?V \<longleftrightarrow> GetDocument (document_set v) (doc_key d) = Some d" for d by (rule docs_GetDocument[OF vi])
  have sub: "?N \<subseteq> ?S'" using updated_matches[OF v s m] N by blast
  have out: "x \<in> ?S \<and> x \<notin> ?V" if "x \<in> ?S' - ?N" for x using outside_updated[OF v m, of x C] that N V by blast
  have fin: "finite ?S'" using v by (auto simp: view_ok_def intro: matching_documents_finite seen_cache_ok[OF _ C m])
  have card: "card ?V = length (docs (document_set v))" by (rule distinct_card[OF query_order.docs_distinct[OF vi]])
  consider "n = 0" | "card ?V < n" | "card ?V = n" "n \<noteq> 0" using old by (fastforce simp: firsts_def)
  then show ?thesis
  proof cases
    case 1
    then show ?thesis using L fin by (simp add: firsts_0)
  next
    case 2
    then have "?V = ?S" by (rule firsts_all[OF old])
    then have "?S' = ?N" using out sub by blast
    then show ?thesis using L by simp
  next
    case 3
    have "length (docs (document_set v)) = n" using 3(1) card by simp
    note f = full[OF this 3(2)]
    then have b: "bound \<in> ?V" "\<forall>y \<in> ?V. c y bound \<noteq> Descending"
      and near: "\<And>k x d. SortedMap_get m k = Some d \<Longrightarrow> GetDocument (document_set v) k = Some x \<Longrightarrow>
        Query_Matches a split ?q d = Inr True \<and> (keeps_old split v x d \<or> c d bound \<noteq> Descending)"
      by blast+
    define W where "W = (\<lambda>x. the (?u (doc_key x))) ` ?V"
    have w: "\<exists>w. ?u (doc_key x) = Some w \<and> c w bound \<noteq> Descending" if x: "x \<in> ?V" for x
    proof (cases "SortedMap_get m (doc_key x)")
      case None
      then show ?thesis using x V b(2) by (auto simp: updated_def)
    next
      case (Some d)
      have g: "GetDocument (document_set v) (doc_key x) = Some x" using x V by blast
      show ?thesis using near[OF Some g] Some g b(2) x by (auto simp: updated_def matching_def)
    qed
    have key: "doc_key d = k" if "?u k = Some d" for k d
      using GetDocument_key[OF inv(1)] that by (simp add: inv(2))
    have inj: "inj_on (\<lambda>x. the (?u (doc_key x))) ?V"
    proof (rule inj_onI)
      fix x y
      assume xy: "x \<in> ?V" "y \<in> ?V" "the (?u (doc_key x)) = the (?u (doc_key y))"
      obtain z z' where z: "?u (doc_key x) = Some z" "?u (doc_key y) = Some z'" using w xy(1,2) by blast
      then have "doc_key x = doc_key y" using key[OF z(1)] key[OF z(2)] xy(3) by simp
      then show "x = y" using query_order.docs_keys_inj[OF vi] xy(1,2) by (simp add: inj_on_eq_iff)
    qed
    show ?thesis
    proof (rule comparator.firsts_extend[OF c, where N = ?N and W = W and bound = bound])
      show "\<forall>x \<in> ?S' - ?N. c bound x = Ascending" using out old b(1) by (auto simp: firsts_def)
      show "W \<subseteq> ?N"
      proof
        fix z
        assume "z \<in> W"
        then obtain x where "x \<in> ?V" "z = the (?u (doc_key x))" by (auto simp: W_def)
        then have "?u (doc_key x) = Some z" using w by force
        then show "z \<in> ?N" using N[of z] key by metis
      qed
      show "n \<le> card W" using card_image[OF inj] 3 by (simp add: W_def)
      show "\<forall>w \<in> W. c w bound \<noteq> Descending" using w by (fastforce simp: W_def)
    qed (use sub fin L in auto)
  qed
qed

lemma View_Compare_query: "view_ok a split v \<Longrightarrow> View_Compare v = DocumentComparator_of split (view_query v)"
  by (simp add: View_Compare_def view_ok_def results_ok_def set_comparator)

lemma no_refill_near:
  assumes "\<not> asks_refill split v l f (Some x) (matching a split q d)" "l \<noteq> None \<or> f \<noteq> None"
  shows "Query_Matches a split q d = Inr True \<and> (keeps_old split v x d \<or> same_value split x d \<or> \<not> outside_limits v l f d)"
  using assms by (auto simp: matching_def keeps_old_def split: if_splits)

lemma sorted_last:
  assumes "comparator c" "sorted_wrt (\<lambda>x y. c x y = Ascending) xs" "y \<in> set xs"
  shows "c y (last xs) \<noteq> Descending"
proof (cases xs rule: rev_cases)
  case (snoc ys z)
  then show ?thesis using assms comparator.cmp_refl[OF assms(1), of z] by (auto simp: sorted_wrt_append)
qed (use assms in simp)

lemma sorted_hd:
  assumes "comparator c" "sorted_wrt (\<lambda>x y. c x y = Ascending) xs" "y \<in> set xs"
  shows "c (hd xs) y \<noteq> Descending"
proof (cases xs)
  case (Cons z ys)
  then show ?thesis using assms comparator.cmp_refl[OF assms(1), of z] by auto
qed (use assms in simp)

lemma limited_length: "length (limited q xs) \<le> length xs"
  by (simp add: limited_def kept_within_def)

lemma updated_size:
  assumes "document_set_inv (DocumentComparator_of split q) ds1" "GetDocument ds1 = updated a split v ds m"
    "document_set_inv (DocumentComparator_of split q) ds" "key_map_inv m"
  shows "DocumentSet_size ds1 \<le> DocumentSet_size ds + SortedMap_size m"
proof -
  note f = query_order.GetDocument_size[OF assms(3)] key_dict.dict_size[OF assms(4)]
  have "dom (GetDocument ds1) \<subseteq> dom (GetDocument ds) \<union> dom (SortedMap_get m)"
    by (auto simp: assms(2) updated_def split: option.splits)
  then have "card (dom (GetDocument ds1)) \<le> card (dom (GetDocument ds) \<union> dom (SortedMap_get m))" using f by (intro card_mono) simp_all
  also have "\<dots> \<le> card (dom (GetDocument ds)) + card (dom (SortedMap_get m))" by (rule card_Un_le)
  finally show ?thesis using f query_order.GetDocument_size[OF assms(1)] by simp
qed

lemma compute_complete:
  assumes v: "view_ok a split v" and C: "cache_ok C" and s: "view_shows a split v C" and m: "documents_ok a split (view_query v) m"
    and eq: "equal_alike split v m" and r: "room v (initial_changes v None) (SortedMap_size m)"
  shows "\<exists>c. ComputeDocumentChanges a split v m None = Inr c \<and> computed_ok a split v c \<and>
    DocumentSet_size (changed_documents c) \<le> DocumentSet_size (document_set v) + SortedMap_size m \<and>
    set (docs (changed_documents c)) \<subseteq> matching_documents a split (view_query v) (seen a split v (document_set v) m C) \<and>
    (\<not> needs_refill c \<longrightarrow> is_results split (view_query v) (matching_documents a split (view_query v) (seen a split v (document_set v) m C)) (docs (changed_documents c)))"
proof -
  let ?q = "view_query v" let ?cmp = "DocumentComparator_of split ?q" and ?old = "document_set v"
  let ?S' = "matching_documents a split ?q (seen a split v (document_set v) m C)"
  have i: "changed_documents (initial_changes v None) = ?old" by (simp add: initial_changes_def)
  obtain ds1 c where ds1: "document_set_inv ?cmp ds1" "DocumentSet_size ds1 < tree_capacity" "GetDocument ds1 = updated a split v ?old m"
    and c: "ComputeDocumentChanges a split v m None = Inr c" "computed_ok a split v c" "docs (changed_documents c) = limited ?q (docs ds1)"
      "needs_refill c \<longleftrightarrow> (\<exists>k d. SortedMap_get m k = Some d \<and>
        asks_refill split v (limit_last ?q ?old) (limit_first ?q ?old) (GetDocument ?old k) (matching a split ?q d))"
    using ComputeDocumentChanges_steps[OF v computed_initial[OF v] r m] unfolding i by auto
  have vi: "document_set_inv ?cmp ?old" using v by (simp add: view_ok_def results_ok_def)
  have size: "DocumentSet_size ?old = length (docs ?old)" by (rule query_order.DocumentSet_size_docs[OF vi])
  have sub: "set (docs ds1) \<subseteq> ?S'"
    using updated_matches[OF v s m] docs_GetDocument[OF ds1(1)] by (auto simp: ds1(3))
  have "length (docs ds1) < tree_capacity" using ds1(2) query_order.DocumentSet_size_docs[OF ds1(1)] by simp
  note R = limited_is_results[OF query_order.docs_sorted[OF ds1(1)] this, folded c(3)]
  note so = query_order.docs_sorted[OF vi] and cmp = DocumentComparator_of_comparator[of split ?q]
  have complete: "is_results split ?q ?S' (docs (changed_documents c))" if nr: "\<not> needs_refill c"
  proof -
    have near: "Query_Matches a split ?q d = Inr True \<and> (keeps_old split v x d \<or> ?cmp x d = Same \<or> \<not> outside_limits v (limit_last ?q ?old) (limit_first ?q ?old) d)"
      if "SortedMap_get m k = Some d" "GetDocument ?old k = Some x" "limit_last ?q ?old \<noteq> None \<or> limit_first ?q ?old \<noteq> None" for k x d
      using no_refill_near[of split v _ _ x a ?q d] nr that eq unfolding c(4) equal_alike_def by metis
    have xin: "x \<in> set (docs ?old)" if "GetDocument ?old k = Some x" for k x
      using query_order.GetDocument_iff[OF vi] that by blast
    consider (first) "has_limit_to_first ?q" | (last) "\<not> has_limit_to_first ?q" "has_limit_to_last ?q"
      | (none) "\<not> has_limit_to_first ?q" "\<not> has_limit_to_last ?q" by blast
    then show ?thesis
    proof cases
      case first
      have "firsts ?cmp (limit_size ?q) ?S' (set (docs (changed_documents c)))"
      proof (rule window_extends[OF cmp v s m C ds1(1,3), where bound = "last (docs ?old)"])
        assume full: "length (docs ?old) = limit_size ?q" "limit_size ?q \<noteq> 0"
        then have l: "limit_last ?q ?old = Some (last (docs ?old))" "limit_first ?q ?old = None"
          using first size by (auto simp: limit_last_def limit_first_def has_limit_to_first_def has_limit_to_last_def)
        have "keeps_old split v x d \<or> ?cmp d (last (docs ?old)) \<noteq> Descending"
          if "SortedMap_get m k = Some d" "GetDocument ?old k = Some x" for k x d
          using near[OF that] l comparator.Same_left[OF cmp, of x d "last (docs ?old)"] sorted_last[OF cmp so xin[OF that(2)]]
          by (auto simp: outside_limits_def View_Compare_query[OF v])
        then show "last (docs ?old) \<in> set (docs ?old) \<and> (\<forall>y \<in> set (docs ?old). ?cmp y (last (docs ?old)) \<noteq> Descending) \<and>
          (\<forall>k x d. SortedMap_get m k = Some d \<longrightarrow> GetDocument ?old k = Some x \<longrightarrow>
            Query_Matches a split ?q d = Inr True \<and> (keeps_old split v x d \<or> ?cmp d (last (docs ?old)) \<noteq> Descending))"
          using full near l sorted_last[OF cmp so] by (auto intro: last_in_set)
      qed (use s R first in \<open>simp_all add: view_shows_def is_results_def\<close>)
      then show ?thesis using R first by (simp add: is_results_def)
    next
      case last
      have "firsts (\<lambda>x y. ?cmp y x) (limit_size ?q) ?S' (set (docs (changed_documents c)))"
      proof (rule window_extends[OF comparator_flip[OF cmp] v s m C ds1(1,3), where bound = "hd (docs ?old)"])
        assume full: "length (docs ?old) = limit_size ?q" "limit_size ?q \<noteq> 0"
        then have l: "limit_last ?q ?old = None" "limit_first ?q ?old = Some (hd (docs ?old))"
          using last size by (auto simp: limit_last_def limit_first_def)
        have "keeps_old split v x d \<or> ?cmp (hd (docs ?old)) d \<noteq> Descending"
          if "SortedMap_get m k = Some d" "GetDocument ?old k = Some x" for k x d
          using near[OF that] l comparator.Same_right[OF cmp, of x d "hd (docs ?old)"] sorted_hd[OF cmp so xin[OF that(2)]]
            comparator.Descending_iff[OF cmp, of "hd (docs ?old)" d]
          by (auto simp: outside_limits_def View_Compare_query[OF v])
        then show "hd (docs ?old) \<in> set (docs ?old) \<and> (\<forall>y \<in> set (docs ?old). ?cmp (hd (docs ?old)) y \<noteq> Descending) \<and>
          (\<forall>k x d. SortedMap_get m k = Some d \<longrightarrow> GetDocument ?old k = Some x \<longrightarrow>
            Query_Matches a split ?q d = Inr True \<and> (keeps_old split v x d \<or> ?cmp (hd (docs ?old)) d \<noteq> Descending))"
          using full near l sorted_hd[OF cmp so] by (auto intro: hd_in_set)
      qed (use s R last in \<open>simp_all add: view_shows_def is_results_def\<close>)
      then show ?thesis using R last by (simp add: is_results_def)
    next
      case none
      have "?S' \<subseteq> set (docs ds1)"
      proof
        fix x
        assume x: "x \<in> ?S'"
        show "x \<in> set (docs ds1)"
        proof (rule ccontr)
          assume "x \<notin> set (docs ds1)"
          then have "x \<in> matching_documents a split ?q C \<and> GetDocument ?old (doc_key x) \<noteq> Some x"
            using outside_updated[OF v m x] docs_GetDocument[OF ds1(1)] by (simp add: ds1(3))
          then show False using s none docs_GetDocument[OF vi] by (simp add: view_shows_def is_results_def)
        qed
      qed
      then show ?thesis using R none sub by (simp add: is_results_def)
    qed
  qed
  have "set (docs (changed_documents c)) \<subseteq> ?S'" using is_results_subset[OF R] sub by blast
  moreover have "DocumentSet_size (changed_documents c) \<le> DocumentSet_size ?old + SortedMap_size m"
    using limited_length[of ?q "docs ds1"] updated_size[OF ds1(1,3) vi, of ] m query_order.DocumentSet_size_docs[OF ds1(1)]
      query_order.DocumentSet_size_docs[OF computed_inv[OF c(2)]] c(3) by (simp add: documents_ok_def)
  ultimately show ?thesis using c(1,2) complete by (intro exI[of _ c]) simp
qed

section \<open>Refilling\<close>

text \<open>
  The documents that a view reflects may lag behind the cache: a document has another version there only if both versions
  match, and the values are equal or the view waits for the server's version.
\<close>

definition lags :: "absl_strings \<Rightarrow> (string \<Rightarrow> string list) \<Rightarrow> Query \<Rightarrow> (DocumentKey \<Rightarrow> MutableDocument option) \<Rightarrow>
    (DocumentKey \<Rightarrow> MutableDocument option) \<Rightarrow> bool" where
  "lags a split q C S \<longleftrightarrow> (\<forall>k. S k = C k \<or> (\<exists>x d. S k = Some x \<and> C k = Some d \<and>
     Query_Matches a split q x = Inr True \<and> Query_Matches a split q d = Inr True \<and>
     (same_value split x d \<or> ShouldWaitForSyncedDocument d x)))"

definition changed_cache :: "(DocumentKey \<Rightarrow> MutableDocument option) \<Rightarrow> DocumentMap \<Rightarrow> DocumentKey \<Rightarrow> MutableDocument option" where
  "changed_cache C m k = (case SortedMap_get m k of None \<Rightarrow> C k | Some d \<Rightarrow> Some d)"

definition is_query_result :: "absl_strings \<Rightarrow> (string \<Rightarrow> string list) \<Rightarrow> Query \<Rightarrow> (DocumentKey \<Rightarrow> MutableDocument option) \<Rightarrow> DocumentMap \<Rightarrow> bool" where
  "is_query_result a split q C m \<longleftrightarrow> documents_ok a split q m \<and>
     (\<forall>k d. SortedMap_get m k = Some d \<longleftrightarrow> C k = Some d \<and> Query_Matches a split q d = Inr True)"

lemma same_value_refl: "document_ok d \<Longrightarrow> same_value split d d"
  by (simp add: same_value_def document_ok_def Value_Equals_refl)

lemma keeps_old_cases: "keeps_old split v x d \<Longrightarrow> same_value split x d \<or> ShouldWaitForSyncedDocument d x"
  by (simp add: keeps_old_def split: if_splits)

lemma lags_refl: "lags a split q C C"
  by (simp add: lags_def)

lemma seen_lags:
  assumes "results_ok a split (view_query v) ds" "lags a split (view_query v) C S"
  shows "lags a split (view_query v) (changed_cache C m) (seen a split v ds m S)"
  unfolding lags_def
proof
  fix k
  have l: "S k = C k \<or> (\<exists>x d. S k = Some x \<and> C k = Some d \<and>
     Query_Matches a split (view_query v) x = Inr True \<and> Query_Matches a split (view_query v) d = Inr True \<and>
     (same_value split x d \<or> ShouldWaitForSyncedDocument d x))" using assms(2) unfolding lags_def by (rule spec)
  show "seen a split v ds m S k = changed_cache C m k \<or> (\<exists>x d. seen a split v ds m S k = Some x \<and> changed_cache C m k = Some d \<and>
     Query_Matches a split (view_query v) x = Inr True \<and> Query_Matches a split (view_query v) d = Inr True \<and>
     (same_value split x d \<or> ShouldWaitForSyncedDocument d x))"
  proof (cases "SortedMap_get m k")
    case None
    then show ?thesis using l by (simp add: seen_def changed_cache_def)
  next
    case (Some d)
    then show ?thesis using results_document[OF assms(1), of k] keeps_old_cases[of split v _ d]
      by (auto simp: seen_def changed_cache_def split: option.splits)
  qed
qed

lemma refill_enough:
  assumes v: "view_ok a split v" and c: "computed_ok a split v c" and m: "is_query_result a split (view_query v) C m"
    and sub: "set (docs (changed_documents c)) \<subseteq> matching_documents a split (view_query v) S" and l: "lags a split (view_query v) C S"
    and r: "room v c (SortedMap_size m)"
  shows "\<exists>c2 S2. ComputeDocumentChanges a split v m (Some c) = Inr c2 \<and> \<not> needs_refill c2 \<and> computed_ok a split v c2 \<and>
    DocumentSet_size (changed_documents c2) < tree_capacity \<and> S2 = seen a split v (changed_documents c) m C \<and>
    is_results split (view_query v) (matching_documents a split (view_query v) S2) (docs (changed_documents c2))"
proof -
  let ?q = "view_query v" let ?S2 = "seen a split v (changed_documents c) m C"
  have i: "changed_documents (initial_changes v (Some c)) = changed_documents c" by (simp add: initial_changes_def)
  have ci: "computed_ok a split v (initial_changes v (Some c))" "room v (initial_changes v (Some c)) (SortedMap_size m)"
    using c r by (simp_all add: initial_changes_def computed_ok_def room_def)
  have mo: "documents_ok a split ?q m" and mq: "\<And>k d. SortedMap_get m k = Some d \<longleftrightarrow> C k = Some d \<and> Query_Matches a split ?q d = Inr True"
    using m by (auto simp: is_query_result_def)
  have ro: "results_ok a split ?q (changed_documents c)" using c by (simp add: computed_ok_def)
  obtain ds1 c2 where ds1: "document_set_inv (DocumentComparator_of split ?q) ds1" "DocumentSet_size ds1 < tree_capacity"
      "GetDocument ds1 = updated a split v (changed_documents c) m"
    and c2: "ComputeDocumentChanges a split v m (Some c) = (if needs_refill c2 \<and> Some c \<noteq> None then Inl HardAssert else Inr c2)"
      "computed_ok a split v c2" "docs (changed_documents c2) = limited ?q (docs ds1)"
      "needs_refill c2 \<longleftrightarrow> (\<exists>k d. SortedMap_get m k = Some d \<and>
        asks_refill split v (limit_last ?q (changed_documents c)) (limit_first ?q (changed_documents c)) (GetDocument (changed_documents c) k) (matching a split ?q d))"
    using ComputeDocumentChanges_steps[OF v ci mo] unfolding i by (elim exE conjE)
  have old: "\<exists>d. SortedMap_get m k = Some d \<and> (same_value split x d \<or> ShouldWaitForSyncedDocument d x)"
    if g: "GetDocument (changed_documents c) k = Some x" for k x
  proof -
    have x: "doc_key x = k" "Query_Matches a split ?q x = Inr True" "document_ok x" using results_document[OF ro g] by simp_all
    have "x \<in> set (docs (changed_documents c))" using g query_order.GetDocument_iff[OF results_inv[OF ro]] by blast
    then have "S k = Some x" using sub x(1) by (auto simp: matching_documents_def)
    then have "C k = Some x \<or> (\<exists>d. C k = Some d \<and> Query_Matches a split ?q d = Inr True \<and> (same_value split x d \<or> ShouldWaitForSyncedDocument d x))"
      using spec[OF l[unfolded lags_def], of k] by auto
    then show ?thesis using x(2) same_value_refl[OF x(3), of split] mq by blast
  qed
  have nr: "\<not> needs_refill c2"
  proof
    assume "needs_refill c2"
    then obtain k d where d: "SortedMap_get m k = Some d" "asks_refill split v (limit_last ?q (changed_documents c))
        (limit_first ?q (changed_documents c)) (GetDocument (changed_documents c) k) (matching a split ?q d)" using c2(4) by blast
    then show False using mq[of k d] old[of k] by (cases "GetDocument (changed_documents c) k") (auto simp: matching_def)
  qed
  have "set (docs ds1) = matching_documents a split ?q ?S2"
  proof (rule set_eqI)
    fix x
    show "x \<in> set (docs ds1) \<longleftrightarrow> x \<in> matching_documents a split ?q ?S2"
    proof (cases "SortedMap_get m (doc_key x)")
      case None
      then show ?thesis using mq[of "doc_key x" x] old[of "doc_key x"]
        by (auto simp: docs_GetDocument[OF ds1(1)] ds1(3) updated_def matching_documents_def seen_def)
    next
      case (Some d)
      then have d: "Query_Matches a split ?q d = Inr True" using mq by blast
      note E = docs_GetDocument[OF ds1(1)] ds1(3) updated_def matching_documents_def seen_def matching_def
      show ?thesis
      proof (cases "GetDocument (changed_documents c) (doc_key x)")
        case None
        then show ?thesis using Some d by (auto simp: E)
      next
        case (Some z)
        then have "Query_Matches a split ?q z = Inr True" using results_document[OF ro] by blast
        then show ?thesis using \<open>SortedMap_get m (doc_key x) = Some d\<close> Some d by (auto simp: E)
      qed
    qed
  qed
  moreover have len: "length (docs ds1) < tree_capacity" using ds1(2) query_order.DocumentSet_size_docs[OF ds1(1)] by simp
  ultimately have "is_results split ?q (matching_documents a split ?q ?S2) (docs (changed_documents c2))"
    using limited_is_results[OF query_order.docs_sorted[OF ds1(1)], of ] c2(3) by simp
  moreover have "DocumentSet_size (changed_documents c2) < tree_capacity"
    using len limited_length[of ?q "docs ds1"] query_order.DocumentSet_size_docs[OF computed_inv[OF c2(2)]] c2(3) by simp
  ultimately show ?thesis using c2(1,2) nr by (intro exI[of _ c2] exI[of _ ?S2]) simp
qed

text \<open>Computing the changes and refilling once, as the sync engine does, always succeeds and gives the results.\<close>

definition refilled_changes :: "absl_strings \<Rightarrow> (string \<Rightarrow> string list) \<Rightarrow> DocumentMap \<Rightarrow> View \<Rightarrow> DocumentMap \<Rightarrow> ViewDocumentChanges res" where
  "refilled_changes a split query_result v changes =
     bind_res (ComputeDocumentChanges a split v changes None) (\<lambda>c.
       if needs_refill c then ComputeDocumentChanges a split v query_result (Some c) else Inr c)"

lemma emit_new_snapshot_refilled:
  "emit_new_snapshot a split query_result v changes tc reset =
     bind_res (refilled_changes a split query_result v changes) (\<lambda>c. View_ApplyChanges v c tc reset)"
  by (cases "ComputeDocumentChanges a split v changes None") (simp_all add: emit_new_snapshot_def refilled_changes_def)

lemma changed_cache_query_result: "is_query_result a split q C m \<Longrightarrow> changed_cache C m = C"
  by (rule ext) (auto simp: changed_cache_def is_query_result_def split: option.split)

lemma changed_cache_ok:
  assumes "cache_ok C" "documents_ok a split q m"
  shows "cache_ok (changed_cache C m)"
proof -
  have "dom (changed_cache C m) = dom C \<union> dom (SortedMap_get m)" by (auto simp: changed_cache_def split: option.splits)
  then show ?thesis using assms key_dict.dict_size(1)[of m]
    by (auto simp: cache_ok_def documents_ok_def changed_cache_def split: option.splits)
qed

definition view_room :: "View \<Rightarrow> nat \<Rightarrow> bool" where
  "view_room v n \<longleftrightarrow> 2 * DocumentSet_size (document_set v) + n < tree_capacity"

lemma refilled_changes_results:
  assumes v: "view_ok a split v" and C: "cache_ok C" "cache_ok S" "lags a split (view_query v) C S" and s: "view_shows a split v S"
    and m: "documents_ok a split (view_query v) m" "equal_alike split v m" "is_query_result a split (view_query v) (changed_cache C m) m2"
    and r: "view_room v (SortedMap_size m + SortedMap_size m2)"
  shows "\<exists>c S'. refilled_changes a split m2 v m = Inr c \<and> \<not> needs_refill c \<and> computed_ok a split v c \<and>
    DocumentSet_size (changed_documents c) < tree_capacity \<and> cache_ok S' \<and> lags a split (view_query v) (changed_cache C m) S' \<and>
    is_results split (view_query v) (matching_documents a split (view_query v) S') (docs (changed_documents c))"
proof -
  let ?q = "view_query v" and ?C = "changed_cache C m" let ?S = "seen a split v (document_set v) m S"
  have r1: "room v (initial_changes v None) (SortedMap_size m)" using r by (simp add: view_room_def room_def initial_changes_def)
  obtain c where c: "ComputeDocumentChanges a split v m None = Inr c" "computed_ok a split v c"
      "DocumentSet_size (changed_documents c) \<le> DocumentSet_size (document_set v) + SortedMap_size m"
      "set (docs (changed_documents c)) \<subseteq> matching_documents a split ?q ?S"
      "\<not> needs_refill c \<longrightarrow> is_results split ?q (matching_documents a split ?q ?S) (docs (changed_documents c))"
    using compute_complete[OF v C(2) s m(1,2) r1] by blast
  have ro: "results_ok a split ?q (document_set v)" "results_ok a split ?q (changed_documents c)"
    using v c(2) by (simp_all add: view_ok_def computed_ok_def)
  have l: "lags a split ?q ?C ?S" by (rule seen_lags[OF ro(1) C(3)])
  show ?thesis
  proof (cases "needs_refill c")
    case False
    then show ?thesis using c l r seen_cache_ok[OF ro(1) C(2) m(1)] by (intro exI[of _ c] exI[of _ ?S]) (simp add: refilled_changes_def view_room_def)
  next
    case True
    have "room v c (SortedMap_size m2)" using r c(3) by (simp add: view_room_def room_def)
    from refill_enough[OF v c(2) m(3) c(4) l this] obtain c2 S2 where c2: "ComputeDocumentChanges a split v m2 (Some c) = Inr c2"
        "\<not> needs_refill c2" "computed_ok a split v c2" "S2 = seen a split v (changed_documents c) m2 ?C"
        "DocumentSet_size (changed_documents c2) < tree_capacity" "is_results split ?q (matching_documents a split ?q S2) (docs (changed_documents c2))" by blast
    have "lags a split ?q ?C S2"
      using seen_lags[OF ro(2) lags_refl, of ?C m2] by (simp add: changed_cache_query_result[OF m(3)] c2(4))
    moreover have "cache_ok S2"
      unfolding c2(4) using m(3) by (intro seen_cache_ok[OF ro(2) changed_cache_ok[OF C(1) m(1)]]) (simp add: is_query_result_def)
    ultimately show ?thesis using c(1) c2 True by (intro exI[of _ c2] exI[of _ S2]) (simp add: refilled_changes_def)
  qed
qed

end
