(* ===== verification/View_Theorems.thy ===== *)
theory View_Theorems
  imports View_Refill
begin

text \<open>
  The life of a view: it is created on the results of its query, every snapshot step of the sync engine keeps it on them, and
  its snapshots and limbo changes report exactly what changed.
\<close>

section \<open>A view with a limit of one document\<close>

definition one_entry :: "DocumentKey \<Rightarrow> 'v \<Rightarrow> (DocumentKey, 'v) SortedMap" where
  "one_entry k x = ArrayMap \<lparr>array_entries = [(k, x)], array_comparator = DocumentKey_CompareTo\<rparr>"

definition one_document :: "MutableDocument \<Rightarrow> DocumentMap" where
  "one_document d = one_entry (doc_key d) d"

definition one_result :: "MutableDocument cmp \<Rightarrow> MutableDocument \<Rightarrow> DocumentSet" where
  "one_result cmp d = \<lparr>doc_index = one_document d, sorted_set = ArrayMap \<lparr>array_entries = [(d, ())], array_comparator = cmp\<rparr>\<rparr>"

lemma one_entry_inv: "key_map_inv (one_entry k x)"
  by (simp add: one_entry_def array_map_inv_def kFixedSize_def)

lemma one_entry_get:
  fixes x :: "'v::default"
  shows "SortedMap_get (one_entry k x) = [k \<mapsto> x]"
proof (rule option_fun_eqI)
  fix k' y
  have "SortedMap_get (one_entry k x) k' = Some y \<longleftrightarrow> (k', y) \<in> {(k, x)}"
    using key_dict.dict_entries[OF one_entry_inv, of k' y k x] by (simp add: one_entry_def)
  then show "SortedMap_get (one_entry k x) k' = Some y \<longleftrightarrow> [k \<mapsto> x] k' = Some y" by auto
qed

lemma one_document_facts: "key_map_inv (one_document d)" "SortedMap_get (one_document d) = [doc_key d \<mapsto> d]" "SortedMap_size (one_document d) = 1"
  using key_dict.dict_size(2)[OF one_entry_inv, of "doc_key d" d] by (simp_all add: one_document_def one_entry_inv one_entry_get)

lemmas one_document_inv = one_document_facts(1) and one_document_get = one_document_facts(2) and one_document_size = one_document_facts(3)

lemma one_result_docs: "docs (one_result cmp d) = [d]"
  by (simp add: docs_def one_result_def)

lemma one_result_inv: "document_set_inv (DocumentComparator_of split q) (one_result (DocumentComparator_of split q) d)"
  unfolding one_result_def
  by (rule document_set_invI[OF _ one_document_inv]) (auto simp: one_document_get array_map_inv_def kFixedSize_def)

lemma one_result_get: "GetDocument (one_result cmp d) = [doc_key d \<mapsto> d]"
  by (rule ext) (simp add: GetDocument_def one_result_def one_document_get)

lemma one_result_size: "DocumentSet_size (one_result cmp d) = 1"
  by (simp add: DocumentSet_size_def one_result_def one_document_size)

definition sample_limit_query :: Query where
  "sample_limit_query = sample_query\<lparr>query_limit := 1, limit_type := LimitFirst\<rparr>"

lemma normalized_order_bys_limit: "normalized_order_bys (q\<lparr>query_limit := n, limit_type := t\<rparr>) = normalized_order_bys q"
  by (simp add: normalized_order_bys_def InequalityFilterFields_def)

lemma MatchesBounds_limit: "MatchesBounds a split (q\<lparr>query_limit := n, limit_type := t\<rparr>) = MatchesBounds a split q"
proof -
  have e: "start_at (q\<lparr>query_limit := n, limit_type := t\<rparr>) = start_at q" "end_at (q\<lparr>query_limit := n, limit_type := t\<rparr>) = end_at q"
    by simp_all
  show ?thesis by (rule ext) (unfold MatchesBounds_def normalized_order_bys_limit e, rule refl)
qed

lemma Query_Matches_limit: "Query_Matches a split (q\<lparr>query_limit := n, limit_type := t\<rparr>) = Query_Matches a split q"
proof -
  have e: "query_filters (q\<lparr>query_limit := n, limit_type := t\<rparr>) = query_filters q" by simp
  have m: "MatchesPathAndCollectionGroup (q\<lparr>query_limit := n, limit_type := t\<rparr>) = MatchesPathAndCollectionGroup q"
    "MatchesOrderBy (q\<lparr>query_limit := n, limit_type := t\<rparr>) = MatchesOrderBy q"
    by (simp_all add: fun_eq_iff MatchesPathAndCollectionGroup_def MatchesOrderBy_def normalized_order_bys_limit split: option.split)
  show ?thesis by (rule ext) (unfold Query_Matches_def MatchesBounds_limit e m, rule refl)
qed

lemma sample_limit_orders: "normalized_order_bys sample_limit_query = [\<lparr>order_field = [''a''], order_direction = DirectionAscending\<rparr>,
      \<lparr>order_field = KeyFieldPath, order_direction = DirectionAscending\<rparr>]"
  by (simp add: sample_limit_query_def normalized_order_bys_def sample_query_def make_Query_def InequalityFilterFields_def sliced_def
      field_filter_def IsInequality_def IsKeyFieldPath_iff KeyFieldPath_def kDocumentKeyPath_def)

lemma sample_less: "DocumentComparator_of split sample_limit_query (sample_document x 1) (sample_document y 2) = Ascending"
proof -
  have "comparable sample_limit_query (sample_document name n)" for name n
    by (simp add: comparable_def sample_document_ok sample_limit_orders has_fields_def sample_document_field)
  moreover have "OrderBy_Compare split \<lparr>order_field = [''a''], order_direction = DirectionAscending\<rparr> (sample_document x 1) (sample_document y 2) = Inr Ascending"
    by (simp add: OrderBy_Compare_def sample_document_field Value_Compare.simps Compare_int64_def DefaultComparator_def IsKeyFieldPath_iff
      KeyFieldPath_def kDocumentKeyPath_def Direction_ApplyTo_def)
  ultimately show ?thesis by (simp add: DocumentComparator_of_def Query_Comparator_Inr sample_limit_orders)
qed

lemma sample_no_match: "Query_Matches a split sample_query (sample_document name 0) = Inr False"
proof -
  have "Value_Compare split (Integer_value 0) (Integer_value 0) = Inr Same"
    by (simp add: Value_Compare.simps Compare_int64_def DefaultComparator_def)
  moreover have "doc_key (sample_document name n) = [''c'', name]" "is_found_document (sample_document name n)" for n
    by (simp_all add: sample_document_def FoundDocument_def ConvertToFoundDocument_value_def InvalidDocument_def is_found_document_def)
  ultimately show ?thesis
    by (simp add: Query_Matches_def MatchesPathAndCollectionGroup_def MatchesOrderBy_def MatchesBounds_def sample_document_field)
      (simp add: sample_query_def make_Query_def field_filter_def field_filter_matching sample_document_field
        MatchesComparison_def IsDocumentKey_def IsImmediateParentOf_def, blast)
qed

lemma sample_differs: "\<not> same_value split (sample_document x 1) (sample_document x 0)"
proof -
  have "Value_Compare split (Integer_value 1) (Integer_value 0) = Inr Descending"
    by (simp add: Value_Compare.simps Compare_int64_def DefaultComparator_def)
  then show ?thesis
    by (simp add: same_value_def sample_document_def FoundDocument_def ConvertToFoundDocument_value_def InvalidDocument_def Value_Equals.simps
     kTypeKey_def MapValueEquals_def CompareMaps_def compare_ranges_def Let_def)
qed

lemma sample_document_key: "doc_key (sample_document name n) = [''c'', name]"
  by (simp add: sample_document_def FoundDocument_def ConvertToFoundDocument_value_def InvalidDocument_def)

lemma sample_limit_matches: "Query_Matches a split sample_limit_query (sample_document name n) = Inr (0 < sint n)" if "n = 0 \<or> n = 1 \<or> n = 2"
  using that sample_matches[of n a split name] sample_no_match[of a split name] by (auto simp: sample_limit_query_def Query_Matches_limit)

definition sample_view :: View where
  "sample_view = (View_new (\<lambda>s. [s]) sample_limit_query no_keys)\<lparr>document_set :=
     one_result (DocumentComparator_of (\<lambda>s. [s]) sample_limit_query) (sample_document ''x'' 1)\<rparr>"

definition sample_cache :: "DocumentKey \<Rightarrow> MutableDocument option" where
  "sample_cache = [[''c'', ''x''] \<mapsto> sample_document ''x'' 1, [''c'', ''y''] \<mapsto> sample_document ''y'' 2]"

lemma sample_view_inv: "view_inv a (\<lambda>s. [s]) sample_view"
  by (simp add: view_inv_def view_ok_def results_ok_def sample_view_def View_new_def one_result_inv one_result_docs one_result_get
    sample_limit_matches sample_document_ok)

lemma sample_cache_ok: "cache_ok sample_cache"
  by (auto simp: cache_ok_def sample_cache_def sample_document_key split: if_splits)

lemma sample_view_shows: "view_shows a (\<lambda>s. [s]) sample_view sample_cache"
proof -
  have m: "matching_documents a (\<lambda>s. [s]) sample_limit_query sample_cache = {sample_document ''x'' 1, sample_document ''y'' 2}"
    by (auto simp: matching_documents_def sample_cache_def sample_document_key sample_limit_matches split: if_splits)
  have ne: "sample_document ''x'' 1 \<noteq> sample_document ''y'' 2" 
  proof
    assume "sample_document ''x'' 1 = sample_document ''y'' 2"
    from arg_cong[OF this, of doc_key] show False by (simp add: sample_document_key)
  qed
  have "has_limit_to_first sample_limit_query" "limit_size sample_limit_query = 1"
    by (simp_all add: has_limit_to_first_def limit_size_def sample_limit_query_def kNoLimit_def)
  then show ?thesis using ne sample_less
    by (simp add: view_shows_def is_results_def sample_view_def View_new_def one_result_docs m firsts_def insert_Diff_if)
qed

lemma sample_query_result:
  "is_query_result absl_reference (\<lambda>s. [s]) sample_limit_query [[''c'', ''x''] \<mapsto> sample_document ''x'' 1] (one_document (sample_document ''x'' 1))"
  by (auto simp: is_query_result_def documents_ok_def one_document_inv one_document_get sample_document_key sample_document_ok sample_limit_matches
      split: if_splits)

section \<open>Creating a view\<close>

lemma View_new_ok: "key_map_inv remote_keys \<Longrightarrow> view_inv a split (View_new split q remote_keys)"
  by (simp add: view_inv_def view_ok_def results_ok_def View_new_def query_order.DocumentSet_new_inv)

lemma new_documents: "GetDocument (DocumentSet_new (DocumentComparator_of split q)) = (\<lambda>k. None)" "DocumentSet_size (DocumentSet_new (DocumentComparator_of split q)) = 0"
  using query_order.GetDocument_None_iff[OF query_order.DocumentSet_new_inv(1), of split q]
    query_order.DocumentSet_size_docs[OF query_order.DocumentSet_new_inv(1), of split q] query_order.DocumentSet_new_inv(2)
  by (auto simp: fun_eq_iff)

lemma View_new_shows: "view_shows a split (View_new split q remote_keys) (\<lambda>k. None)"
  by (simp add: view_shows_def View_new_def query_order.DocumentSet_new_inv is_results_def firsts_def matching_documents_def)

lemma initial_changes_results:
  assumes r: "key_map_inv remote_keys" and m: "is_query_result a split q C m" and n: "SortedMap_size m < tree_capacity"
  defines "v \<equiv> View_new split q remote_keys"
  shows "\<exists>c. ComputeDocumentChanges a split v m None = Inr c \<and> \<not> needs_refill c \<and> computed_ok a split v c \<and>
    DocumentSet_size (changed_documents c) < tree_capacity \<and>
    is_results split q (matching_documents a split q C) (docs (changed_documents c))"
proof -
  have v: "view_ok a split v" using View_new_ok[OF r] by (simp add: view_inv_def v_def)
  have q: "view_query v = q" "document_set v = DocumentSet_new (DocumentComparator_of split q)" by (simp_all add: v_def View_new_def)
  have mo: "documents_ok a split (view_query v) m" using m by (simp add: is_query_result_def q)
  have room: "room v (initial_changes v None) (SortedMap_size m)" using n by (simp add: room_def initial_changes_def q new_documents)
  have eq: "equal_alike split v m" by (simp add: equal_alike_def q new_documents)
  have "seen a split v (document_set v) m (\<lambda>k. None) = SortedMap_get m"
    by (rule ext) (simp add: seen_def q new_documents split: option.split)
  then have S: "matching_documents a split q (seen a split v (document_set v) m (\<lambda>k. None)) = matching_documents a split q C"
    using m by (auto simp: matching_documents_def is_query_result_def)
  have e: "cache_ok (\<lambda>k. None)" by (simp add: cache_ok_def dom_def)
  obtain c where c: "ComputeDocumentChanges a split v m None = Inr c" "computed_ok a split v c"
      "DocumentSet_size (changed_documents c) \<le> DocumentSet_size (document_set v) + SortedMap_size m"
      "\<not> needs_refill c \<longrightarrow> is_results split q (matching_documents a split q C) (docs (changed_documents c))"
    using compute_complete[OF v e View_new_shows[of a split q remote_keys, folded v_def] mo eq room] unfolding q(1) S by blast
  obtain c' where c': "ComputeDocumentChanges a split v m None = Inr c'"
      "needs_refill c' \<longleftrightarrow> (\<exists>k d. SortedMap_get m k = Some d \<and> asks_refill split v (limit_last (view_query v) (changed_documents (initial_changes v None)))
        (limit_first (view_query v) (changed_documents (initial_changes v None))) (GetDocument (changed_documents (initial_changes v None)) k) (matching a split (view_query v) d))"
    using ComputeDocumentChanges_steps[OF v computed_initial[OF v] room mo] by auto
  have "\<not> needs_refill c'" unfolding c'(2) by (simp add: initial_changes_def q new_documents)
  moreover have "c' = c" using c(1) c'(1) by simp
  ultimately show ?thesis using c n by (intro exI[of _ c]) (simp add: q new_documents)
qed

lemma initial_view_ok:
  assumes r: "key_map_inv remote_keys" "card (keys_in remote_keys) < tree_capacity"
    and m: "is_query_result a split q C documents" "SortedMap_size documents < tree_capacity"
  shows "\<exists>v s lc. InitializeViewAndComputeSnapshot a split q documents remote_keys st token = Inr (v, s, lc) \<and>
    view_inv a split v \<and> view_query v = q \<and> view_shows a split v C \<and> snapshot_documents s = document_set v \<and>
    (\<exists>c tc. computed_ok a split (View_new split q remote_keys) c \<and> snapshot_of (View_new split q remote_keys) v c tc = Some s) \<and>
    fold after_change (document_changes s) (\<lambda>k. None) = GetDocument (document_set v)"
proof -
  let ?v = "View_new split q remote_keys"
  let ?t = "Some \<lparr>tc_resume_token = token, tc_current = (st = SyncSynced), added_documents = no_keys, modified_documents = no_keys, removed_documents = no_keys\<rparr>"
  obtain c where c: "ComputeDocumentChanges a split ?v documents None = Inr c" "\<not> needs_refill c" "computed_ok a split ?v c"
      "DocumentSet_size (changed_documents c) < tree_capacity" "is_results split q (matching_documents a split q C) (docs (changed_documents c))"
    using initial_changes_results[OF r(1) m] by blast
  have t: "target_change_ok ?v ?t" using r(2) by (simp add: target_change_ok_def View_new_def)
  obtain v' lc where v': "View_ApplyChanges ?v c ?t False = Inr (v', snapshot_of ?v v' c ?t, lc)" "view_inv a split v'" "applied ?v c ?t False v' lc"
    using View_ApplyChanges_ok[OF View_new_ok[OF r(1)] c(3,2,4) t] by blast
  have s: "sync_state v' \<noteq> sync_state ?v" using v'(3) by (simp add: applied_def sync_state_after_def View_new_def)
  then obtain s where sn: "snapshot_of ?v v' c ?t = Some s" "document_changes s = sort_changes v' (GetChanges (change_set c))"
      "snapshot_documents s = changed_documents c" by (simp add: snapshot_of_def)
  have "fold after_change (document_changes s) (\<lambda>k. None) = GetDocument (changed_documents c)"
    unfolding sn(2) using c(3) by (intro replay_describes) (simp_all add: computed_ok_def View_new_def new_documents)
  moreover have "\<exists>c tc. computed_ok a split ?v c \<and> snapshot_of ?v v' c tc = Some s" using c(3) sn(1) by blast
  moreover have "InitializeViewAndComputeSnapshot a split q documents remote_keys st token = Inr (v', s, lc)"
    using c(1) v'(1) sn(1) by (simp add: InitializeViewAndComputeSnapshot_def Let_def)
  moreover have "view_query v' = q" "document_set v' = changed_documents c" using v'(3) by (simp_all add: applied_def View_new_def)
  ultimately show ?thesis using c(5) v'(2) sn(3)
    by (intro exI[of _ v'] exI[of _ s] exI[of _ lc] conjI) (simp_all add: view_shows_def)
qed

text \<open>
  C11. Creating a view on the documents that the local store returns for its query succeeds, with a snapshot: the view shows
  exactly the results of the query over the cache, in order and within the limit, and the snapshot reports them.
\<close>

theorem InitializeView_shows_results:
  assumes r: "key_map_inv remote_keys" "card (keys_in remote_keys) < tree_capacity"
    and m: "is_query_result a split q C documents" "SortedMap_size documents < tree_capacity"
  shows "\<exists>v s lc. InitializeViewAndComputeSnapshot a split q documents remote_keys st token = Inr (v, s, lc) \<and>
    view_inv a split v \<and> view_query v = q \<and> view_shows a split v C \<and> snapshot_documents s = document_set v \<and>
    fold after_change (document_changes s) (\<lambda>k. None) = GetDocument (document_set v)"
  using initial_view_ok[OF r m, of st token] by blast

theorem InitializeView_shows_results_witness:
  "\<exists>v s lc. InitializeViewAndComputeSnapshot absl_reference (\<lambda>s. [s]) sample_limit_query (one_document (sample_document ''x'' 1)) no_keys SyncSynced ''t'' =
     Inr (v, s, lc) \<and> view_shows absl_reference (\<lambda>s. [s]) v [[''c'', ''x''] \<mapsto> sample_document ''x'' 1]"
  using InitializeView_shows_results[OF no_keys_in(2) _ sample_query_result, of SyncSynced "''t''"] by (auto simp: one_document_size tree_capacity_def)

section \<open>Snapshot steps\<close>

lemma emit_new_snapshot_ok:
  assumes v: "view_inv a split v" and C: "cache_ok C" "cache_ok S" "lags a split (view_query v) C S" and s: "view_shows a split v S"
    and m: "documents_ok a split (view_query v) m" "equal_alike split v m" "is_query_result a split (view_query v) (changed_cache C m) m2"
    and r: "view_room v (SortedMap_size m + SortedMap_size m2)" and t: "target_change_ok v tc"
  shows "\<exists>c v' lc S'. emit_new_snapshot a split m2 v m tc reset = Inr (v', snapshot_of v v' c tc, lc) \<and> computed_ok a split v c \<and>
    view_inv a split v' \<and> applied v c tc reset v' lc \<and>
    cache_ok S' \<and> lags a split (view_query v) (changed_cache C m) S' \<and> view_shows a split v' S'"
proof -
  have vo: "view_ok a split v" using v by (simp add: view_inv_def)
  obtain c S' where c: "refilled_changes a split m2 v m = Inr c" "\<not> needs_refill c" "computed_ok a split v c"
      "DocumentSet_size (changed_documents c) < tree_capacity" "cache_ok S'" "lags a split (view_query v) (changed_cache C m) S'"
      "is_results split (view_query v) (matching_documents a split (view_query v) S') (docs (changed_documents c))"
    using refilled_changes_results[OF vo C s m r] by blast
  obtain v' lc where v': "View_ApplyChanges v c tc reset = Inr (v', snapshot_of v v' c tc, lc)" "view_inv a split v'" "applied v c tc reset v' lc"
    using View_ApplyChanges_ok[OF v c(3,2,4) t] by blast
  have "view_shows a split v' S'" using v'(3) c(7) by (simp add: applied_def view_shows_def)
  moreover have "emit_new_snapshot a split m2 v m tc reset = Inr (v', snapshot_of v v' c tc, lc)"
    unfolding emit_new_snapshot_refilled using c(1) v'(1) by simp
  ultimately show ?thesis using c(3,5,6) v'(2,3) by - (intro exI conjI; assumption)
qed

text \<open>
  C2. A snapshot step of the sync engine keeps a view on the results of its query. If the view shows the results over a
  version S of the cache C that lags behind only where the view may keep an old version, and the documents m change, then the
  step succeeds, with at most one refill from the local store, and the view shows the results over such a version of the
  changed cache: all matching documents in order, or the first or last ones that the limit admits.
\<close>

theorem emit_new_snapshot_shows_results:
  assumes v: "view_inv a split v" and C: "cache_ok C" "cache_ok S" "lags a split (view_query v) C S" and s: "view_shows a split v S"
    and m: "documents_ok a split (view_query v) m" "equal_alike split v m" "is_query_result a split (view_query v) (changed_cache C m) m2"
    and r: "view_room v (SortedMap_size m + SortedMap_size m2)" and t: "target_change_ok v tc"
  shows "\<exists>v' s lc S'. emit_new_snapshot a split m2 v m tc reset = Inr (v', s, lc) \<and> view_inv a split v' \<and> view_query v' = view_query v \<and>
    cache_ok S' \<and> lags a split (view_query v') (changed_cache C m) S' \<and> view_shows a split v' S'"
  using emit_new_snapshot_ok[OF v C s m r t, of reset] by (auto simp: applied_def)

theorem emit_new_snapshot_shows_results_witness:
  "\<exists>v' s lc S'. emit_new_snapshot absl_reference (\<lambda>s. [s]) (one_document (sample_document ''y'' 2)) sample_view (one_document (sample_document ''x'' 0)) None False =
      Inr (v', s, lc) \<and> lags absl_reference (\<lambda>s. [s]) sample_limit_query (changed_cache sample_cache (one_document (sample_document ''x'' 0))) S' \<and>
      view_shows absl_reference (\<lambda>s. [s]) v' S'"
proof -
  let ?m = "one_document (sample_document ''x'' 0)" and ?m2 = "one_document (sample_document ''y'' 2)"
  have q: "view_query sample_view = sample_limit_query" by (simp add: sample_view_def View_new_def)
  have d: "documents_ok absl_reference (\<lambda>s. [s]) sample_limit_query (one_document (sample_document name n))" if "n = 0 \<or> n = 1 \<or> n = 2" for name n
    using that by (auto simp: documents_ok_def one_document_inv one_document_get sample_document_ok sample_limit_matches)
  have e: "equal_alike (\<lambda>s. [s]) sample_view ?m"
    using sample_differs by (auto simp: equal_alike_def one_document_get sample_view_def one_result_get sample_document_key split: if_splits)
  have r: "is_query_result absl_reference (\<lambda>s. [s]) sample_limit_query (changed_cache sample_cache ?m) ?m2"
    using d[of 2 "''y''"] by (auto simp: is_query_result_def one_document_get changed_cache_def sample_cache_def sample_document_key sample_limit_matches
      split: if_splits)
  have room: "view_room sample_view (SortedMap_size ?m + SortedMap_size ?m2)"
    by (simp add: view_room_def one_document_size sample_view_def one_result_size tree_capacity_def)
  have t: "target_change_ok sample_view None" by (simp add: target_change_ok_def)
  from emit_new_snapshot_shows_results[OF sample_view_inv sample_cache_ok sample_cache_ok lags_refl sample_view_shows d[folded q] e r[folded q] room t, of False]
  obtain v' s lc S' where "emit_new_snapshot absl_reference (\<lambda>s. [s]) ?m2 sample_view ?m None False = Inr (v', s, lc)" "view_query v' = sample_limit_query"
    "lags absl_reference (\<lambda>s. [s]) (view_query v') (changed_cache sample_cache ?m) S'" "view_shows absl_reference (\<lambda>s. [s]) v' S'"
    unfolding q by auto
  then show ?thesis by auto
qed

text \<open>Removals, then additions, then modifications, each in the order of the query.\<close>

definition change_before :: "(string \<Rightarrow> string list) \<Rightarrow> Query \<Rightarrow> DocumentViewChange \<Rightarrow> DocumentViewChange \<Rightarrow> bool" where
  "change_before split q x y \<longleftrightarrow>
     (let rank = (\<lambda>c. case change_type c of Change_Removed \<Rightarrow> 0 | Change_Added \<Rightarrow> 1 | _ \<Rightarrow> (2::nat))
      in rank x < rank y \<or> rank x = rank y \<and> DocumentComparator_of split q (change_document x) (change_document y) = Ascending)"


definition sample_changes :: ViewDocumentChanges where
  "sample_changes = \<lparr>changed_documents = document_set sample_view,
     change_set = one_entry [''c'', ''x''] (make_change (sample_document ''x'' 1) Change_Added), changed_mutated_keys = no_keys, needs_refill = False\<rparr>"

definition sample_new_view :: View where
  "sample_new_view = View_new (\<lambda>s. [s]) sample_limit_query no_keys"

definition sample_target_change :: TargetChange where
  "sample_target_change = \<lparr>tc_resume_token = [], tc_current = True, added_documents = no_keys, modified_documents = no_keys, removed_documents = no_keys\<rparr>"

lemma sample_changes_ok:
  "view_inv a (\<lambda>s. [s]) sample_new_view" "computed_ok a (\<lambda>s. [s]) sample_new_view sample_changes" "\<not> needs_refill sample_changes"
  "DocumentSet_size (changed_documents sample_changes) < tree_capacity" "target_change_ok sample_new_view (Some sample_target_change)"
  using sample_view_inv[of a]
  by (simp_all add: view_inv_def view_ok_def computed_ok_def sample_new_view_def View_new_ok[unfolded view_inv_def view_ok_def] sample_changes_def
    sample_view_def View_new_def query_order.DocumentSet_new_inv results_ok_def one_entry_inv one_entry_get one_result_size tree_capacity_def
    describes_def change_describes_def one_result_get sample_document_key make_change_def new_documents target_change_ok_def sample_target_change_def)


text \<open>
  C10. When a view that is in step with the server applies changes, the documents in limbo are exactly its results that the
  server does not count among the results and that have no local mutations; the limbo changes are the difference to before.
  The view is in the state Synced exactly if it is current, nothing is in limbo and no reset of the target is pending.
\<close>

theorem limbo_documents_exact:
  assumes v: "view_inv a split v" and c: "computed_ok a split v c" "\<not> needs_refill c" "DocumentSet_size (changed_documents c) < tree_capacity"
    and t: "target_change_ok v tc"
  shows "\<exists>v' s lc. View_ApplyChanges v c tc reset = Inr (v', s, lc) \<and> view_inv a split v' \<and> document_set v' = changed_documents c \<and>
    keys_in (synced_documents v') = synced_after v tc \<and> view_current v' = current_after v tc \<and>
    (view_current v' \<and> \<not> reset \<longrightarrow> keys_in (limbo_documents v') = limbo_keys (document_set v') (keys_in (synced_documents v'))) \<and>
    distinct lc \<and> set lc = limbo_difference (keys_in (limbo_documents v)) (keys_in (limbo_documents v')) \<and>
    (sync_state v' = SyncSynced \<longleftrightarrow> keys_in (limbo_documents v') = {} \<and> view_current v' \<and> \<not> reset)"
proof -
  obtain v' lc where v': "View_ApplyChanges v c tc reset = Inr (v', snapshot_of v v' c tc, lc)" "view_inv a split v'" "applied v c tc reset v' lc"
    using View_ApplyChanges_ok[OF v c t] by blast
  then show ?thesis
    by (intro exI[of _ v'] exI[of _ "snapshot_of v v' c tc"] exI[of _ lc]) (simp add: applied_def limbo_after_def sync_state_after_def)
qed

theorem limbo_documents_exact_witness:
  "\<exists>v' s lc. View_ApplyChanges sample_new_view sample_changes (Some sample_target_change) False = Inr (v', s, lc) \<and>
    keys_in (limbo_documents v') = {[''c'', ''x'']} \<and> set lc = {Limbo_Added [''c'', ''x'']} \<and> sync_state v' \<noteq> SyncSynced"
proof -
  obtain v' s lc where v': "View_ApplyChanges sample_new_view sample_changes (Some sample_target_change) False = Inr (v', s, lc)"
      "document_set v' = changed_documents sample_changes" "keys_in (synced_documents v') = synced_after sample_new_view (Some sample_target_change)"
      "view_current v' = current_after sample_new_view (Some sample_target_change)"
      "view_current v' \<and> \<not> False \<longrightarrow> keys_in (limbo_documents v') = limbo_keys (document_set v') (keys_in (synced_documents v'))"
      "set lc = limbo_difference (keys_in (limbo_documents sample_new_view)) (keys_in (limbo_documents v'))"
      "sync_state v' = SyncSynced \<longleftrightarrow> keys_in (limbo_documents v') = {} \<and> view_current v' \<and> \<not> False"
    using limbo_documents_exact[where a = absl_reference and reset = False, OF sample_changes_ok] by blast
  have e: "view_current v'" "keys_in (synced_documents v') = {}" "keys_in (limbo_documents sample_new_view) = {}"
    by (simp_all add: v'(3,4) current_after_def synced_after_def sample_target_change_def sample_new_view_def View_new_def)
  have "\<not> has_local_mutations (sample_document ''x'' 1)"
    by (simp add: sample_document_def FoundDocument_def ConvertToFoundDocument_value_def InvalidDocument_def has_local_mutations_def)
  then have "keys_in (limbo_documents v') = {[''c'', ''x'']}"
    using v'(5) e(1,2) by (auto simp: v'(2) limbo_keys_def sample_changes_def sample_view_def one_result_get sample_document_key)
  then show ?thesis using v'(1,6,7) e(3) by (auto simp: limbo_difference_def)
qed

text \<open>
  C12. When the client goes offline, a view that is current stops being so, keeps its documents and its limbo documents, and
  raises a snapshot from the cache exactly if it was not already in the state Local. Other online states have no effect.
\<close>

theorem ApplyOnlineStateChange_effect:
  assumes v: "view_inv a split v" "DocumentSet_size (document_set v) < tree_capacity"
  shows "\<exists>v' s lc. ApplyOnlineStateChange v online = Inr (v', s, lc) \<and> view_inv a split v' \<and> document_set v' = document_set v \<and>
    keys_in (limbo_documents v') = keys_in (limbo_documents v) \<and> lc = [] \<and>
    (if view_current v \<and> online = OnlineOffline
     then \<not> view_current v' \<and> sync_state v' = SyncLocal \<and> (s \<noteq> None \<longleftrightarrow> sync_state v \<noteq> SyncLocal) \<and> (\<forall>x. s = Some x \<longrightarrow> from_cache x \<and> document_changes x = [])
     else v' = v \<and> s = None)"
proof (cases "view_current v \<and> online = OnlineOffline")
  case True
  let ?v = "v\<lparr>view_current := False\<rparr>" let ?c = "initial_changes ?v None"
  have vi: "view_inv a split ?v" using v(1) by (simp add: view_inv_def view_ok_def)
  have c: "computed_ok a split ?v ?c" "\<not> needs_refill ?c" "DocumentSet_size (changed_documents ?c) < tree_capacity"
    using computed_initial[of a split ?v] vi v(2) by (simp_all add: view_inv_def initial_changes_def)
  obtain v' lc where v': "View_ApplyChanges ?v ?c None False = Inr (v', snapshot_of ?v v' ?c None, lc)" "view_inv a split v'" "applied ?v ?c None False v' lc"
    using View_ApplyChanges_ok[OF vi c, of None False] by (auto simp: target_change_ok_def)
  have e: "ApplyOnlineStateChange v online = View_ApplyChanges ?v ?c None False"
    using True by (simp add: ApplyOnlineStateChange_def initial_changes_def Let_def)
  have "GetChanges (change_set ?c) = []" by (simp add: initial_changes_def GetChanges_def DocumentViewChangeSet_new_def SortedMap_new_def ArraySortedMap_new_def)
  then show ?thesis using True v' unfolding e
    by (intro exI[of _ v'] exI[of _ "snapshot_of ?v v' ?c None"] exI[of _ lc])
      (auto simp: applied_def snapshot_of_def limbo_after_def sync_state_after_def current_after_def limbo_difference_def initial_changes_def sort_changes_def)
next
  case False
  then show ?thesis using v(1) by (auto simp: ApplyOnlineStateChange_def)
qed

theorem ApplyOnlineStateChange_effect_witness:
  "\<exists>v' s lc. ApplyOnlineStateChange (sample_view\<lparr>view_current := True\<rparr>) OnlineOffline = Inr (v', s, lc) \<and>
     document_set v' = document_set sample_view \<and> sync_state v' = SyncLocal \<and> s \<noteq> None"
proof -
  have v: "view_inv absl_reference (\<lambda>s. [s]) (sample_view\<lparr>view_current := True\<rparr>)"
    using sample_view_inv[of absl_reference] by (simp add: view_inv_def view_ok_def)
  have s: "DocumentSet_size (document_set (sample_view\<lparr>view_current := True\<rparr>)) < tree_capacity" "sync_state sample_view = SyncNone"
    by (simp_all add: sample_view_def View_new_def one_result_size tree_capacity_def)
  show ?thesis using ApplyOnlineStateChange_effect[OF v s(1), of OnlineOffline] s(2) by fastforce
qed

section \<open>The life of a view\<close>

text \<open>
  The states a view goes through beside a cache: it is created on the results that the local store returns, follows the changes
  of the cache, and sees changes of the online state.
\<close>

inductive view_run :: "absl_strings \<Rightarrow> (string \<Rightarrow> string list) \<Rightarrow> Query \<Rightarrow> View \<Rightarrow> (DocumentKey \<Rightarrow> MutableDocument option) \<Rightarrow> bool"
  for a split q where
  create: "\<lbrakk>cache_ok C; is_query_result a split q C documents; SortedMap_size documents < tree_capacity; key_map_inv remote_keys;
     card (keys_in remote_keys) < tree_capacity;
     InitializeViewAndComputeSnapshot a split q documents remote_keys st token = Inr (v, s, lc)\<rbrakk> \<Longrightarrow> view_run a split q v C"
| change: "\<lbrakk>view_run a split q v C; documents_ok a split q m; equal_alike split v m; is_query_result a split q (changed_cache C m) m2;
     view_room v (SortedMap_size m + SortedMap_size m2); target_change_ok v tc;
     emit_new_snapshot a split m2 v m tc reset = Inr (v', s, lc)\<rbrakk> \<Longrightarrow> view_run a split q v' (changed_cache C m)"
| online: "\<lbrakk>view_run a split q v C; DocumentSet_size (document_set v) < tree_capacity;
     ApplyOnlineStateChange v online_state = Inr (v', s, lc)\<rbrakk> \<Longrightarrow> view_run a split q v' C"

lemma online_step:
  assumes "view_inv a split v" "DocumentSet_size (document_set v) < tree_capacity"
  shows "\<exists>v' s lc. ApplyOnlineStateChange v online_state = Inr (v', s, lc) \<and> view_inv a split v' \<and> view_query v' = view_query v \<and>
    document_set v' = document_set v \<and> (s = None \<or> (\<exists>c tc. computed_ok a split (v\<lparr>view_current := False\<rparr>) c \<and>
      changed_documents c = document_set v \<and> s = snapshot_of (v\<lparr>view_current := False\<rparr>) v' c tc))"
proof (cases "view_current v \<and> online_state = OnlineOffline")
  case True
  let ?v = "v\<lparr>view_current := False\<rparr>" let ?c = "initial_changes ?v None"
  have vi: "view_inv a split ?v" using assms(1) by (simp add: view_inv_def view_ok_def)
  have c: "computed_ok a split ?v ?c" "\<not> needs_refill ?c" "DocumentSet_size (changed_documents ?c) < tree_capacity"
    using computed_initial[of a split ?v] vi assms(2) by (simp_all add: view_inv_def initial_changes_def)
  have e: "ApplyOnlineStateChange v online_state = View_ApplyChanges ?v ?c None False"
    using True by (simp add: ApplyOnlineStateChange_def initial_changes_def Let_def)
  have t: "target_change_ok ?v None" by (simp add: target_change_ok_def)
  obtain v' lc where v': "View_ApplyChanges ?v ?c None False = Inr (v', snapshot_of ?v v' ?c None, lc)" "view_inv a split v'"
      "applied ?v ?c None False v' lc" using View_ApplyChanges_ok[OF vi c t, of False] by blast
  have "view_query v' = view_query v" "document_set v' = document_set v" "changed_documents ?c = document_set v"
    using v'(3) by (simp_all add: applied_def initial_changes_def)
  then show ?thesis using c(1) v'(1,2) e by (intro exI[of _ v'] exI[of _ "snapshot_of ?v v' ?c None"] exI[of _ lc]) auto
next
  case False
  then show ?thesis using assms by (auto simp: ApplyOnlineStateChange_def)
qed

text \<open>
  C1. Whatever happens to a view after its creation, it is well-formed and shows the results of its query over a version of the
  cache that lags behind only where a view may keep the old version of a document.
\<close>

theorem view_run_shows_results:
  "view_run a split q v C \<Longrightarrow> view_inv a split v \<and> view_query v = q \<and>
     (\<exists>S. cache_ok S \<and> lags a split q C S \<and> view_shows a split v S)"
proof -
  assume "view_run a split q v C"
  then have "cache_ok C \<and> view_inv a split v \<and> view_query v = q \<and> (\<exists>S. cache_ok S \<and> lags a split q C S \<and> view_shows a split v S)"
  proof (induction rule: view_run.induct)
    case (create C documents remote_keys st token v s lc)
    then show ?case using initial_view_ok[OF create.hyps(4,5,2,3), of st token] lags_refl by fastforce
  next
    case (change v C m m2 tc reset v' s lc)
    then obtain S where S: "cache_ok C" "view_inv a split v" "view_query v = q" "cache_ok S" "lags a split q C S" "view_shows a split v S" by blast
    have "cache_ok (changed_cache C m)" by (rule changed_cache_ok[OF S(1) change.hyps(2)])
    moreover obtain c v1 lc' S' where "emit_new_snapshot a split m2 v m tc reset = Inr (v1, snapshot_of v v1 c tc, lc')" "view_inv a split v1"
        "view_query v1 = q" "cache_ok S'" "lags a split q (changed_cache C m) S'" "view_shows a split v1 S'"
      using emit_new_snapshot_ok[where reset = reset, OF S(2,1,4) _ S(6) _ change.hyps(3) _ change.hyps(5,6)] S(3,5) change.hyps(2,4)
      by (auto simp: applied_def)
    ultimately show ?case using change.hyps(7) by auto
  next
    case (online v C online_state v' s lc)
    then show ?case using online_step[OF _ online.hyps(2), of a split online_state] by (auto simp: view_shows_def)
  qed
  then show ?thesis by simp
qed

theorem view_run_shows_results_witness:
  "\<exists>v. view_run absl_reference (\<lambda>s. [s]) sample_limit_query v [[''c'', ''x''] \<mapsto> sample_document ''x'' 1] \<and> view_query v = sample_limit_query"
proof -
  obtain v s lc where "InitializeViewAndComputeSnapshot absl_reference (\<lambda>s. [s]) sample_limit_query (one_document (sample_document ''x'' 1)) no_keys SyncSynced [] =
     Inr (v, s, lc)" using initial_view_ok[OF no_keys_in(2) _ sample_query_result, of SyncSynced "[]"] by (auto simp: one_document_size tree_capacity_def)
  then have "view_run absl_reference (\<lambda>s. [s]) sample_limit_query v [[''c'', ''x''] \<mapsto> sample_document ''x'' 1]"
    by (intro view_run.create[OF _ sample_query_result]) (auto simp: cache_ok_def sample_document_key one_document_size tree_capacity_def split: if_splits)
  then show ?thesis using view_run_shows_results by blast
qed

end
