(* ===== verification/Spec2Isabelle.thy ===== *)
theory Spec2Isabelle
  imports Sorted_Map Mutations Ordered_Numbers Query_Core View_Theorems
begin

text \<open>
  A model of the data layer of the Firestore client, the C++ code under \<^verbatim>\<open>Firestore/core/src\<close>, with the theorems that
  make it correct. File names below are relative to that directory.

  \<^bold>\<open>The program.\<close> The client keeps documents in immutable sorted containers (\<^verbatim>\<open>immutable/\<close>). A document maps field names to
  values, which have one order and one equality over all types (\<^verbatim>\<open>model/value_util.cc\<close>). Paths name documents and fields
  (\<^verbatim>\<open>model/*_path.cc\<close>). Writes change documents through object values, field masks and transforms and are kept in
  batches (\<^verbatim>\<open>model/*mutation*.cc\<close>). Queries select and order documents by filters, orders and cursors (\<^verbatim>\<open>core/\<close>), and are
  brought to a normal form for index lookups (\<^verbatim>\<open>util/logic_utils.cc\<close>). A view keeps the results of a query up to date as the
  documents of the local cache change and reports snapshots (\<^verbatim>\<open>core/view.cc\<close>). Keys of the persistent store are written with an
  encoding that preserves the order (\<^verbatim>\<open>util/ordered_code.cc\<close>).

  \<^bold>\<open>Conventions.\<close> A function that can end in a failed assertion, a thrown exception or undefined behaviour returns
  \<open>failure + 'a\<close> (theory \<open>Fs_Prelude\<close>); every such branch of the code is a branch of the model. Classes are records, class
  hierarchies with a type tag are datatypes, shared immutable structures are values, and methods that change an object
  return the changed object. 64-bit and 32-bit integers are words, doubles are their 64-bit patterns with an exact
  rational value, strings and bytes are lists of characters, \<^verbatim>\<open>std::set\<close> is an ascending list. Memoisation is left out.

  \<^bold>\<open>Parameters.\<close> The string library that the code links against is not part of the sources: joining and splitting strings
  are arguments (\<open>absl_strings\<close>, \<open>split\<close>), with the documented behaviour as hypotheses where a theorem needs it;
  \<open>absl_reference\<close> is an instance that meets them.

  \<^bold>\<open>Theories.\<close>
  \<^item> \<open>Fs_Prelude\<close>: failures, comparison results (\<^verbatim>\<open>util/comparison.h\<close>), the contract of comparators, sorted entry lists.
  \<^item> \<open>Llrb_Node\<close>, \<open>Tree_Sorted_Map\<close>, \<open>Array_Sorted_Map\<close>, \<open>Sorted_Map\<close>: the red-black tree with its size fields, the iterator,
    the array, the union of both that switches representation, key views and sets (\<^verbatim>\<open>immutable/*.h\<close>). The locale
    \<open>sorted_map_contract\<close> states what a map promises; tree, array and union are instances. Shown: the tree keeps order,
    balance and sizes through every insertion and removal, its height is logarithmic, lookups return what was inserted
    or erased, and range views visit exactly the keys of the range.
  \<^item> \<open>Number_Compare\<close>, \<open>Field_Value\<close>, \<open>Value_Order\<close>: comparison of doubles and mixed numbers (\<^verbatim>\<open>util/comparison.cc\<close>), values
    (\<^verbatim>\<open>model/value_util.cc\<close>), server timestamps (\<^verbatim>\<open>model/server_timestamp_util.cc\<close>). The comparison of values is shown to be
    the byte order of a key computed from the value, hence a total preorder; mixed comparison is exact; equal values
    compare the same; bounds of a type enclose it, with the exceptions that are proved.
  \<^item> \<open>Doc_Paths\<close>: resource paths, field paths and document keys; printing and parsing are inverse.
  \<^item> \<open>Object_Value\<close>, \<open>Transform_Ops\<close>, \<open>Mutations\<close>: object values and masks (\<^verbatim>\<open>model/object_value.cc\<close>), transforms
    (\<^verbatim>\<open>model/transform_operation.cc\<close>), documents, preconditions, mutations, overlays and batches. Shown: reads after
    writes and deletes, effects of a set of edits, saturating increments, array transforms, guards of local application,
    versions of acknowledged batches, and overlays that restore the local view.
  \<^item> \<open>Ordered_Code\<close>, \<open>Ordered_Numbers\<close>: the order-preserving codes of strings, integers and doubles, increasing and decreasing
    (\<^verbatim>\<open>util/ordered_code.cc\<close>, \<^verbatim>\<open>util/bits.h\<close>). The locale \<open>ordered_codec\<close> derives prefix-freeness, reading back and the order
    of concatenated codes; every code of the file is an instance.
  \<^item> \<open>Query_Filters\<close>, \<open>Filter_Logic\<close>, \<open>Query_Core\<close>: filters (\<^verbatim>\<open>core/*filter*.cc\<close>), their disjunctive normal form
    (\<^verbatim>\<open>util/logic_utils.cc\<close>), orders, cursors, queries and the targets they are sent as (\<^verbatim>\<open>core/query.cc\<close>). Shown: the terms of
    the normal form cover the filter, the comparator of a query is a total order on matching documents, and the target
    of a query limited to its last results mirrors it.
  \<^item> \<open>Document_Set\<close>: sets of documents in the order of a query (\<^verbatim>\<open>model/document_set.cc\<close>). The locale \<open>dictionary\<close> states the
    laws of maps whose comparator identifies equal keys only, \<open>document_order\<close> those of a comparator that identifies only
    documents with the same key; both are interpreted on the comparators of keys and of queries.
  \<^item> \<open>View_Core\<close>, \<open>View_Results\<close>, \<open>View_Apply\<close>, \<open>View_Refill\<close>, \<open>View_Theorems\<close>: views and snapshots (\<^verbatim>\<open>core/view.cc\<close>,
    \<^verbatim>\<open>core/view_snapshot.cc\<close>) and the steps of \<^verbatim>\<open>core/sync_engine.cc\<close> that create a view and emit its snapshots. Shown: change
    sets describe the difference of two sets of results; no assertion of these files fails; a view shows the results of
    its query over the cache, the first or last ones if there is a limit, after any sequence of steps, with at most one
    refill per step; replaying a snapshot on the old documents gives the new ones; limbo documents are exactly the results
    that the server does not know and that have no local writes.

  \<^bold>\<open>Bounds.\<close> The trees store sizes in 31 bits; theorems about maps assume fewer than \<open>tree_capacity\<close> entries, which no run of
  the client reaches. Loops are structural recursion or have termination proofs; no fuel is used.

  \<^bold>\<open>Not modelled.\<close> Canonical id strings and hashes, which only feed caches and logs; the persistent store and the wire
  format, which are calls into third-party libraries and generated code; streams, executors and user callbacks, whose
  behaviour depends on threads and the network; the other products of the repository, which are Objective-C and Swift.
\<close>

end
